(* ===== verification/Q27_Prelude.thy ===== *)
theory Q27_Prelude
  imports Main "HOL-Library.Sublist" "HOL-Library.Word" "HOL-Library.Multiset"
begin

text \<open>
  Shared material of the q27 development.  A C++ \<^verbatim>\<open>std::string\<close> is a sequence of bytes and is
  modelled as \<^typ>\<open>string\<close> (Isabelle's \<^typ>\<open>char\<close> is an 8-bit byte); \<^verbatim>\<open>std::string::npos\<close> is
  \<^const>\<open>None\<close>.  The theory holds the search and slicing operations of \<^verbatim>\<open>std::string\<close> that the
  sources call (\<open>find\<close>, \<open>find\<close> with a start, \<open>rfind\<close>, \<open>substr\<close>), results with errors, decimal
  numerals, the locale of the scan for the longest entry, and the lemma collections used by the
  component theories:
  \<^item> \<open>str_find\<close>: facts about string search;
  \<^item> \<open>q27_len\<close>: length facts that discharge the termination of scanning loops.
\<close>

named_theorems str_find \<open>facts about string search\<close>
named_theorems q27_len \<open>length facts for scanning loops\<close>

type_synonym bytes = "8 word list"

section \<open>Searching byte strings\<close>

text \<open>\<open>find_sub m s\<close> is \<^verbatim>\<open>s.find(m)\<close>: the least start of an occurrence of \<open>m\<close> in \<open>s\<close>.\<close>

fun find_sub :: "'a list \<Rightarrow> 'a list \<Rightarrow> nat option" where
  "find_sub m [] = (if m = [] then Some 0 else None)"
| "find_sub m (x # xs) =
     (if prefix m (x # xs) then Some 0 else map_option Suc (find_sub m xs))"

text \<open>\<^verbatim>\<open>s.find(m, i)\<close>.\<close>

definition find_at :: "'a list \<Rightarrow> 'a list \<Rightarrow> nat \<Rightarrow> nat option" where
  "find_at m s i = (if length s < i then None else map_option ((+) i) (find_sub m (drop i s)))"

text \<open>\<^verbatim>\<open>s.rfind(m)\<close>: the greatest start of an occurrence.\<close>

fun rfind_sub :: "'a list \<Rightarrow> 'a list \<Rightarrow> nat option" where
  "rfind_sub m [] = (if m = [] then Some 0 else None)"
| "rfind_sub m (x # xs) =
     (case rfind_sub m xs of
        Some i \<Rightarrow> Some (Suc i)
      | None \<Rightarrow> if prefix m (x # xs) then Some 0 else None)"

text \<open>\<^verbatim>\<open>s.substr(i, n)\<close> for \<open>i \<le> s.size()\<close>.\<close>

definition substr :: "'a list \<Rightarrow> nat \<Rightarrow> nat \<Rightarrow> 'a list" where
  "substr s i n = take n (drop i s)"

text \<open>The smaller of two positions, where \<^const>\<open>None\<close> (npos) is the largest value.\<close>

fun npos_min :: "nat option \<Rightarrow> nat option \<Rightarrow> nat option" where
  "npos_min None q = q"
| "npos_min p None = p"
| "npos_min (Some i) (Some j) = Some (min i j)"

section \<open>Specifications of the searches\<close>

lemma find_sub_bound [q27_len]:
  "find_sub m s = Some i \<Longrightarrow> i + length m \<le> length s"
proof (induction s arbitrary: i)
  case (Cons x xs)
  then show ?case
    by (auto split: if_splits dest: prefix_length_le)
qed (auto split: if_splits)

lemma find_sub_prefix: "find_sub m s = Some i \<Longrightarrow> prefix m (drop i s)"
proof (induction s arbitrary: i)
  case (Cons x xs)
  then show ?case by (auto split: if_splits)
qed (auto split: if_splits)

lemma find_sub_least: "find_sub m s = Some i \<Longrightarrow> j < i \<Longrightarrow> \<not> prefix m (drop j s)"
proof (induction s arbitrary: i j)
  case (Cons x xs)
  from Cons.prems obtain k where k: "find_sub m xs = Some k" "i = Suc k" "\<not> prefix m (x # xs)"
    by (auto split: if_splits)
  show ?case
  proof (cases j)
    case 0
    with k show ?thesis by simp
  next
    case (Suc j')
    with Cons.IH [OF k(1)] Cons.prems k show ?thesis by simp
  qed
qed (auto split: if_splits)

lemma find_sub_None: "find_sub m s = None \<Longrightarrow> \<not> prefix m (drop j s) \<or> (length s \<le> j \<and> m = [])"
proof (induction s arbitrary: j)
  case (Cons x xs)
  from Cons.prems have n: "find_sub m xs = None" "\<not> prefix m (x # xs)"
    by (auto split: if_splits)
  show ?case
  proof (cases j)
    case 0
    with n show ?thesis by simp
  next
    case (Suc j')
    with Cons.IH [OF n(1)] show ?thesis by auto
  qed
qed (auto split: if_splits)

lemma find_sub_None_iff [str_find]: "find_sub m s = None \<longleftrightarrow> \<not> sublist m s"
proof (induction s)
  case (Cons x xs)
  then show ?case by (auto simp: sublist_Cons_right)
qed auto

lemma find_sub_Some_iff:
  "find_sub m s = Some i \<longleftrightarrow>
     i \<le> length s \<and> prefix m (drop i s) \<and> (\<forall>j<i. \<not> prefix m (drop j s))"
proof (intro iffI)
  assume "find_sub m s = Some i"
  then show "i \<le> length s \<and> prefix m (drop i s) \<and> (\<forall>j<i. \<not> prefix m (drop j s))"
    using find_sub_bound find_sub_prefix find_sub_least by (metis add_leD1)
next
  assume i: "i \<le> length s \<and> prefix m (drop i s) \<and> (\<forall>j<i. \<not> prefix m (drop j s))"
  show "find_sub m s = Some i"
  proof (cases "find_sub m s")
    case None
    with i have "\<not> sublist m s" by (simp add: find_sub_None_iff)
    with i show ?thesis
      by (meson prefix_imp_sublist sublist_drop sublist_order.order_trans)
  next
    case (Some k)
    then show ?thesis
      using i find_sub_prefix find_sub_least by (metis linorder_neqE_nat)
  qed
qed

lemma sublist_iff_drop: "sublist m s \<longleftrightarrow> (\<exists>j\<le>length s. prefix m (drop j s))"
  by (metis find_sub_None_iff find_sub_Some_iff option.exhaust_sel prefix_imp_sublist
      sublist_drop sublist_order.order_trans)

lemma find_sub_le: "prefix m (drop j s) \<Longrightarrow> j \<le> length s \<Longrightarrow> \<exists>k\<le>j. find_sub m s = Some k"
  by (metis find_sub_None_iff find_sub_least leI option.exhaust_sel sublist_iff_drop)

lemma prefix_drop_append: "prefix m (drop j s) \<Longrightarrow> j \<le> length s \<Longrightarrow> prefix m (drop j (s @ t))"
  by simp

text \<open>The decomposition a search result stands for.\<close>

lemma find_sub_decomp:
  assumes "find_sub m s = Some i"
  obtains post where "s = take i s @ m @ post" and "drop (i + length m) s = post"
proof -
  from assms obtain post where post: "drop i s = m @ post"
    using find_sub_prefix [OF assms] by (auto simp: prefix_def)
  have "s = take i s @ drop i s" by simp
  moreover have "drop (i + length m) s = post"
    using post by (metis append_eq_conv_conj drop_drop add.commute)
  ultimately show thesis using that post by metis
qed

lemma rfind_sub_bound [q27_len]: "rfind_sub m s = Some i \<Longrightarrow> i + length m \<le> length s"
proof (induction s arbitrary: i)
  case (Cons x xs)
  then show ?case
    by (auto split: if_splits option.splits dest: prefix_length_le)
qed (auto split: if_splits)

lemma rfind_sub_prefix: "rfind_sub m s = Some i \<Longrightarrow> prefix m (drop i s)"
proof (induction s arbitrary: i)
  case (Cons x xs)
  then show ?case by (auto split: if_splits option.splits)
qed (auto split: if_splits)

lemma npos_min_None [simp]: "npos_min p None = p"
  by (cases p) auto

lemma npos_min_eq_None [simp]: "npos_min p q = None \<longleftrightarrow> p = None \<and> q = None"
  by (cases p; cases q) auto

lemma npos_min_SomeD: "npos_min p q = Some i \<Longrightarrow> p = Some i \<or> q = Some i"
  by (cases p; cases q) (auto simp: min_def split: if_splits)

lemma length_substr_le [q27_len]: "length (substr s i n) \<le> n"
  by (simp add: substr_def)

section \<open>Partial-marker holdback\<close>

text \<open>
  Both streaming filters (\<^verbatim>\<open>StreamSplitter::tail_keep\<close> and the holdback loop of
  \<^verbatim>\<open>StopBuffer::feed\<close>) look for the largest \<open>k\<close> such that the last \<open>k\<close> bytes of a buffer are
  the first \<open>k\<close> bytes of a marker, counting \<open>k\<close> down.  \<open>overlap_loop\<close> is that loop.
\<close>

primrec overlap_loop :: "nat \<Rightarrow> 'a list \<Rightarrow> 'a list \<Rightarrow> nat" where
  "overlap_loop 0 h m = 0"
| "overlap_loop (Suc k) h m =
     (if drop (length h - Suc k) h = take (Suc k) m then Suc k else overlap_loop k h m)"

lemma overlap_loop_le: "overlap_loop k h m \<le> k"
  by (induction k) (auto intro: le_SucI)

lemma overlap_loop_match:
  "k \<le> length h \<Longrightarrow> k \<le> length m \<Longrightarrow>
     drop (length h - overlap_loop k h m) h = take (overlap_loop k h m) m"
  by (induction k) auto

lemma overlap_loop_max:
  "j \<le> k \<Longrightarrow> drop (length h - j) h = take j m \<Longrightarrow> j \<le> overlap_loop k h m"
  by (induction k) (auto simp: le_Suc_eq)

text \<open>
  A marker that starts before the held-back tail and does not occur inside the buffer cannot be
  completed by later input: emitting the head of the buffer never splits a marker.
\<close>

lemma overlap_loop_safe:
  assumes k: "k = min (length h) (length m - 1)"
    and absent: "find_sub m h = None"
    and j: "j < length h - overlap_loop k h m"
  shows "\<not> prefix m (drop j (h @ rest))"
proof
  assume p: "prefix m (drop j (h @ rest))"
  from j have jh: "j < length h" by simp
  show False
  proof (cases "length m \<le> length h - j")
    case True
    from p jh obtain zs where "drop j h @ rest = m @ zs" by (auto simp: prefix_def)
    with True have "drop j h = m @ take (length h - j - length m) zs"
      by (metis append_eq_append_conv_if append_eq_conv_conj length_drop take_append
          take_all_iff)
    then have "prefix m (drop j h)" by (rule prefixI)
    with find_sub_None [OF absent, of j] jh show False by auto
  next
    case False
    from p jh obtain zs where zs: "drop j h @ rest = m @ zs" by (auto simp: prefix_def)
    have "drop j h = take (length h - j) m"
      using False zs jh
      by (metis append_eq_append_conv_if length_drop less_imp_le not_le)
    then have "drop (length h - (length h - j)) h = take (length h - j) m"
      using jh by simp
    moreover have "length h - j \<le> k" using False k by simp
    ultimately have "length h - j \<le> overlap_loop k h m" by (rule overlap_loop_max [rotated])
    with j jh show False by simp
  qed
qed

section \<open>Code that may throw\<close>

text \<open>\<open>rbind\<close> sequences two computations of type \<open>error + 'a\<close>; an error (\<open>Inl\<close>) ends the sequence.\<close>

definition rbind :: "'e + 'a \<Rightarrow> ('a \<Rightarrow> 'e + 'b) \<Rightarrow> 'e + 'b" where
  "rbind m f = (case m of Inl e \<Rightarrow> Inl e | Inr x \<Rightarrow> f x)"

lemma rbind_simps [simp]:
  "rbind (Inl e) f = Inl e" "rbind (Inr x) f = f x"
  by (simp_all add: rbind_def)

lemma rbind_eq_Inr [simp]: "rbind m f = Inr y \<longleftrightarrow> (\<exists>x. m = Inr x \<and> f x = Inr y)"
  by (cases m) auto

text \<open>A loop whose body may throw: the fold stops at the first exception.\<close>

fun rfold :: "('x \<Rightarrow> 's \<Rightarrow> 'e + 's) \<Rightarrow> 'x list \<Rightarrow> 's \<Rightarrow> 'e + 's" where
  "rfold f [] s = Inr s"
| "rfold f (x # xs) s = rbind (f x s) (rfold f xs)"

section \<open>Decimal numerals\<close>

text \<open>\<^verbatim>\<open>std::to_string\<close> of an unsigned number.\<close>

fun to_string :: "nat \<Rightarrow> string" where
  "to_string n = (if n < 10 then [char_of (48 + n)] else to_string (n div 10) @ [char_of (48 + n mod 10)])"

declare to_string.simps [simp del]

text \<open>Reading a numeral back: distinct numbers have distinct numerals.\<close>

definition of_string :: "string \<Rightarrow> nat" where
  "of_string s = foldl (\<lambda>a c. 10 * a + (of_char c - 48)) 0 s"

lemma of_string_to_string: "of_string (to_string n) = n"
proof (induction n rule: to_string.induct)
  case (1 n)
  show ?case
  proof (cases "n < 10")
    case True
    then show ?thesis by (simp add: to_string.simps [of n] of_string_def)
  next
    case False
    with 1 show ?thesis by (simp add: to_string.simps [of n] of_string_def)
  qed
qed

lemma to_string_inject: "to_string m = to_string n \<longleftrightarrow> m = n"
  by (metis of_string_to_string)

section \<open>Linear scans for the longest entry\<close>

text \<open>
  The prefix tiers all look for the longest usable entry by one pass that keeps the best entry so
  far.  The locale states that loop; what it finds is proved once.
\<close>

locale longest_scan =
  fixes ok :: "'e \<Rightarrow> bool" and len :: "'e \<Rightarrow> nat" and scan :: "'e list \<Rightarrow> 'e option \<Rightarrow> 'e option"
  assumes scan_Nil: "scan [] best = best"
    and scan_Cons: "scan (e # es) best =
      (if ok e \<and> (case best of None \<Rightarrow> True | Some b \<Rightarrow> len b < len e) then scan es (Some e) else scan es best)"
begin

lemma scan_from:
  assumes "case best of None \<Rightarrow> True | Some b \<Rightarrow> ok b"
  shows "case scan es best of
      None \<Rightarrow> best = None \<and> list_all (\<lambda>e. \<not> ok e) es
    | Some e \<Rightarrow> ok e \<and> (e \<in> set es \<or> best = Some e) \<and>
        (\<forall>e'\<in>set es \<union> set_option best. ok e' \<longrightarrow> len e' \<le> len e)"
  using assms
proof (induction es arbitrary: best)
  case Nil
  then show ?case by (cases best) (auto simp: scan_Nil)
next
  case (Cons e es)
  let ?new = "ok e \<and> (case best of None \<Rightarrow> True | Some b \<Rightarrow> len b < len e)"
  show ?case
  proof (cases ?new)
    case True
    then have "case Some e of None \<Rightarrow> True | Some b \<Rightarrow> ok b" by simp
    from Cons.IH [OF this] True show ?thesis
      by (cases best) (force simp: scan_Cons split: option.splits)+
  next
    case False
    then have eq: "scan (e # es) best = scan es best" unfolding scan_Cons by (rule if_not_P)
    show ?thesis
    proof (cases best)
      case None
      with False Cons.IH [OF Cons.prems] eq show ?thesis by (auto split: option.splits)
    next
      case (Some a)
      obtain x where x: "scan es best = Some x"
        using Cons.IH [OF Cons.prems] Some by (cases "scan es best") auto
      have ih: "ok x" "x \<in> set es \<or> best = Some x" "\<forall>e'\<in>set es \<union> {a}. ok e' \<longrightarrow> len e' \<le> len x"
        using Cons.IH [OF Cons.prems] x Some by auto
      moreover have "ok e \<longrightarrow> len e \<le> len x"
        using ih(3) False Some Cons.prems by (auto dest: order_trans)
      ultimately show ?thesis using eq x Some by auto
    qed
  qed
qed

lemma scan_longest:
  "case scan es None of
      None \<Rightarrow> list_all (\<lambda>e. \<not> ok e) es
    | Some e \<Rightarrow> e \<in> set es \<and> ok e \<and> list_all (\<lambda>e'. len e' \<le> len e) (filter ok es)"
  using scan_from [of None es] by (auto simp: list_all_iff split: option.splits)

end

end
