(* ===== verification/Stream_Split.thy ===== *)
theory Stream_Split
  imports Q27_Prelude
begin

text \<open>
  The streaming output splitter, \<^verbatim>\<open>src/src/stream_split.h\<close>.  Decoded text arrives piece by piece
  and is routed into the channels TEXT, THINK and TOOL; a tail that may still become a marker is
  held back.  The model keeps the three members of \<^verbatim>\<open>StreamSplitter\<close> as a record, one definition
  per member function, and the \<^verbatim>\<open>for(;;)\<close> loop of \<open>feed\<close> as a recursion over one iteration of
  its body.  The reference \<open>route\<close> reads the whole text at once, character by character; the main
  result is that feeding any split of a text and flushing routes every byte as \<open>route\<close> does.
\<close>

section \<open>The splitter\<close>

datatype chan = TEXT | THINK | TOOL

type_synonym seg = "chan \<times> string"

record splitter =
  chan :: chan
  hold :: string
  tool_boundary :: bool

definition splitter_init :: splitter where
  "splitter_init = \<lparr>chan = TEXT, hold = [], tool_boundary = False\<rparr>"

definition T_OPEN :: string where "T_OPEN = ''<think>''"
definition T_CLOSE :: string where "T_CLOSE = ''</think>''"
definition C_OPEN :: string where "C_OPEN = ''<tool_call>''"
definition C_CLOSE :: string where "C_CLOSE = ''</tool_call>''"

definition tail_keep :: "string \<Rightarrow> string \<Rightarrow> nat" where
  "tail_keep h marker = overlap_loop (min (length h) (length marker - 1)) h marker"

text \<open>\<open>emit_head\<close> returns the new splitter, what it pushed, and its Boolean result.\<close>

definition emit_head :: "splitter \<Rightarrow> nat \<Rightarrow> splitter \<times> seg list \<times> bool" where
  "emit_head st keep =
     (if length (hold st) > keep
      then (st\<lparr>hold := drop (length (hold st) - keep) (hold st)\<rparr>,
            [(chan st, take (length (hold st) - keep) (hold st))], True)
      else (st, [], False))"

text \<open>
  One iteration of the loop of \<open>feed\<close>: whether it ends in \<^verbatim>\<open>continue\<close>, the splitter after it and
  the segments it pushed.
\<close>

definition push_text :: "nat \<Rightarrow> string \<Rightarrow> chan \<Rightarrow> seg list" where
  "push_text p h c = (if p > 0 then [(c, take p h)] else [])"

definition feed_iter :: "splitter \<Rightarrow> bool \<times> splitter \<times> seg list" where
  "feed_iter st =
     (let h = hold st in
      if chan st = TEXT then
        let pt = find_sub T_OPEN h; pc = find_sub C_OPEN h; sc = find_sub C_CLOSE h;
            e = npos_min pt (npos_min pc sc)
        in (case e of
              Some p \<Rightarrow>
                if e = pt then
                  (True,
                   st\<lparr>tool_boundary := False, hold := drop (p + length T_OPEN) h, chan := THINK\<rparr>,
                   push_text p h TEXT)
                else if e = pc then
                  (True,
                   st\<lparr>tool_boundary := False, hold := drop (p + length C_OPEN) h, chan := TOOL\<rparr>,
                   (if p = 0 \<and> tool_boundary st then [(TEXT, [])] else []) @ push_text p h TEXT)
                else
                  (True, st\<lparr>hold := drop (p + length C_CLOSE) h\<rparr>, push_text p h TEXT)
            | None \<Rightarrow>
                let keep = max (max (tail_keep h T_OPEN) (tail_keep h C_OPEN))
                               (tail_keep h C_CLOSE);
                    (st', out, emitted) = emit_head st keep
                in (False, (if emitted then st'\<lparr>tool_boundary := False\<rparr> else st'), out))
      else
        let closer = (if chan st = THINK then T_CLOSE else C_CLOSE)
        in (case find_sub closer h of
              Some p \<Rightarrow>
                (True,
                 st\<lparr>hold := drop (p + length closer) h, tool_boundary := (chan st = TOOL),
                    chan := TEXT\<rparr>,
                 push_text p h (chan st))
            | None \<Rightarrow>
                let (st', out, _) = emit_head st (tail_keep h closer) in (False, st', out)))"

lemmas marker_defs = T_OPEN_def T_CLOSE_def C_OPEN_def C_CLOSE_def

lemma feed_iter_shrinks [q27_len]:
  assumes "feed_iter st = (True, st', out)"
  shows "length (hold st') < length (hold st)"
proof (cases "chan st = TEXT")
  case True
  let ?h = "hold st"
  from assms True obtain p where
    p: "npos_min (find_sub T_OPEN ?h) (npos_min (find_sub C_OPEN ?h) (find_sub C_CLOSE ?h)) = Some p"
    by (auto simp: feed_iter_def Let_def split: option.splits prod.splits)
  then have "p + 7 \<le> length ?h"
    by (auto dest!: npos_min_SomeD find_sub_bound simp: marker_defs)
  then show ?thesis
    using assms True p
    by (auto simp: feed_iter_def Let_def marker_defs split: option.splits prod.splits if_splits)
next
  case False
  then show ?thesis
    using assms
    by (auto simp: feed_iter_def Let_def marker_defs split: option.splits prod.splits if_splits
        dest!: find_sub_bound)
qed

function feed_loop :: "splitter \<Rightarrow> seg list \<Rightarrow> splitter \<times> seg list" where
  "feed_loop st out =
     (let (continue, st', pushed) = feed_iter st
      in if continue then feed_loop st' (out @ pushed) else (st', out @ pushed))"
  by pat_completeness auto
termination
  by (relation "measure (\<lambda>(st, out). length (hold st))")
    (auto dest: feed_iter_shrinks [OF sym])

declare feed_loop.simps [simp del]

definition split_feed :: "splitter \<Rightarrow> string \<Rightarrow> splitter \<times> seg list" where
  "split_feed st piece = feed_loop (st\<lparr>hold := hold st @ piece\<rparr>) []"

definition split_flush :: "splitter \<Rightarrow> splitter \<times> seg list" where
  "split_flush st =
     (if hold st \<noteq> [] then (st\<lparr>hold := []\<rparr>, [(chan st, hold st)]) else (st, []))"

text \<open>A whole stream: every piece is fed in turn, then the splitter is flushed.\<close>

fun split_stream :: "splitter \<Rightarrow> string list \<Rightarrow> seg list" where
  "split_stream st [] = snd (split_flush st)"
| "split_stream st (p # ps) = (let (st', out) = split_feed st p in out @ split_stream st' ps)"

section \<open>Reference: routing a whole text\<close>

text \<open>
  \<open>marker_hit c s\<close> is the marker of channel \<open>c\<close> that \<open>s\<close> begins with: the channel it switches to
  and its length.
\<close>

fun marker_hit :: "chan \<Rightarrow> string \<Rightarrow> (chan \<times> nat) option" where
  "marker_hit TEXT s =
     (if prefix T_OPEN s then Some (THINK, length T_OPEN)
      else if prefix C_OPEN s then Some (TOOL, length C_OPEN)
      else if prefix C_CLOSE s then Some (TEXT, length C_CLOSE)
      else None)"
| "marker_hit THINK s = (if prefix T_CLOSE s then Some (TEXT, length T_CLOSE) else None)"
| "marker_hit TOOL s = (if prefix C_CLOSE s then Some (TEXT, length C_CLOSE) else None)"

lemma marker_hit_pos [q27_len]: "marker_hit c s = Some (c', n) \<Longrightarrow> 0 < n"
  by (cases c) (auto simp: marker_defs split: if_splits)

function route :: "chan \<Rightarrow> string \<Rightarrow> (chan \<times> char) list" where
  "route c [] = []"
| "route c (x # xs) =
     (case marker_hit c (x # xs) of
        Some (c', n) \<Rightarrow> route c' (drop n (x # xs))
      | None \<Rightarrow> (c, x) # route c xs)"
  by pat_completeness auto
termination
  by (relation "measure (\<lambda>(c, s). length s)")
    (auto dest: marker_hit_pos [OF sym] marker_hit_pos)

definition seg_tags :: "seg list \<Rightarrow> (chan \<times> char) list" where
  "seg_tags out = concat (map (\<lambda>(c, s). map (Pair c) s) out)"

section \<open>Routing is independent of how the stream is cut\<close>

lemma seg_tags_simps [simp]:
  "seg_tags [] = []"
  "seg_tags ((c, s) # out) = map (Pair c) s @ seg_tags out"
  "seg_tags (out @ out') = seg_tags out @ seg_tags out'"
  by (simp_all add: seg_tags_def)

lemma seg_tags_push [simp]: "seg_tags (push_text p h c) = map (Pair c) (take p h)"
  by (simp add: push_text_def)

text \<open>Bytes at which no marker of the channel starts are routed to the channel itself.\<close>

lemma route_skip:
  "n \<le> length s \<Longrightarrow> (\<And>j. j < n \<Longrightarrow> marker_hit c (drop j s) = None) \<Longrightarrow>
     route c s = map (Pair c) (take n s) @ route c (drop n s)"
proof (induction n arbitrary: s)
  case (Suc n)
  then obtain x xs where s: "s = x # xs" by (cases s) auto
  from Suc.prems(2) [of 0] s have "marker_hit c (x # xs) = None" by simp
  moreover have "route c xs = map (Pair c) (take n xs) @ route c (drop n xs)"
  proof (rule Suc.IH)
    show "n \<le> length xs" using Suc.prems(1) s by simp
    show "\<And>j. j < n \<Longrightarrow> marker_hit c (drop j xs) = None"
      using Suc.prems(2) s by (metis Suc_mono drop_Suc_Cons)
  qed
  ultimately show ?case using s by simp
qed simp

lemma route_hit:
  assumes "marker_hit c s = Some (c', n)" "s \<noteq> []"
  shows "route c s = route c' (drop n s)"
  using assms by (cases s) auto

text \<open>
  Every marker contains the byte \<open><\<close> at its first position only, so a marker that starts inside
  the text before a found marker would have to end before it.
\<close>

definition markers :: "chan \<Rightarrow> string list" where
  "markers c = (case c of TEXT \<Rightarrow> [T_OPEN, C_OPEN, C_CLOSE] | THINK \<Rightarrow> [T_CLOSE] | TOOL \<Rightarrow> [C_CLOSE])"

lemma marker_hit_None_iff: "marker_hit c s = None \<longleftrightarrow> (\<forall>m\<in>set (markers c). \<not> prefix m s)"
  by (cases c) (auto simp: markers_def)

lemma marker_shape:
  assumes "m \<in> set (markers c)"
  obtains t where "m = CHR ''<'' # t" "CHR ''<'' \<notin> set t"
  using assms by (cases c) (auto simp: markers_def marker_defs)

lemma no_straddle:
  assumes m: "m \<in> set (markers c)" and e: "prefix (CHR ''<'' # t) (drop e h)"
    and j: "j < e" and p: "prefix m (drop j (h @ rest))"
  shows "prefix m (drop j h)"
proof -
  obtain u where u: "m = CHR ''<'' # u" "CHR ''<'' \<notin> set u" using marker_shape [OF m] .
  from e have eh: "e < length h" and he: "h ! e = CHR ''<''"
    by (cases "e < length h"; auto simp: prefix_def dest: arg_cong [of _ _ "\<lambda>l. l ! 0"])+
  from p obtain zs where zs: "drop j (h @ rest) = m @ zs" by (auto simp: prefix_def)
  have "j + length m \<le> e"
  proof (rule ccontr)
    assume "\<not> ?thesis"
    then have "e - j < length m" using j by simp
    then have "m ! (e - j) = (m @ zs) ! (e - j)" by (simp add: nth_append)
    also have "\<dots> = (h @ rest) ! e" using zs [symmetric] j eh diff_less_mono [OF eh, of j] by (simp add: nth_append)
    finally have "m ! (e - j) = (h @ rest) ! e" .
    moreover have "e - j = Suc (e - j - 1)" using j by simp
    ultimately have "u ! (e - j - 1) = CHR ''<''" using u he eh
      by (metis nth_Cons_Suc nth_append)
    moreover have "e - j - 1 < length u" using \<open>e - j < length m\<close> u j by simp
    ultimately show False using u by (metis nth_mem)
  qed
  then have "length m \<le> length (drop j h)" using eh by simp
  moreover have "drop j h @ rest = m @ zs" using zs j eh by simp
  ultimately show ?thesis
    by (metis append_eq_append_conv_if append_eq_conv_conj append_take_drop_id prefix_def)
qed

text \<open>Before the least found position no marker of the channel starts, whatever follows.\<close>

lemma no_hit_before:
  assumes "\<And>m. m \<in> set (markers c) \<Longrightarrow> \<forall>j<e. \<not> prefix m (drop j h)"
    and "m0 \<in> set (markers c)" and "prefix m0 (drop e h)" and "j < e"
  shows "marker_hit c (drop j (h @ rest)) = None"
  using assms marker_shape [OF assms(2)] no_straddle
  unfolding marker_hit_None_iff by metis

lemma npos_min_least:
  assumes "npos_min p q = Some i"
  shows "(\<forall>j. p = Some j \<longrightarrow> i \<le> j) \<and> (\<forall>j. q = Some j \<longrightarrow> i \<le> j)"
  using assms by (cases p; cases q) auto

lemma find_sub_no_earlier:
  assumes "\<And>k. find_sub m h = Some k \<Longrightarrow> e \<le> k" and "m \<noteq> []"
  shows "\<forall>j<e. \<not> prefix m (drop j h)"
  using assms find_sub_None [of m h] find_sub_least [of m h]
  by (cases "find_sub m h") (auto dest: less_le_trans)

lemma marker_neq:
  "T_OPEN \<noteq> C_OPEN" "T_OPEN \<noteq> C_CLOSE" "C_OPEN \<noteq> C_CLOSE" "T_CLOSE \<noteq> T_OPEN" "T_CLOSE \<noteq> C_OPEN"
  by (simp_all add: marker_defs)

lemma marker_hit_marker:
  assumes "prefix m s" "m \<in> set (markers c)"
  shows "marker_hit c s =
           Some (if m = T_OPEN then THINK else if m = C_OPEN then TOOL else TEXT, length m)"
proof -
  have "\<not> prefix n m \<and> \<not> prefix m n" if "n \<in> set (markers c)" "n \<noteq> m" for n
    using that assms(2) by (cases c) (auto simp: markers_def marker_defs)
  then have "\<not> prefix n s" if "n \<in> set (markers c)" "n \<noteq> m" for n
    using prefix_same_cases [OF assms(1), of n] that by blast
  then show ?thesis using assms
    by (cases c; simp add: markers_def; metis marker_neq)
qed

text \<open>What a search of the held text says about the text that follows it.\<close>

lemma found_hits:
  assumes m0: "m0 \<in> set (markers c)" and e: "find_sub m0 h = Some e"
    and least: "\<And>m k. m \<in> set (markers c) \<Longrightarrow> find_sub m h = Some k \<Longrightarrow> e \<le> k"
  shows "(\<forall>j<e. marker_hit c (drop j (h @ rest)) = None) \<and>
    marker_hit c (drop e (h @ rest)) =
      Some (if m0 = T_OPEN then THINK else if m0 = C_OPEN then TOOL else TEXT, length m0) \<and>
    e + length m0 \<le> length h \<and> m0 \<noteq> []"
proof -
  have pre: "prefix m0 (drop e h)" and le: "e + length m0 \<le> length h"
    using e find_sub_prefix find_sub_bound by auto
  have nonempty: "m \<noteq> []" if "m \<in> set (markers c)" for m
    using marker_shape [OF that] by (metis list.distinct(1))
  have "marker_hit c (drop j (h @ rest)) = None" if "j < e" for j
    using no_hit_before [OF _ m0 pre that] find_sub_no_earlier least nonempty by metis
  moreover have "prefix m0 (drop e (h @ rest))" using pre le by (simp add: prefix_def) auto
  ultimately show ?thesis using marker_hit_marker [OF _ m0] nonempty [OF m0] le by blast
qed

lemma held_hits:
  assumes "\<And>m. m \<in> set (markers c) \<Longrightarrow> find_sub m h = None"
    and "\<And>m. m \<in> set (markers c) \<Longrightarrow> tail_keep h m \<le> keep" and "j < length h - keep"
  shows "marker_hit c (drop j (h @ rest)) = None"
proof -
  have "\<not> prefix m (drop j (h @ rest))" if "m \<in> set (markers c)" for m
    using overlap_loop_safe [OF refl assms(1) [OF that], of j rest] assms(2) [OF that] assms(3)
    by (auto simp: tail_keep_def)
  then show ?thesis using marker_hit_None_iff by blast
qed

lemma route_found:
  assumes m0: "m0 \<in> set (markers c)" and e: "find_sub m0 h = Some e"
    and least: "\<And>m k. m \<in> set (markers c) \<Longrightarrow> find_sub m h = Some k \<Longrightarrow> e \<le> k"
  shows "route c (h @ rest) = map (Pair c) (take e h) @
           route (if m0 = T_OPEN then THINK else if m0 = C_OPEN then TOOL else TEXT)
             (drop (e + length m0) h @ rest)"
proof -
  have hits: "(\<forall>j<e. marker_hit c (drop j (h @ rest)) = None) \<and>
      marker_hit c (drop e (h @ rest)) =
        Some (if m0 = T_OPEN then THINK else if m0 = C_OPEN then TOOL else TEXT, length m0) \<and>
      e + length m0 \<le> length h \<and> m0 \<noteq> []"
    using m0 e least by (rule found_hits)
  then have le: "e + length m0 \<le> length h" "0 < length m0" by blast+
  then have "e < length (h @ rest)" unfolding length_append by linarith
  then have ne: "drop e (h @ rest) \<noteq> []" by (metis drop_eq_Nil not_le)
  have "route c (h @ rest) = map (Pair c) (take e (h @ rest)) @ route c (drop e (h @ rest))"
    using hits le(1) by (intro route_skip) auto
  also have "route c (drop e (h @ rest)) =
      route (if m0 = T_OPEN then THINK else if m0 = C_OPEN then TOOL else TEXT)
        (drop (length m0) (drop e (h @ rest)))"
    using hits ne by (intro route_hit) auto
  finally show ?thesis using le(1) by (simp add: add.commute)
qed

lemma route_held:
  assumes absent: "\<And>m. m \<in> set (markers c) \<Longrightarrow> find_sub m h = None"
    and keep: "\<And>m. m \<in> set (markers c) \<Longrightarrow> tail_keep h m \<le> keep" and le: "keep \<le> length h"
  shows "route c (h @ rest) =
           map (Pair c) (take (length h - keep) h) @ route c (drop (length h - keep) h @ rest)"
  using route_skip [of "length h - keep" "h @ rest" c] held_hits [OF absent keep] le by simp

lemma tail_keep_le: "tail_keep h m \<le> length h"
  using overlap_loop_le [of "min (length h) (length m - 1)" h m] by (simp add: tail_keep_def)

lemma emit_head_route:
  assumes "\<And>m. m \<in> set (markers (chan st)) \<Longrightarrow> find_sub m (hold st) = None"
    and "\<And>m. m \<in> set (markers (chan st)) \<Longrightarrow> tail_keep (hold st) m \<le> keep"
    and "keep \<le> length (hold st)"
    and "emit_head st keep = (st', out, b)"
  shows "route (chan st) (hold st @ rest) = seg_tags out @ route (chan st') (hold st' @ rest)"
  using route_held [OF assms(1-3), where rest = rest] assms(4)
  by (auto simp: emit_head_def split: if_splits)

lemma feed_iter_route:
  assumes "feed_iter st = (b, st', out)"
  shows "route (chan st) (hold st @ rest) = seg_tags out @ route (chan st') (hold st' @ rest)"
proof (cases "chan st = TEXT")
  case True
  let ?h = "hold st"
  let ?e = "npos_min (find_sub T_OPEN ?h) (npos_min (find_sub C_OPEN ?h) (find_sub C_CLOSE ?h))"
  show ?thesis
  proof (cases ?e)
    case None
    let ?k = "max (max (tail_keep ?h T_OPEN) (tail_keep ?h C_OPEN)) (tail_keep ?h C_CLOSE)"
    obtain st0 out0 b0 where eh: "emit_head st ?k = (st0, out0, b0)" by (cases "emit_head st ?k")
    have "route (chan st) (?h @ rest) = seg_tags out0 @ route (chan st0) (hold st0 @ rest)"
      using None True eh by (intro emit_head_route) (auto simp: markers_def tail_keep_le)
    then show ?thesis
      using assms True None eh by (auto simp: feed_iter_def Let_def split: if_splits)
  next
    case (Some e)
    have least: "\<And>m k. m \<in> set (markers TEXT) \<Longrightarrow> find_sub m ?h = Some k \<Longrightarrow> e \<le> k"
      using npos_min_least [OF Some] npos_min_least
      by (cases "npos_min (find_sub C_OPEN ?h) (find_sub C_CLOSE ?h)")
        (fastforce simp: markers_def)+
    have in_markers: "T_OPEN \<in> set (markers TEXT)" "C_OPEN \<in> set (markers TEXT)"
      "C_CLOSE \<in> set (markers TEXT)" by (simp_all add: markers_def)
    have found: "route TEXT (?h @ rest) = map (Pair TEXT) (take e ?h) @
        route (if m0 = T_OPEN then THINK else if m0 = C_OPEN then TOOL else TEXT)
          (drop (e + length m0) ?h @ rest)"
      if "m0 \<in> set (markers TEXT)" "find_sub m0 ?h = Some e" for m0
      using that least by (rule route_found)
    consider "find_sub T_OPEN ?h = Some e"
      | "find_sub T_OPEN ?h \<noteq> Some e" "find_sub C_OPEN ?h = Some e"
      | "find_sub T_OPEN ?h \<noteq> Some e" "find_sub C_OPEN ?h \<noteq> Some e" "find_sub C_CLOSE ?h = Some e"
      using npos_min_SomeD [OF Some] npos_min_SomeD by blast
    then show ?thesis
    proof cases
      case 1
      with found [OF in_markers(1)] show ?thesis using assms True Some by (auto simp: feed_iter_def Let_def)
    next
      case 2
      with found [OF in_markers(2)] show ?thesis using assms True Some marker_neq
        by (auto simp: feed_iter_def Let_def)
    next
      case 3
      with found [OF in_markers(3)] show ?thesis using assms True Some marker_neq
        by (auto simp: feed_iter_def Let_def)
    qed
  qed
next
  case False
  let ?h = "hold st"
  define m where "m = (if chan st = THINK then T_CLOSE else C_CLOSE)"
  have m: "set (markers (chan st)) = {m}"
    using False by (cases "chan st") (auto simp: markers_def m_def)
  have m_neq: "m \<noteq> T_OPEN" "m \<noteq> C_OPEN" using marker_neq by (auto simp: m_def)
  show ?thesis
  proof (cases "find_sub m ?h")
    case None
    obtain st0 out0 b0 where eh: "emit_head st (tail_keep ?h m) = (st0, out0, b0)"
      by (cases "emit_head st (tail_keep ?h m)")
    have "route (chan st) (?h @ rest) = seg_tags out0 @ route (chan st0) (hold st0 @ rest)"
      using None eh m by (intro emit_head_route) (auto simp: tail_keep_le)
    then show ?thesis
      using assms False None eh by (simp add: feed_iter_def Let_def flip: m_def)
  next
    case (Some e)
    have "route (chan st) (?h @ rest) =
        map (Pair (chan st)) (take e ?h) @ route TEXT (drop (e + length m) ?h @ rest)"
      using route_found [of m "chan st" ?h e rest] Some m m_neq by simp
    moreover have "st' = st\<lparr>hold := drop (e + length m) ?h, tool_boundary := (chan st = TOOL),
        chan := TEXT\<rparr>" "out = push_text e ?h (chan st)"
      using assms False Some by (simp_all add: feed_iter_def Let_def flip: m_def)
    ultimately show ?thesis by simp
  qed
qed

lemma feed_loop_route:
  "feed_loop st out = (st', out') \<Longrightarrow>
     seg_tags out' @ route (chan st') (hold st' @ rest) =
     seg_tags out @ route (chan st) (hold st @ rest)"
proof (induction st out arbitrary: st' out' rule: feed_loop.induct)
  case (1 st out)
  obtain b st1 o1 where it: "feed_iter st = (b, st1, o1)" by (cases "feed_iter st")
  note step = feed_iter_route [OF it, of rest]
  show ?case
  proof (cases b)
    case True
    with 1 it step show ?thesis by (simp add: feed_loop.simps [of st out])
  next
    case False
    with 1 it step show ?thesis by (auto simp: feed_loop.simps [of st out])
  qed
qed

lemma split_feed_route:
  "split_feed st piece = (st', out) \<Longrightarrow>
     route (chan st) (hold st @ piece @ rest) = seg_tags out @ route (chan st') (hold st' @ rest)"
  using feed_loop_route [of "st\<lparr>hold := hold st @ piece\<rparr>" "[]" st' out rest]
  by (simp add: split_feed_def)

text \<open>What is still held after a feed holds no complete marker, so a flush may emit it as it is.\<close>

definition settled :: "splitter \<Rightarrow> bool" where
  "settled st \<longleftrightarrow> list_all (\<lambda>m. find_sub m (hold st) = None) (markers (chan st))"

lemma settled_route: "settled st \<Longrightarrow> route (chan st) (hold st) = map (Pair (chan st)) (hold st)"
proof -
  assume "settled st"
  then have "marker_hit (chan st) (drop j (hold st)) = None" if "j < length (hold st)" for j
    using that find_sub_None [of _ "hold st" j]
    by (auto simp: marker_hit_None_iff settled_def list_all_iff)
  from route_skip [OF order.refl this] show ?thesis by simp
qed

lemma find_sub_None_drop: "find_sub m h = None \<Longrightarrow> find_sub m (drop n h) = None"
  by (metis find_sub_None_iff sublist_drop sublist_order.order_trans)

lemma emit_head_settled:
  assumes "list_all (\<lambda>m. find_sub m (hold st) = None) (markers (chan st))"
    and "emit_head st k = (st', out, b)"
  shows "settled st'"
  using assms by (auto simp: emit_head_def settled_def list_all_iff find_sub_None_drop split: if_splits)

lemma settled_boundary [simp]: "settled (st\<lparr>tool_boundary := b\<rparr>) = settled st"
  by (simp add: settled_def)

lemma feed_iter_settled: "feed_iter st = (False, st', out) \<Longrightarrow> settled st'"
  by (cases "chan st")
    (auto simp: feed_iter_def Let_def markers_def split: option.splits prod.splits if_splits
      dest!: emit_head_settled [rotated])

lemma feed_loop_settled: "feed_loop st out = (st', out') \<Longrightarrow> settled st'"
proof (induction st out arbitrary: st' out' rule: feed_loop.induct)
  case (1 st out)
  then show ?case
    by (cases "feed_iter st")
      (auto simp: feed_loop.simps [of st out] split: if_splits intro: feed_iter_settled)
qed

lemma split_feed_settled: "split_feed st piece = (st', out) \<Longrightarrow> settled st'"
  unfolding split_feed_def by (rule feed_loop_settled)

lemma split_flush_tags: "seg_tags (snd (split_flush st)) = map (Pair (chan st)) (hold st)"
  by (simp add: split_flush_def)

lemma split_stream_route:
  "settled st \<Longrightarrow> seg_tags (split_stream st ps) = route (chan st) (hold st @ concat ps)"
proof (induction ps arbitrary: st)
  case Nil
  then show ?case by (simp add: split_flush_tags settled_route)
next
  case (Cons p ps)
  obtain st' out where f: "split_feed st p = (st', out)" by (cases "split_feed st p")
  from split_feed_route [OF f, of "concat ps"] Cons.IH [OF split_feed_settled [OF f]] f
  show ?case by simp
qed

section \<open>Properties\<close>

text \<open>
  C1: routing does not depend on how the decoded text is cut into pieces.  Feeding any list of
  pieces and flushing delivers, in order, exactly the bytes of the whole text that are not part
  of a marker, each on the channel the reference routing assigns to it.
\<close>

theorem split_stream_chunk_invariant:
  "seg_tags (split_stream splitter_init ps) = route TEXT (concat ps)"
  using split_stream_route [of splitter_init ps]
  by (simp add: splitter_init_def settled_def markers_def marker_defs)

text \<open>
  Adjacent calls are separated by the empty \<open>TEXT\<close> boundary segment, but an empty think
  block between two calls loses it: the two bodies reach the consumer as consecutive \<open>TOOL\<close>
  segments.
\<close>

theorem empty_think_loses_boundary:
  "split_stream splitter_init [''<tool_call>A</tool_call><tool_call>B</tool_call>''] =
     [(TOOL, ''A''), (TEXT, ''''), (TOOL, ''B'')] \<and>
   split_stream splitter_init [''<tool_call>A</tool_call><think></think><tool_call>B</tool_call>''] =
     [(TOOL, ''A''), (TOOL, ''B'')]"
  by code_simp

end
