(* ===== verification/Stop_Buffer.thy ===== *)
theory Stop_Buffer
  imports Q27_Prelude
begin

text \<open>
  The stop-sequence holdback of the Metal server, \<^verbatim>\<open>struct StopBuffer\<close> of
  \<^verbatim>\<open>src/src/metal/stream_format.h\<close>.  A stop sequence may arrive split over several pieces, so a
  tail of the pending text that is a proper prefix of a stop sequence is not emitted yet.  The
  results: text is emitted unchanged when no stop sequence occurs in it, generation stops exactly
  when one occurs, and then the emitted text ends right before the matched sequence and holds no
  stop sequence.
\<close>

section \<open>The buffer\<close>

record stopbuf =
  stops :: "string list"
  sb_pend :: string
  matched :: int

text \<open>The constructor drops empty stop strings.\<close>

definition stopbuf_init :: "string list \<Rightarrow> stopbuf" where
  "stopbuf_init seqs = \<lparr>stops = filter (\<lambda>s. s \<noteq> []) seqs, sb_pend = [], matched = -1\<rparr>"

definition stop_active :: "stopbuf \<Rightarrow> bool" where
  "stop_active sb \<longleftrightarrow> stops sb \<noteq> []"

text \<open>
  The search for the earliest full match: \<open>i\<close> is the index of the first of the remaining stop
  strings, \<open>best\<close> the pair (\<^verbatim>\<open>best_pos\<close>, \<^verbatim>\<open>best_idx\<close>) found so far.  A later string replaces it
  only at a strictly smaller position.
\<close>

fun best_stop :: "nat \<Rightarrow> string list \<Rightarrow> string \<Rightarrow> (nat \<times> nat) option \<Rightarrow> (nat \<times> nat) option" where
  "best_stop i [] pend best = best"
| "best_stop i (s # ss) pend best =
     (let best' = (case find_sub s pend of
                     None \<Rightarrow> best
                   | Some p \<Rightarrow> (case best of
                                 None \<Rightarrow> Some (p, i)
                               | Some (bp, bi) \<Rightarrow> if p < bp then Some (p, i) else best))
      in best_stop (Suc i) ss pend best')"

definition stop_hold :: "string list \<Rightarrow> string \<Rightarrow> nat" where
  "stop_hold ss pend =
     fold (\<lambda>s hold. max hold (overlap_loop (min (length pend) (length s - 1)) pend s)) ss 0"

text \<open>\<open>feed\<close> returns the buffer, the text to emit and the \<open>stopped\<close> flag.\<close>

definition stop_feed :: "stopbuf \<Rightarrow> string \<Rightarrow> stopbuf \<times> string \<times> bool" where
  "stop_feed sb piece =
     (if stops sb = [] then (sb, piece, False)
      else
        let pend = sb_pend sb @ piece
        in (case best_stop 0 (stops sb) pend None of
              Some (best_pos, best_idx) \<Rightarrow>
                (sb\<lparr>matched := int best_idx, sb_pend := []\<rparr>, take best_pos pend, True)
            | None \<Rightarrow>
                let emit_len = length pend - stop_hold (stops sb) pend
                in (sb\<lparr>sb_pend := drop emit_len pend\<rparr>, take emit_len pend, False)))"

definition stop_flush :: "stopbuf \<Rightarrow> stopbuf \<times> string" where
  "stop_flush sb = (sb\<lparr>sb_pend := []\<rparr>, sb_pend sb)"

text \<open>
  A stream: pieces are fed until a stop fires; at the end of the stream the held text is flushed.
  The result is the emitted text and the index of the stop string that ended it, if any.
\<close>

fun stop_stream :: "stopbuf \<Rightarrow> string list \<Rightarrow> string \<times> int option" where
  "stop_stream sb [] = (snd (stop_flush sb), None)"
| "stop_stream sb (p # ps) =
     (let (sb', out, stopped) = stop_feed sb p
      in if stopped then (out, Some (matched sb'))
         else let (rest, r) = stop_stream sb' ps in (out @ rest, r))"

section \<open>Specification of the search and of the holdback\<close>

lemma best_stop_None:
  "best_stop i ss pend best = None \<longleftrightarrow> best = None \<and> (\<forall>s\<in>set ss. find_sub s pend = None)"
  by (induction i ss pend best rule: best_stop.induct)
    (auto simp: Let_def split: option.splits if_splits)

lemma best_stop_Some:
  assumes "best_stop i ss pend best = Some (p, k)"
  shows "(best = Some (p, k) \<or> (i \<le> k \<and> k < i + length ss \<and> find_sub (ss ! (k - i)) pend = Some p)) \<and>
         (\<forall>s\<in>set ss. \<forall>q. find_sub s pend = Some q \<longrightarrow> p \<le> q) \<and>
         (\<forall>q j. best = Some (q, j) \<longrightarrow> p \<le> q)"
  using assms
proof (induction i ss pend best rule: best_stop.induct)
  case (2 i s ss pend best)
  define best' where "best' = (case find_sub s pend of
                     None \<Rightarrow> best
                   | Some p \<Rightarrow> (case best of
                                 None \<Rightarrow> Some (p, i)
                               | Some (bp, bi) \<Rightarrow> if p < bp then Some (p, i) else best))"
  have IH: "(best' = Some (p, k) \<or> (Suc i \<le> k \<and> k < Suc i + length ss \<and>
          find_sub (ss ! (k - Suc i)) pend = Some p)) \<and>
       (\<forall>s\<in>set ss. \<forall>q. find_sub s pend = Some q \<longrightarrow> p \<le> q) \<and>
       (\<forall>q j. best' = Some (q, j) \<longrightarrow> p \<le> q)"
    using 2 by (simp add: best'_def Let_def)
  have nth: "Suc i \<le> k \<Longrightarrow> (s # ss) ! (k - i) = ss ! (k - Suc i)"
    by (simp add: nth_Cons' Suc_le_eq)
  show ?case
    using IH nth unfolding best'_def
    by (fastforce split: option.splits if_splits)
qed auto

lemma fold_max_ge:
  fixes f :: "'s \<Rightarrow> nat"
  shows "h0 \<le> fold (\<lambda>s hold. max hold (f s)) ss h0 \<and>
         (\<forall>s\<in>set ss. f s \<le> fold (\<lambda>s hold. max hold (f s)) ss h0)"
proof (induction ss arbitrary: h0)
  case (Cons a ss)
  from Cons.IH [of "max h0 (f a)"] show ?case by auto
qed simp

lemma stop_hold_ge:
  "s \<in> set ss \<Longrightarrow> overlap_loop (min (length pend) (length s - 1)) pend s \<le> stop_hold ss pend"
  unfolding stop_hold_def
  using fold_max_ge [of 0 "\<lambda>s. overlap_loop (min (length pend) (length s - 1)) pend s" ss] by blast

text \<open>
  The invariant of a running stream: \<open>fed\<close> is everything fed so far, \<open>out\<close> everything emitted.
  No stop sequence has been completed, and none can ever start inside the emitted text.
\<close>

definition stop_inv :: "stopbuf \<Rightarrow> string \<Rightarrow> string \<Rightarrow> bool" where
  "stop_inv sb fed out \<longleftrightarrow>
     fed = out @ sb_pend sb \<and>
     (\<forall>s\<in>set (stops sb). s \<noteq> [] \<and> \<not> sublist s fed \<and>
        (\<forall>j rest. j < length out \<longrightarrow> \<not> prefix s (drop j (fed @ rest))))"

lemma stop_inv_no_start:
  assumes "stop_inv sb fed out" "s \<in> set (stops sb)"
    and "prefix s (drop j (fed @ rest))" "j \<le> length (fed @ rest)"
  shows "prefix s (drop (j - length out) (sb_pend sb @ rest)) \<and> length out \<le> j"
proof -
  have "\<not> j < length out" using assms unfolding stop_inv_def by blast
  then have "length out \<le> j" by simp
  with assms(1,3) show ?thesis by (simp add: stop_inv_def)
qed

lemma stop_feed_continue:
  assumes inv: "stop_inv sb fed out" and active: "stops sb \<noteq> []"
    and feed: "stop_feed sb piece = (sb', o', False)"
  shows "stop_inv sb' (fed @ piece) (out @ o') \<and> stops sb' = stops sb"
proof -
  define h where "h = sb_pend sb @ piece"
  let ?n = "length h - stop_hold (stops sb) h"
  from feed active have none: "best_stop 0 (stops sb) h None = None"
    and o': "o' = take ?n h" and sb': "sb' = sb\<lparr>sb_pend := drop ?n h\<rparr>"
    by (auto simp: stop_feed_def Let_def h_def split: option.splits)
  have absent: "find_sub s h = None" if "s \<in> set (stops sb)" for s
    using none that by (simp add: best_stop_None)
  have fed': "fed @ piece = out @ h" using inv by (simp add: stop_inv_def h_def)
  have "\<not> prefix s (drop j (fed @ piece @ rest))"
    if s: "s \<in> set (stops sb)" and j: "j < length (out @ o')" for s j rest
  proof
    assume p: "prefix s (drop j (fed @ piece @ rest))"
    have len: "j \<le> length (fed @ piece @ rest)"
      using j arg_cong [OF fed', of length] o' by simp
    from stop_inv_no_start [OF inv s p len]
    have "prefix s (drop (j - length out) (h @ rest))" "length out \<le> j"
      by (simp_all add: h_def)
    moreover have "j - length out < length h - stop_hold (stops sb) h"
      using j o' \<open>length out \<le> j\<close> by (simp split: nat_diff_split)
    then have "j - length out <
        length h - overlap_loop (min (length h) (length s - 1)) h s"
      using stop_hold_ge [OF s, of h] by simp
    ultimately show False using overlap_loop_safe [OF refl absent [OF s]] by blast
  qed
  moreover have "\<not> sublist s (fed @ piece)" if s: "s \<in> set (stops sb)" for s
  proof
    assume "sublist s (fed @ piece)"
    then obtain j where "prefix s (drop j (fed @ piece))" "j \<le> length (fed @ piece)"
      by (auto simp: sublist_iff_drop)
    from stop_inv_no_start [OF inv s this] have "sublist s h" unfolding h_def
      by (meson prefix_imp_sublist sublist_drop sublist_order.order_trans)
    with absent [OF s] show False by (simp add: find_sub_None_iff)
  qed
  ultimately show ?thesis
    using inv fed' o' sb' by (auto simp: stop_inv_def)
qed

lemma stop_feed_stopped:
  assumes inv: "stop_inv sb fed out"
    and feed: "stop_feed sb piece = (sb', o', True)"
  shows "\<exists>k rest. matched sb' = int k \<and> k < length (stops sb) \<and>
           fed @ piece = (out @ o') @ stops sb ! k @ rest \<and>
           (\<forall>s\<in>set (stops sb). \<not> sublist s (out @ o'))"
proof -
  define h where "h = sb_pend sb @ piece"
  from feed obtain p k where best: "best_stop 0 (stops sb) h None = Some (p, k)"
    and o': "o' = take p h" and k: "matched sb' = int k"
    by (auto simp: stop_feed_def Let_def h_def split: option.splits if_splits)
  from best_stop_Some [OF best] have k_lt: "k < length (stops sb)"
    and hit: "find_sub (stops sb ! k) h = Some p"
    and least: "\<And>s q. s \<in> set (stops sb) \<Longrightarrow> find_sub s h = Some q \<Longrightarrow> p \<le> q"
    by auto
  have fed': "fed @ piece = out @ h" using inv by (simp add: stop_inv_def h_def)
  obtain rest where rest: "h = take p h @ stops sb ! k @ rest"
    using find_sub_decomp [OF hit] by blast
  have "\<not> sublist s (out @ o')" if s: "s \<in> set (stops sb)" for s
  proof
    assume "sublist s (out @ o')"
    then obtain j where p1: "prefix s (drop j (out @ o'))" and j: "j \<le> length (out @ o')"
      by (auto simp: sublist_iff_drop)
    have nonempty: "s \<noteq> []" using inv s by (auto simp: stop_inv_def)
    have pl: "p \<le> length h" using find_sub_bound [OF hit] by simp
    have "h = o' @ drop p h" unfolding o' by (rule append_take_drop_id [symmetric])
    then have "fed @ piece = (out @ o') @ drop p h" using fed' by (metis append.assoc)
    then have "prefix s (drop j (fed @ piece))"
      using prefix_drop_append [OF p1 j, of "drop p h"] by metis
    moreover have "j \<le> length (fed @ piece)"
      using j \<open>fed @ piece = (out @ o') @ drop p h\<close> by simp
    ultimately have at: "prefix s (drop (j - length out) h)" "length out \<le> j"
      using stop_inv_no_start [OF inv s] by (simp_all add: h_def)
    have "j - length out < p"
      using prefix_length_le [OF p1] nonempty at(2) o' pl by (cases s) auto
    moreover have "p \<le> j - length out"
      using find_sub_le [OF at(1)] least [OF s] calculation pl by (auto intro: order_trans)
    ultimately show False by simp
  qed
  then show ?thesis using k k_lt rest fed' o' by (metis append.assoc)
qed

lemma stop_stream_spec:
  assumes "stop_inv sb fed out" "stops sb \<noteq> []"
  shows "case stop_stream sb ps of
           (text, None) \<Rightarrow> out @ text = fed @ concat ps \<and>
              (\<forall>s\<in>set (stops sb). \<not> sublist s (fed @ concat ps))
         | (text, Some m) \<Rightarrow> (\<exists>k rest. m = int k \<and> k < length (stops sb) \<and>
              fed @ concat ps = (out @ text) @ stops sb ! k @ rest \<and>
              (\<forall>s\<in>set (stops sb). \<not> sublist s (out @ text)))"
  using assms
proof (induction ps arbitrary: sb fed out)
  case Nil
  then show ?case by (auto simp: stop_flush_def stop_inv_def)
next
  case (Cons p ps)
  obtain sb' o' b where f: "stop_feed sb p = (sb', o', b)" by (cases "stop_feed sb p")
  show ?case
  proof (cases b)
    case True
    with f have "stop_feed sb p = (sb', o', True)" by simp
    from stop_feed_stopped [OF Cons.prems(1) this] obtain k rest where
      "matched sb' = int k" "k < length (stops sb)"
      "fed @ p = (out @ o') @ stops sb ! k @ rest"
      "\<forall>s\<in>set (stops sb). \<not> sublist s (out @ o')" by blast
    with f True show ?thesis
      by (auto intro!: exI [of _ k] simp flip: append_assoc) (simp add: append_assoc)
  next
    case False
    with f stop_feed_continue [OF Cons.prems]
    have "stop_inv sb' (fed @ p) (out @ o')" and s: "stops sb' = stops sb" by auto
    with Cons.IH [of sb' "fed @ p" "out @ o'"] Cons.prems(2) f False show ?thesis
      by (auto split: prod.splits option.splits)
  qed
qed

lemma stop_inv_init: "stop_inv (stopbuf_init seqs) [] []"
  by (auto simp: stop_inv_def stopbuf_init_def)

lemma stop_stream_inactive:
  "stops sb = [] \<Longrightarrow> stop_stream sb ps = (concat ps @ sb_pend sb, None)"
  by (induction ps) (auto simp: stop_flush_def stop_feed_def)

section \<open>Properties\<close>

text \<open>
  A stream is cut by the stop buffer exactly when a (non-empty) stop sequence occurs in it,
  however the text is split into pieces; otherwise every byte is delivered unchanged.
\<close>

theorem stop_stream_transparent:
  "(snd (stop_stream (stopbuf_init seqs) ps) = None \<longleftrightarrow>
      \<not> list_ex (\<lambda>s. s \<noteq> [] \<and> sublist s (concat ps)) seqs) \<and>
   (\<exists>rest. concat ps = fst (stop_stream (stopbuf_init seqs) ps) @ rest \<and>
      (snd (stop_stream (stopbuf_init seqs) ps) = None) = (rest = []))"
proof (cases "stops (stopbuf_init seqs) = []")
  case True
  then have "list_all (\<lambda>s. s = []) seqs"
    by (simp add: stopbuf_init_def list_all_iff filter_empty_conv)
  then show ?thesis
    using stop_stream_inactive [OF True] by (auto simp: stopbuf_init_def list_all_iff list_ex_iff)
next
  case False
  have nonempty: "set (stops (stopbuf_init seqs)) = {s \<in> set seqs. s \<noteq> []}"
    by (auto simp: stopbuf_init_def)
  obtain em r where res: "stop_stream (stopbuf_init seqs) ps = (em, r)" by fastforce
  note spec = stop_stream_spec [OF stop_inv_init False, of ps, unfolded res]
  show ?thesis
  proof (cases r)
    case None
    with spec res nonempty show ?thesis by (auto simp: list_ex_iff)
  next
    case (Some m)
    with spec obtain k rest where k: "k < length (stops (stopbuf_init seqs))"
      and eq: "concat ps = em @ stops (stopbuf_init seqs) ! k @ rest" by auto
    let ?s = "stops (stopbuf_init seqs) ! k"
    have s: "?s \<in> set seqs" "?s \<noteq> []" using nth_mem [OF k] nonempty by auto
    moreover have "sublist ?s (concat ps)" unfolding eq by simp
    ultimately have "list_ex (\<lambda>s. s \<noteq> [] \<and> sublist s (concat ps)) seqs"
      by (auto simp: list_ex_iff)
    with Some eq res s(2) show ?thesis by auto
  qed
qed



end
