(* ===== verification/Utf8_Gate.thy ===== *)
theory Utf8_Gate
  imports Q27_Prelude
begin

unbundle bit_operations_syntax

text \<open>
  The incremental UTF-8 boundary gate, \<^verbatim>\<open>struct Utf8Gate\<close> of \<^verbatim>\<open>src/src/api_common.h\<close>.  A byte
  is the natural number of a \<^typ>\<open>char\<close>; \<open>seq_len\<close> is the bit-mask classification of the source.
  The main result: when the token pieces of a stream concatenate to well-formed UTF-8, every text
  the gate emits is well-formed by itself, nothing is lost or reordered, at most three bytes are
  ever held, and the final flush adds no replacement character.
\<close>

section \<open>The gate\<close>

abbreviation byte :: "char \<Rightarrow> nat" where
  "byte c \<equiv> of_char c"

definition seq_len :: "nat \<Rightarrow> int" where
  "seq_len b =
     (if b < 0x80 then 1
      else if b AND 0xE0 = 0xC0 then 2
      else if b AND 0xF0 = 0xE0 then 3
      else if b AND 0xF8 = 0xF0 then 4
      else -1)"

text \<open>
  The backward scan of \<open>feed\<close>: \<open>i\<close> starts at the size of the buffer and stops at the last byte
  that is not a continuation byte, after at most four steps.
\<close>

primrec scan_back :: "string \<Rightarrow> nat \<Rightarrow> nat \<Rightarrow> nat" where
  "scan_back pend 0 bk = 0"
| "scan_back pend (Suc i) bk =
     (if bk < 4 then
        (if byte (pend ! i) AND 0xC0 \<noteq> 0x80 then i else scan_back pend i (Suc bk))
      else Suc i)"

definition gate_cut :: "string \<Rightarrow> nat" where
  "gate_cut pend =
     (let n = length pend; i = scan_back pend n 0
      in if i < n then
           let L = seq_len (byte (pend ! i))
           in if L > 0 \<and> i + nat L > n then i else n
         else n)"

text \<open>The gate's state is its \<open>pend\<close> buffer; both operations return the new buffer and the output.\<close>

definition gate_feed :: "string \<Rightarrow> string \<Rightarrow> string \<times> string" where
  "gate_feed pend piece =
     (let p = pend @ piece; cut = gate_cut p in (drop cut p, take cut p))"

definition REPLACEMENT :: string where
  "REPLACEMENT = [CHR 0xEF, CHR 0xBF, CHR 0xBD]"

definition gate_flush :: "string \<Rightarrow> string \<times> string" where
  "gate_flush pend = ([], if pend = [] then [] else REPLACEMENT)"

text \<open>A stream: the list of emitted texts and the text of the final flush.\<close>

fun gate_stream :: "string \<Rightarrow> string list \<Rightarrow> string list \<times> string" where
  "gate_stream pend [] = ([], snd (gate_flush pend))"
| "gate_stream pend (p # ps) =
     (let (pend', out) = gate_feed pend p; (outs, fin) = gate_stream pend' ps
      in (out # outs, fin))"

section \<open>Well-formed UTF-8 texts\<close>

definition is_cont :: "char \<Rightarrow> bool" where
  "is_cont c \<longleftrightarrow> byte c AND 0xC0 = 0x80"

text \<open>One encoded character: a lead byte and the continuation bytes its length asks for.\<close>

definition utf8_char :: "string \<Rightarrow> bool" where
  "utf8_char w \<longleftrightarrow> w \<noteq> [] \<and> seq_len (byte (hd w)) = int (length w) \<and> list_all is_cont (tl w)"

inductive utf8_text :: "string \<Rightarrow> bool" where
  utf8_Nil: "utf8_text []"
| utf8_step: "utf8_char w \<Longrightarrow> utf8_text s \<Longrightarrow> utf8_text (w @ s)"

text \<open>A proper prefix of one encoded character, the only thing the gate may hold.\<close>

definition utf8_partial :: "string \<Rightarrow> bool" where
  "utf8_partial w \<longleftrightarrow>
     w = [] \<or> (seq_len (byte (hd w)) > int (length w) \<and> list_all is_cont (tl w))"

section \<open>Correctness of the cut\<close>

lemma seq_len_le4: "seq_len b \<le> 4"
  by (simp add: seq_len_def)

text \<open>A lead byte is never a continuation byte: each lead mask fixes the two top bits.\<close>

lemma and_nat_le_left: "(a :: nat) AND b \<le> a"
proof -
  have "int (a AND b) \<le> int a"
    unfolding of_nat_and_eq by (rule AND_upper1) simp
  then show ?thesis by simp
qed

lemma mask_weaken: "(b :: nat) AND m = v \<Longrightarrow> m AND 0xC0 = 0xC0 \<Longrightarrow> b AND 0xC0 = v AND 0xC0"
  by (metis and.assoc)

lemma lead_not_cont: "seq_len (byte c) > 0 \<Longrightarrow> \<not> is_cont c"
proof
  assume pos: "seq_len (byte c) > 0" and cont: "is_cont c"
  let ?b = "byte c"
  have "0x80 \<le> ?b"
    using cont and_nat_le_left [of ?b "0xC0"] by (simp add: is_cont_def)
  with pos have "?b AND 0xE0 = 0xC0 \<or> ?b AND 0xF0 = 0xE0 \<or> ?b AND 0xF8 = 0xF0"
    by (auto simp: seq_len_def split: if_splits)
  with cont show False
    using mask_weaken [of ?b "0xE0" "0xC0"] mask_weaken [of ?b "0xF0" "0xE0"]
      mask_weaken [of ?b "0xF8" "0xF0"]
    by (auto simp: is_cont_def)
qed

lemma scan_back_found:
  "list_all is_cont cs \<Longrightarrow> \<not> is_cont x \<Longrightarrow> bk + length cs < 4 \<Longrightarrow>
     scan_back (a @ x # cs @ t) (length a + 1 + length cs) bk = length a"
proof (induction cs arbitrary: bk t rule: rev_induct)
  case Nil
  then show ?case by (simp add: is_cont_def nth_append)
next
  case (snoc c cs)
  have "(a @ x # (cs @ [c]) @ t) ! (length a + 1 + length cs) = c"
    by (simp add: nth_append nth_Cons')
  with snoc.prems snoc.IH [of "Suc bk" "c # t"] show ?case
    by (simp add: is_cont_def)
qed

lemma gate_cut_char:
  assumes "list_all is_cont cs" "seq_len (byte x) > 0" "length cs < 4"
  shows "gate_cut (a @ x # cs) =
           (if seq_len (byte x) > int (length (x # cs)) then length a else length (a @ x # cs))"
proof -
  have "scan_back (a @ x # cs) (length (a @ x # cs)) 0 = length a"
    using scan_back_found [of cs x 0 a "[]"] assms lead_not_cont by simp
  then show ?thesis using assms(2) by (auto simp: gate_cut_def Let_def)
qed

lemma utf8_text_append: "utf8_text s \<Longrightarrow> utf8_text t \<Longrightarrow> utf8_text (s @ t)"
  by (induction rule: utf8_text.induct) (auto intro: utf8_text.intros)

lemma utf8_text_last:
  "utf8_text s \<Longrightarrow> s \<noteq> [] \<Longrightarrow> \<exists>a w. s = a @ w \<and> utf8_char w"
proof (induction rule: utf8_text.induct)
  case (utf8_step w s)
  show ?case
  proof (cases "s = []")
    case True
    with utf8_step.hyps(1) show ?thesis by (auto intro: exI [of _ "[]"])
  next
    case False
    with utf8_step.IH obtain a v where "s = a @ v" "utf8_char v" by blast
    then show ?thesis by (intro exI [of _ "w @ a"] exI [of _ v]) simp
  qed
qed simp

text \<open>The cut of a complete text followed by a partial character is the end of the complete text.\<close>

lemma gate_cut_partial:
  assumes s: "utf8_text s" and w: "utf8_partial w"
  shows "gate_cut (s @ w) = length s"
proof (cases w)
  case Nil
  show ?thesis
  proof (cases "s = []")
    case True
    with Nil show ?thesis by (simp add: gate_cut_def)
  next
    case False
    with s obtain a u where u: "s = a @ u" "utf8_char u" using utf8_text_last by blast
    then obtain x cs where x: "u = x # cs" "seq_len (byte x) = 1 + int (length cs)"
      "list_all is_cont cs" by (cases u) (auto simp: utf8_char_def)
    with u Nil gate_cut_char [of cs x a] seq_len_le4 [of "byte x"] show ?thesis by auto
  qed
next
  case (Cons x cs)
  with w have "seq_len (byte x) > 1 + int (length cs)" "list_all is_cont cs"
    by (auto simp: utf8_partial_def)
  with Cons gate_cut_char [of cs x s] seq_len_le4 [of "byte x"] show ?thesis by auto
qed

text \<open>Every prefix of a well-formed text is a well-formed text followed by a partial character.\<close>

lemma utf8_char_prefix:
  "utf8_char w \<Longrightarrow> w = p @ q \<Longrightarrow> q \<noteq> [] \<Longrightarrow> utf8_partial p"
  by (cases p) (auto simp: utf8_char_def utf8_partial_def)

lemma utf8_prefix_split:
  assumes "utf8_text t" "t = p @ q"
  shows "\<exists>s w. p = s @ w \<and> utf8_text s \<and> utf8_partial w"
  using assms
proof (induction arbitrary: p q rule: utf8_text.induct)
  case utf8_Nil
  then show ?case by (auto intro: utf8_text.intros simp: utf8_partial_def)
next
  case (utf8_step w t)
  show ?case
  proof (cases "length p < length w")
    case True
    with utf8_step.prems obtain q' where "w = p @ q'" "q' \<noteq> []"
      by (auto simp: append_eq_append_conv2)
    with utf8_step.hyps(1) have "utf8_partial p" by (rule utf8_char_prefix)
    then show ?thesis by (auto intro: utf8_text.intros)
  next
    case False
    with utf8_step.prems obtain p' where p': "p = w @ p'" "t = p' @ q"
      by (auto simp: append_eq_append_conv2)
    with utf8_step.IH obtain s v where "p' = s @ v" "utf8_text s" "utf8_partial v" by blast
    with p' utf8_step.hyps(1) show ?thesis by (metis append.assoc utf8_text.utf8_step)
  qed
qed

text \<open>The remainder after a complete text is again well-formed.\<close>

lemma utf8_char_unique:
  assumes "utf8_char u" "utf8_char v" "u @ s = v @ t"
  shows "u = v"
proof -
  obtain x cs y ds where "u = x # cs" "v = y # ds" using assms by (cases u; cases v) (auto simp: utf8_char_def)
  with assms have "length u = length v" by (auto simp: utf8_char_def)
  with assms(3) show ?thesis by simp
qed

lemma utf8_text_cancel: "utf8_text s \<Longrightarrow> utf8_text (s @ t) \<Longrightarrow> utf8_text t"
proof (induction arbitrary: t rule: utf8_text.induct)
  case (utf8_step w s)
  from utf8_step.prems obtain v r where vr: "w @ s @ t = v @ r" "utf8_char v" "utf8_text r"
    using utf8_step.hyps(1)
    by (cases rule: utf8_text.cases) (auto simp: utf8_char_def)
  with utf8_char_unique [OF utf8_step.hyps(1)] have "w = v" by blast
  with vr have "utf8_text (s @ t)" by simp
  then show ?case by (rule utf8_step.IH)
qed simp

lemma partial_not_text: "utf8_partial w \<Longrightarrow> utf8_text w \<Longrightarrow> w = []"
proof -
  assume p: "utf8_partial w" and t: "utf8_text w"
  show "w = []"
  proof (rule ccontr)
    assume "w \<noteq> []"
    with t obtain v r where v: "w = v @ r" "utf8_char v" by (cases rule: utf8_text.cases) auto
    with p \<open>w \<noteq> []\<close> show False by (cases v) (auto simp: utf8_char_def utf8_partial_def)
  qed
qed

section \<open>Streams\<close>

lemma gate_feed_lossless:
  "gate_feed pend p = (pend', out) \<Longrightarrow> out @ pend' = pend @ p"
  by (auto simp: gate_feed_def Let_def simp del: take_append drop_append)

lemma gate_cut_held: "length s - gate_cut s \<le> 3"
proof (cases "gate_cut s = length s")
  case False
  let ?i = "scan_back s (length s) 0"
  from False have "?i < length s" "gate_cut s = ?i" "?i + nat (seq_len (byte (s ! ?i))) > length s"
    by (auto simp: gate_cut_def Let_def split: if_splits)
  with seq_len_le4 [of "byte (s ! ?i)"] show ?thesis by linarith
qed simp

lemma gate_feed_text:
  assumes "utf8_text (pend @ p @ rest)" "gate_feed pend p = (pend', out)"
  shows "utf8_text out \<and> utf8_partial pend' \<and> utf8_text (pend' @ rest)"
proof -
  have "\<exists>s w. pend @ p = s @ w \<and> utf8_text s \<and> utf8_partial w"
    by (rule utf8_prefix_split [OF assms(1), of "pend @ p" rest]) simp
  then obtain s w where sw: "pend @ p = s @ w" "utf8_text s" "utf8_partial w" by blast
  then have cut: "gate_cut (pend @ p) = length s" using gate_cut_partial by simp
  then have "out = s" "pend' = w"
    using assms(2) unfolding gate_feed_def Let_def cut sw(1) by simp_all
  moreover have "utf8_text (w @ rest)"
    using utf8_text_cancel [OF sw(2), of "w @ rest"] assms(1)
    unfolding append_assoc [symmetric] sw(1) by blast
  ultimately show ?thesis using sw by simp
qed

lemma gate_stream_text:
  assumes "utf8_partial pend" "utf8_text (pend @ concat ps)"
  shows "list_all utf8_text (fst (gate_stream pend ps)) \<and>
         concat (fst (gate_stream pend ps)) = pend @ concat ps \<and> snd (gate_stream pend ps) = []"
  using assms
proof (induction ps arbitrary: pend)
  case Nil
  then show ?case using partial_not_text by (auto simp: gate_flush_def)
next
  case (Cons p ps)
  obtain pend' out where f: "gate_feed pend p = (pend', out)" by (cases "gate_feed pend p")
  from Cons.prems(2) have "utf8_text (pend @ p @ concat ps)" by simp
  from gate_feed_text [OF this f] Cons.IH [of pend'] gate_feed_lossless [OF f] f
  show ?case by (auto split: prod.splits simp flip: append_assoc)
qed

section \<open>Properties\<close>

text \<open>
  C15: for a stream of pieces that concatenates to well-formed UTF-8, whatever the piece
  boundaries, every text the gate emits is well-formed UTF-8, the emitted texts concatenate to
  the whole stream, and the flush emits nothing.
\<close>

theorem gate_stream_wellformed:
  assumes "utf8_text (concat ps)"
  shows "list_all utf8_text (fst (gate_stream [] ps)) \<and>
         concat (fst (gate_stream [] ps)) = concat ps \<and> snd (gate_stream [] ps) = []"
  using gate_stream_text [of "[]" ps] assms by (simp add: utf8_partial_def)

text \<open>The em dash E2 80 94 split over three pieces between two ASCII bytes.\<close>

theorem gate_stream_wellformed_witness:
  "utf8_text (concat [[CHR ''a'', CHR 0xE2], [CHR 0x80], [CHR 0x94, CHR ''b'']]) \<and>
   concat (fst (gate_stream [] [[CHR ''a'', CHR 0xE2], [CHR 0x80], [CHR 0x94, CHR ''b'']])) =
     [CHR ''a'', CHR 0xE2, CHR 0x80, CHR 0x94, CHR ''b'']"
proof -
  have c: "utf8_char [CHR ''a'']" "utf8_char [CHR 0xE2, CHR 0x80, CHR 0x94]" "utf8_char [CHR ''b'']"
    by (simp_all add: utf8_char_def seq_len_def is_cont_def)
  have "utf8_text ([CHR ''a''] @ [CHR 0xE2, CHR 0x80, CHR 0x94] @ [CHR ''b''] @ [])"
    by (intro utf8_text.intros c)
  then have t: "utf8_text (concat [[CHR ''a'', CHR 0xE2], [CHR 0x80], [CHR 0x94, CHR ''b'']])"
    by simp
  from gate_stream_wellformed [OF t] t show ?thesis by simp
qed

text \<open>
  For any bytes at all, the gate loses and reorders nothing (what was emitted followed by
  what is held is what was fed) and holds back at most three bytes.
\<close>

theorem gate_feed_lossless_bounded:
  "snd (gate_feed pend p) @ fst (gate_feed pend p) = pend @ p \<and>
   length (fst (gate_feed pend p)) \<le> 3"
  using gate_cut_held [of "pend @ p"]
  by (simp add: gate_feed_def Let_def del: take_append drop_append)

end
