(* ===== verification/Json_Model.thy ===== *)
theory Json_Model
  imports Complex_Main Q27_Prelude "HOL-Library.List_Lexorder" "HOL-Library.Char_ord"
begin

text \<open>
  JSON values and the accessors of \<^verbatim>\<open>nlohmann::json\<close> that the q27 sources call.  The library is
  third-party code: its parser and serialiser are parameters (\<open>parse\<close>, \<open>dump\<close>) of the definitions
  that use them; only the value type and the trivial accessors are written out here.
  An object is its key-sorted association list (\<^verbatim>\<open>std::map\<close> order); a number is an integer or a
  double, the double being the rational it stands for.  The accessors \<open>value()\<close> and \<open>get<T>()\<close>
  throw on a value of the wrong type, so they return \<open>json_exn + 'a\<close>.
\<close>

section \<open>Values\<close>

datatype json =
    JNull
  | JBool bool
  | JInt int
  | JFloat rat
  | JStr string
  | JArr "json list"
  | JObj "(string \<times> json) list"

datatype json_exn = TypeError302 | TypeError306 | ParseError101 | OtherExn string

type_synonym 'a jres = "json_exn + 'a"

section \<open>Type tests and lookup\<close>

fun is_null :: "json \<Rightarrow> bool" where
  "is_null JNull = True" | "is_null _ = False"
fun is_boolean :: "json \<Rightarrow> bool" where
  "is_boolean (JBool _) = True" | "is_boolean _ = False"
fun is_number :: "json \<Rightarrow> bool" where
  "is_number (JInt _) = True" | "is_number (JFloat _) = True" | "is_number _ = False"
fun is_string :: "json \<Rightarrow> bool" where
  "is_string (JStr _) = True" | "is_string _ = False"
fun is_array :: "json \<Rightarrow> bool" where
  "is_array (JArr _) = True" | "is_array _ = False"
fun is_object :: "json \<Rightarrow> bool" where
  "is_object (JObj _) = True" | "is_object _ = False"

text \<open>\<open>members\<close> and \<open>elements\<close> are what iteration visits (nothing for a scalar).\<close>

fun members :: "json \<Rightarrow> (string \<times> json) list" where
  "members (JObj kvs) = kvs" | "members _ = []"
fun elements :: "json \<Rightarrow> json list" where
  "elements (JArr xs) = xs"
| "elements (JObj kvs) = map snd kvs"
| "elements JNull = []"
| "elements j = [j]"

definition jfind :: "json \<Rightarrow> string \<Rightarrow> json option" where
  "jfind j k = map_of (members j) k"

definition contains :: "json \<Rightarrow> string \<Rightarrow> bool" where
  "contains j k \<longleftrightarrow> jfind j k \<noteq> None"

text \<open>\<open>j[k]\<close> on a key that is present (every use in the sources is guarded by \<open>contains\<close>).\<close>

definition jat :: "json \<Rightarrow> string \<Rightarrow> json" where
  "jat j k = (case jfind j k of Some v \<Rightarrow> v | None \<Rightarrow> JNull)"

text \<open>\<open>size()\<close> and \<open>empty()\<close> of an array or object.\<close>

fun jsize :: "json \<Rightarrow> nat" where
  "jsize (JArr xs) = length xs"
| "jsize (JObj kvs) = length kvs"
| "jsize JNull = 0"
| "jsize _ = 1"

text \<open>\<open>j.value(k, std::string dflt)\<close>: 306 on a non-object, 302 when present and not a string.\<close>

definition jvalue_str :: "json \<Rightarrow> string \<Rightarrow> string \<Rightarrow> string jres" where
  "jvalue_str j k dflt =
     (if \<not> is_object j then Inl TypeError306
      else case jfind j k of
             None \<Rightarrow> Inr dflt
           | Some (JStr s) \<Rightarrow> Inr s
           | Some _ \<Rightarrow> Inl TypeError302)"

text \<open>\<open>get<std::string>()\<close>.\<close>

fun get_str :: "json \<Rightarrow> string jres" where
  "get_str (JStr s) = Inr s"
| "get_str _ = Inl TypeError302"

section \<open>Building objects\<close>

text \<open>Insertion into a \<^verbatim>\<open>std::map\<close>: keys stay sorted and unique; \<open>obj[k] = v\<close> overwrites.\<close>

fun kv_put :: "string \<Rightarrow> json \<Rightarrow> (string \<times> json) list \<Rightarrow> (string \<times> json) list" where
  "kv_put k v [] = [(k, v)]"
| "kv_put k v ((k', v') # kvs) =
     (if k = k' then (k, v) # kvs
      else if k < k' then (k, v) # (k', v') # kvs
      else (k', v') # kv_put k v kvs)"

definition mk_obj :: "(string \<times> json) list \<Rightarrow> json" where
  "mk_obj kvs = JObj (fold (\<lambda>(k, v). kv_put k v) kvs [])"

lemma map_of_kv_put [simp]: "map_of (kv_put k v kvs) = (map_of kvs)(k \<mapsto> v)"
  by (induction k v kvs rule: kv_put.induct) (auto simp: fun_eq_iff)

lemma map_of_fold_kv_put:
  "map_of (fold (\<lambda>(k, v). kv_put k v) kvs acc) = map_of acc ++ map_of (rev kvs)"
  by (induction kvs arbitrary: acc) (auto simp: map_add_def fun_eq_iff split: option.splits)

lemma jfind_mk_obj: "jfind (mk_obj kvs) k = map_of (rev kvs) k"
  by (simp add: mk_obj_def jfind_def map_of_fold_kv_put)

lemma is_object_mk_obj [simp]: "is_object (mk_obj kvs)"
  by (simp add: mk_obj_def)

end
