(* ===== verification/Tool_Grammar.thy ===== *)
theory Tool_Grammar
  imports Q27_Prelude "HOL-Library.List_Lexorder" "HOL-Library.Char_ord"
begin

text \<open>
  The character-level pushdown machine for the body of a \<^verbatim>\<open><tool_call>\<close>, \<^verbatim>\<open>struct ToolGrammar\<close>
  of \<^verbatim>\<open>src/src/toolgram.h\<close>: its state as a record, the state enumeration as a datatype in the
  source's order, one definition per member function.  An operation that returns a \<^verbatim>\<open>bool\<close> and
  mutates the machine returns the pair of both.  The container stack \<^verbatim>\<open>stack_\<close> is a list whose
  head is the vector's back.  The second half of the theory proves the machine's invariant and
  that the state signature, the key of the mask cache, determines which tokens are legal.
\<close>

section \<open>The machine\<close>

datatype st =
    WS_OBJ_OPEN | KEY_OPEN_Q | KEY_NAME | KEY_COLON | NAME_OPEN_Q | NAME_VAL
  | ARG_COMMA | ARGKEY_OPEN_Q | ARGKEY | ARGS_COLON
  | J_VALUE | J_VALUE_REQ | J_STR | J_STR_ESC | J_STR_U1 | J_STR_U2 | J_STR_U3 | J_STR_U4
  | J_NUM_MINUS | J_NUM_ZERO | J_NUM_INT | J_NUM_DOT | J_NUM_FRAC | J_NUM_E | J_NUM_ESIGN | J_NUM_EXP
  | J_LIT | J_KEY | J_KEY_REQ | J_KEYSTR | J_KEYESC | J_KEY_U1 | J_KEY_U2 | J_KEY_U3 | J_KEY_U4
  | J_KEYCOLON | J_AFTER_VAL | OBJ_CLOSE | DONE | CLOSER | CLOSED

primrec st_index :: "st \<Rightarrow> nat" where
  "st_index WS_OBJ_OPEN = 0" | "st_index KEY_OPEN_Q = 1" | "st_index KEY_NAME = 2"
| "st_index KEY_COLON = 3" | "st_index NAME_OPEN_Q = 4" | "st_index NAME_VAL = 5"
| "st_index ARG_COMMA = 6" | "st_index ARGKEY_OPEN_Q = 7" | "st_index ARGKEY = 8"
| "st_index ARGS_COLON = 9" | "st_index J_VALUE = 10" | "st_index J_VALUE_REQ = 11"
| "st_index J_STR = 12" | "st_index J_STR_ESC = 13" | "st_index J_STR_U1 = 14"
| "st_index J_STR_U2 = 15" | "st_index J_STR_U3 = 16" | "st_index J_STR_U4 = 17"
| "st_index J_NUM_MINUS = 18" | "st_index J_NUM_ZERO = 19" | "st_index J_NUM_INT = 20"
| "st_index J_NUM_DOT = 21" | "st_index J_NUM_FRAC = 22" | "st_index J_NUM_E = 23"
| "st_index J_NUM_ESIGN = 24" | "st_index J_NUM_EXP = 25" | "st_index J_LIT = 26"
| "st_index J_KEY = 27" | "st_index J_KEY_REQ = 28" | "st_index J_KEYSTR = 29"
| "st_index J_KEYESC = 30" | "st_index J_KEY_U1 = 31" | "st_index J_KEY_U2 = 32"
| "st_index J_KEY_U3 = 33" | "st_index J_KEY_U4 = 34" | "st_index J_KEYCOLON = 35"
| "st_index J_AFTER_VAL = 36" | "st_index OBJ_CLOSE = 37" | "st_index DONE = 38"
| "st_index CLOSER = 39" | "st_index CLOSED = 40"

record grammar =
  names :: "string list"
  names_key :: string
  name_pref :: string
  lit_word :: string
  stack :: string
  lit :: nat
  st :: st
  dead :: bool

definition grammar_init :: grammar where
  "grammar_init = \<lparr>names = [], names_key = [], name_pref = [], lit_word = [], stack = [],
     lit = 0, st = WS_OBJ_OPEN, dead = False\<rparr>"

definition US :: char where "US = CHR 0x1F"

definition allow_key :: "string list \<Rightarrow> string" where
  "allow_key ns = concat (map (\<lambda>n. n @ [US]) (sort ns))"

text \<open>\<open>reset\<close>; note that \<^verbatim>\<open>lit_word_\<close> keeps its old value.\<close>

definition reset :: "grammar \<Rightarrow> string list \<Rightarrow> grammar" where
  "reset g tool_names =
     g\<lparr>names := tool_names, names_key := allow_key tool_names, st := WS_OBJ_OPEN, lit := 0,
       name_pref := [], stack := [], dead := False\<rparr>"

definition is_ws :: "char \<Rightarrow> bool" where
  "is_ws c \<longleftrightarrow> c = CHR '' '' \<or> c = CHR 0x0A \<or> c = CHR 0x0D \<or> c = CHR 0x09"

definition in_range :: "char \<Rightarrow> char \<Rightarrow> char \<Rightarrow> bool" where
  "in_range a c b \<longleftrightarrow> a \<le> c \<and> c \<le> b"

definition is_hex :: "char \<Rightarrow> bool" where
  "is_hex c \<longleftrightarrow> in_range (CHR ''0'') c (CHR ''9'') \<or> in_range (CHR ''a'') c (CHR ''f'') \<or>
     in_range (CHR ''A'') c (CHR ''F'')"

definition is_digit :: "char \<Rightarrow> bool" where
  "is_digit c \<longleftrightarrow> in_range (CHR ''0'') c (CHR ''9'')"

definition is_digit19 :: "char \<Rightarrow> bool" where
  "is_digit19 c \<longleftrightarrow> in_range (CHR ''1'') c (CHR ''9'')"

definition str_byte :: "char \<Rightarrow> bool" where
  "str_byte c \<longleftrightarrow> 0x20 \<le> (of_char c :: nat)"

abbreviation QUOTE :: char where "QUOTE \<equiv> CHR 0x22"
abbreviation BSL :: char where "BSL \<equiv> CHR 0x5C"

definition strchr_esc :: "char \<Rightarrow> bool" where
  "strchr_esc c \<longleftrightarrow> c = QUOTE \<or> c = BSL \<or> c = CHR ''/'' \<or> c = CHR ''b'' \<or> c = CHR ''f'' \<or>
     c = CHR ''n'' \<or> c = CHR ''r'' \<or> c = CHR ''t''"

text \<open>\<open>goto g s\<close> is \<^verbatim>\<open>{ st_ = s; return true; }\<close>.\<close>

definition goto :: "grammar \<Rightarrow> st \<Rightarrow> bool \<times> grammar" where
  "goto g s = (True, g\<lparr>st := s\<rparr>)"

definition pop_or_finish :: "grammar \<Rightarrow> bool \<times> grammar" where
  "pop_or_finish g =
     (let g' = g\<lparr>stack := tl (stack g)\<rparr>
      in if stack g' = [] then goto g' OBJ_CLOSE else goto g' J_AFTER_VAL)"

definition top_is :: "grammar \<Rightarrow> char \<Rightarrow> bool" where
  "top_is g c \<longleftrightarrow> stack g \<noteq> [] \<and> hd (stack g) = c"

definition lit_start :: "grammar \<Rightarrow> string \<Rightarrow> st \<Rightarrow> bool \<times> grammar" where
  "lit_start g w s = (True, g\<lparr>lit_word := w, lit := 1, st := s\<rparr>)"

definition value_start :: "grammar \<Rightarrow> char \<Rightarrow> bool \<Rightarrow> bool \<times> grammar" where
  "value_start g c allow_close =
     (if c = CHR ''{'' then goto (g\<lparr>stack := CHR ''{'' # stack g\<rparr>) J_KEY
      else if c = CHR ''['' then goto (g\<lparr>stack := CHR ''['' # stack g\<rparr>) J_VALUE
      else if c = QUOTE then goto g J_STR
      else if c = CHR ''-'' then goto g J_NUM_MINUS
      else if c = CHR ''0'' then goto g J_NUM_ZERO
      else if is_digit19 c then goto g J_NUM_INT
      else if c = CHR ''t'' then lit_start g ''true'' J_LIT
      else if c = CHR ''f'' then lit_start g ''false'' J_LIT
      else if c = CHR ''n'' then lit_start g ''null'' J_LIT
      else if allow_close \<and> c = CHR '']'' \<and> top_is g (CHR ''['') then pop_or_finish g
      else (False, g))"

text \<open>The case \<^verbatim>\<open>J_AFTER_VAL\<close> of \<open>step\<close>, also the target of \<^verbatim>\<open>num_end_redispatch\<close>.\<close>

definition after_val_step :: "grammar \<Rightarrow> char \<Rightarrow> bool \<times> grammar" where
  "after_val_step g c =
     (if is_ws c then (True, g)
      else if c = CHR '','' then goto g (if top_is g (CHR ''{'') then J_KEY_REQ else J_VALUE_REQ)
      else if c = CHR ''}'' \<and> top_is g (CHR ''{'') then pop_or_finish g
      else if c = CHR '']'' \<and> top_is g (CHR ''['') then pop_or_finish g
      else (False, g))"

definition num_end_redispatch :: "grammar \<Rightarrow> char \<Rightarrow> bool \<times> grammar" where
  "num_end_redispatch g c = after_val_step (g\<lparr>st := J_AFTER_VAL\<rparr>) c"

definition num_ends :: "char \<Rightarrow> bool" where
  "num_ends c \<longleftrightarrow> is_ws c \<or> c = CHR '','' \<or> c = CHR ''}'' \<or> c = CHR '']''"

text \<open>\<open>expect g c x s\<close>: whitespace stays, the byte \<open>x\<close> moves on, anything else fails.\<close>

definition expect :: "grammar \<Rightarrow> char \<Rightarrow> char \<Rightarrow> grammar \<Rightarrow> bool \<times> grammar" where
  "expect g c x g' = (if is_ws c then (True, g) else if c = x then (True, g') else (False, g))"

definition match_kw :: "grammar \<Rightarrow> char \<Rightarrow> string \<Rightarrow> st \<Rightarrow> bool \<times> grammar" where
  "match_kw g c kw s =
     (if lit g < length kw then
        (if c \<noteq> kw ! lit g then (False, g) else (True, g\<lparr>lit := lit g + 1\<rparr>))
      else if c = QUOTE then goto g s
      else (False, g))"

definition match_lit :: "grammar \<Rightarrow> char \<Rightarrow> st \<Rightarrow> bool \<times> grammar" where
  "match_lit g c s =
     (if lit g < length (lit_word g) then
        (if c \<noteq> lit_word g ! lit g then (False, g)
         else let g' = g\<lparr>lit := lit g + 1\<rparr>
              in (True, if lit g' = length (lit_word g') then g'\<lparr>st := s\<rparr> else g'))
      else (False, g))"

definition name_step :: "grammar \<Rightarrow> char \<Rightarrow> bool \<times> grammar" where
  "name_step g c =
     (if c = QUOTE then (if name_pref g \<in> set (names g) then goto g ARG_COMMA else (False, g))
      else let next_pref = name_pref g @ [c]
           in if list_ex (\<lambda>n. prefix next_pref n) (names g)
              then (True, g\<lparr>name_pref := next_pref\<rparr>) else (False, g))"

definition hex_step :: "grammar \<Rightarrow> char \<Rightarrow> st \<Rightarrow> bool \<times> grammar" where
  "hex_step g c s = (if \<not> is_hex c then (False, g) else goto g s)"

definition esc_step :: "grammar \<Rightarrow> char \<Rightarrow> st \<Rightarrow> st \<Rightarrow> bool \<times> grammar" where
  "esc_step g c su sb =
     (if c = CHR ''u'' then goto g su else if strchr_esc c then goto g sb else (False, g))"

definition str_step :: "grammar \<Rightarrow> char \<Rightarrow> st \<Rightarrow> st \<Rightarrow> bool \<times> grammar" where
  "str_step g c se sx =
     (if c = QUOTE then goto g se else if c = BSL then goto g sx
      else if str_byte c then (True, g) else (False, g))"

definition step :: "grammar \<Rightarrow> char \<Rightarrow> bool \<times> grammar" where
  "step g c = (case st g of
     WS_OBJ_OPEN \<Rightarrow> expect g c (CHR ''{'') (g\<lparr>st := KEY_OPEN_Q\<rparr>)
   | KEY_OPEN_Q \<Rightarrow> expect g c QUOTE (g\<lparr>lit := 0, st := KEY_NAME\<rparr>)
   | KEY_NAME \<Rightarrow> match_kw g c ''name'' KEY_COLON
   | KEY_COLON \<Rightarrow> expect g c (CHR '':'') (g\<lparr>st := NAME_OPEN_Q\<rparr>)
   | NAME_OPEN_Q \<Rightarrow> expect g c QUOTE (g\<lparr>name_pref := [], st := NAME_VAL\<rparr>)
   | NAME_VAL \<Rightarrow> name_step g c
   | ARG_COMMA \<Rightarrow> expect g c (CHR '','') (g\<lparr>st := ARGKEY_OPEN_Q\<rparr>)
   | ARGKEY_OPEN_Q \<Rightarrow> expect g c QUOTE (g\<lparr>lit := 0, st := ARGKEY\<rparr>)
   | ARGKEY \<Rightarrow> match_kw g c ''arguments'' ARGS_COLON
   | ARGS_COLON \<Rightarrow> expect g c (CHR '':'') (g\<lparr>st := J_VALUE\<rparr>)
   | J_VALUE \<Rightarrow>
       (if is_ws c then (True, g)
        else if stack g = [] then
          (if c = CHR ''{'' then goto (g\<lparr>stack := CHR ''{'' # stack g\<rparr>) J_KEY else (False, g))
        else value_start g c True)
   | J_VALUE_REQ \<Rightarrow> (if is_ws c then (True, g) else value_start g c False)
   | J_STR \<Rightarrow> str_step g c J_AFTER_VAL J_STR_ESC
   | J_STR_ESC \<Rightarrow> esc_step g c J_STR_U1 J_STR
   | J_STR_U1 \<Rightarrow> hex_step g c J_STR_U2
   | J_STR_U2 \<Rightarrow> hex_step g c J_STR_U3
   | J_STR_U3 \<Rightarrow> hex_step g c J_STR_U4
   | J_STR_U4 \<Rightarrow> hex_step g c J_STR
   | J_NUM_MINUS \<Rightarrow>
       (if c = CHR ''0'' then goto g J_NUM_ZERO
        else if is_digit19 c then goto g J_NUM_INT else (False, g))
   | J_NUM_ZERO \<Rightarrow>
       (if c = CHR ''.'' then goto g J_NUM_DOT
        else if c = CHR ''e'' \<or> c = CHR ''E'' then goto g J_NUM_E
        else if num_ends c then num_end_redispatch g c else (False, g))
   | J_NUM_INT \<Rightarrow>
       (if is_digit c then (True, g)
        else if c = CHR ''.'' then goto g J_NUM_DOT
        else if c = CHR ''e'' \<or> c = CHR ''E'' then goto g J_NUM_E
        else if num_ends c then num_end_redispatch g c else (False, g))
   | J_NUM_DOT \<Rightarrow> (if is_digit c then goto g J_NUM_FRAC else (False, g))
   | J_NUM_FRAC \<Rightarrow>
       (if is_digit c then (True, g)
        else if c = CHR ''e'' \<or> c = CHR ''E'' then goto g J_NUM_E
        else if num_ends c then num_end_redispatch g c else (False, g))
   | J_NUM_E \<Rightarrow>
       (if c = CHR ''+'' \<or> c = CHR ''-'' then goto g J_NUM_ESIGN
        else if is_digit c then goto g J_NUM_EXP else (False, g))
   | J_NUM_ESIGN \<Rightarrow> (if is_digit c then goto g J_NUM_EXP else (False, g))
   | J_NUM_EXP \<Rightarrow>
       (if is_digit c then (True, g)
        else if num_ends c then num_end_redispatch g c else (False, g))
   | J_LIT \<Rightarrow> match_lit g c J_AFTER_VAL
   | J_KEY \<Rightarrow>
       (if is_ws c then (True, g)
        else if c = QUOTE then goto g J_KEYSTR
        else if c = CHR ''}'' \<and> top_is g (CHR ''{'') then pop_or_finish g
        else (False, g))
   | J_KEY_REQ \<Rightarrow> expect g c QUOTE (g\<lparr>st := J_KEYSTR\<rparr>)
   | J_KEYSTR \<Rightarrow> str_step g c J_KEYCOLON J_KEYESC
   | J_KEYESC \<Rightarrow> esc_step g c J_KEY_U1 J_KEYSTR
   | J_KEY_U1 \<Rightarrow> hex_step g c J_KEY_U2
   | J_KEY_U2 \<Rightarrow> hex_step g c J_KEY_U3
   | J_KEY_U3 \<Rightarrow> hex_step g c J_KEY_U4
   | J_KEY_U4 \<Rightarrow> hex_step g c J_KEYSTR
   | J_KEYCOLON \<Rightarrow> expect g c (CHR '':'') (g\<lparr>st := J_VALUE\<rparr>)
   | J_AFTER_VAL \<Rightarrow> after_val_step g c
   | OBJ_CLOSE \<Rightarrow> expect g c (CHR ''}'') (g\<lparr>st := DONE\<rparr>)
   | DONE \<Rightarrow>
       (if is_ws c then (True, g)
        else if c = CHR ''<'' then lit_start g ''</tool_call>'' CLOSER else (False, g))
   | CLOSER \<Rightarrow> match_lit g c CLOSED
   | CLOSED \<Rightarrow> (True, g))"

definition advance :: "grammar \<Rightarrow> char \<Rightarrow> bool \<times> grammar" where
  "advance g c =
     (if dead g then (False, g)
      else case step g c of (True, g') \<Rightarrow> (True, g') | (False, g') \<Rightarrow> (False, g'\<lparr>dead := True\<rparr>))"

fun advance_str :: "grammar \<Rightarrow> string \<Rightarrow> bool \<times> grammar" where
  "advance_str g [] = (True, g)"
| "advance_str g (c # s) =
     (case advance g c of (True, g') \<Rightarrow> advance_str g' s | (False, g') \<Rightarrow> (False, g'))"

definition done_ok :: "grammar \<Rightarrow> bool" where
  "done_ok g \<longleftrightarrow> \<not> dead g \<and> (st g = DONE \<or> st g = CLOSER \<or> st g = CLOSED)"

definition closed :: "grammar \<Rightarrow> bool" where
  "closed g \<longleftrightarrow> \<not> dead g \<and> st g = CLOSED"

definition token_ok :: "grammar \<Rightarrow> string \<Rightarrow> bool" where
  "token_ok g s = fst (advance_str g s)"

section \<open>The state signature\<close>

definition signature :: "grammar \<Rightarrow> string" where
  "signature g =
     [char_of (65 + st_index (st g)), if dead g then CHR ''!'' else CHR ''.''] @ rev (stack g) @
     ''|'' @ to_string (lit g) @ ''|'' @ lit_word g @
     (if st_index (st g) \<le> st_index NAME_VAL then ''|'' @ name_pref g @ ''|'' @ names_key g else [])"

lemmas step_helpers =
  expect_def match_kw_def match_lit_def name_step_def hex_step_def esc_step_def str_step_def
  value_start_def after_val_step_def num_end_redispatch_def pop_or_finish_def lit_start_def
  goto_def Let_def

section \<open>Reachable machines and their invariant\<close>

text \<open>
  Tool names are assumed free of the two separator bytes of the signature, \<open>|\<close> and US.  A
  machine is reachable when it is built by resets on such allowlists and any bytes in between.
\<close>

definition ok_names :: "string list \<Rightarrow> bool" where
  "ok_names ns \<longleftrightarrow> list_all (\<lambda>n. CHR ''|'' \<notin> set n \<and> US \<notin> set n) ns"

inductive tg_reach :: "grammar \<Rightarrow> bool" where
  tg_init: "tg_reach grammar_init"
| tg_reset: "tg_reach g \<Longrightarrow> ok_names ns \<Longrightarrow> tg_reach (reset g ns)"
| tg_advance: "tg_reach g \<Longrightarrow> tg_reach (snd (advance g c))"

definition sig_inv :: "grammar \<Rightarrow> bool" where
  "sig_inv g \<longleftrightarrow>
     set (stack g) \<subseteq> {CHR ''{'', CHR ''[''} \<and> CHR ''|'' \<notin> set (lit_word g) \<and>
     names_key g = allow_key (names g) \<and> ok_names (names g) \<and> CHR ''|'' \<notin> set (name_pref g)"

lemma step_frame:
  "step g c = (b, g') \<Longrightarrow> names g' = names g \<and> names_key g' = names_key g \<and> dead g' = dead g"
  by (cases "st g") (auto simp: step_def step_helpers split: if_splits)

lemma set_tl_subset: "set (tl xs) \<subseteq> set xs"
  by (cases xs) auto

lemma step_stack:
  "step g c = (b, g') \<Longrightarrow> set (stack g) \<subseteq> {CHR ''{'', CHR ''[''} \<Longrightarrow>
     set (stack g') \<subseteq> {CHR ''{'', CHR ''[''}"
proof -
  have "set (stack g') \<subseteq> insert (CHR ''{'') (insert (CHR ''['') (set (stack g)))"
    if "step g c = (b, g')" for b g'
    using that
    by (cases "st g")
      (auto simp: step_def step_helpers split: if_splits dest: subsetD [OF set_tl_subset])
  then show "step g c = (b, g') \<Longrightarrow> set (stack g) \<subseteq> {CHR ''{'', CHR ''[''} \<Longrightarrow>
     set (stack g') \<subseteq> {CHR ''{'', CHR ''[''}" by blast
qed

lemma step_lit_word:
  "step g c = (b, g') \<Longrightarrow> lit_word g' \<in> {lit_word g, ''true'', ''false'', ''null'', ''</tool_call>''}"
  by (cases "st g") (auto simp: step_def step_helpers split: if_splits)

lemma step_name_pref:
  "step g c = (b, g') \<Longrightarrow>
     name_pref g' = name_pref g \<or> name_pref g' = [] \<or> (\<exists>n\<in>set (names g). prefix (name_pref g') n)"
  by (cases "st g") (auto simp: step_def step_helpers list_ex_iff split: if_splits)

lemma step_sig_inv: "step g c = (b, g') \<Longrightarrow> sig_inv g \<Longrightarrow> sig_inv g'"
  using step_frame [of g c b g'] step_stack [of g c b g'] step_lit_word [of g c b g']
    step_name_pref [of g c b g']
  by (auto simp: sig_inv_def ok_names_def list_all_iff prefix_def)

lemma advance_sig_inv: "sig_inv g \<Longrightarrow> sig_inv (snd (advance g c))"
proof -
  assume "sig_inv g"
  obtain b g' where s: "step g c = (b, g')" by (cases "step g c")
  with step_sig_inv [OF s \<open>sig_inv g\<close>] \<open>sig_inv g\<close> show ?thesis
    by (cases b) (simp_all add: advance_def sig_inv_def)
qed

lemma tg_reach_sig_inv: "tg_reach g \<Longrightarrow> sig_inv g"
proof (induction rule: tg_reach.induct)
  case tg_init
  show ?case by (simp add: grammar_init_def sig_inv_def allow_key_def ok_names_def)
next
  case (tg_reset g ns)
  then show ?case by (auto simp: reset_def sig_inv_def)
next
  case (tg_advance g c)
  then show ?case by (simp add: advance_sig_inv)
qed

section \<open>The signature determines the legal tokens\<close>

text \<open>Two machines agree when they differ at most in data no later transition reads.\<close>

definition agree :: "grammar \<Rightarrow> grammar \<Rightarrow> bool" where
  "agree g h \<longleftrightarrow>
     st g = st h \<and> dead g = dead h \<and> stack g = stack h \<and> lit g = lit h \<and> lit_word g = lit_word h \<and>
     (st_index (st g) \<le> st_index NAME_VAL \<longrightarrow>
        name_pref g = name_pref h \<and> set (names g) = set (names h))"

lemma agree_step:
  assumes "agree g h"
  shows "fst (step g c) = fst (step h c) \<and> agree (snd (step g c)) (snd (step h c))"
  using assms
  by (cases "st g")
    (simp_all add: agree_def step_def step_helpers list_ex_iff top_is_def split: if_splits)

lemma agree_advance:
  assumes "agree g h"
  shows "fst (advance g c) = fst (advance h c) \<and> agree (snd (advance g c)) (snd (advance h c))"
proof -
  obtain b g' b' h' where s: "step g c = (b, g')" "step h c = (b', h')" by fastforce
  with agree_step [OF assms, of c] have "b = b'" "agree g' h'" by auto
  moreover have "dead g = dead h" using assms by (simp add: agree_def)
  ultimately show ?thesis using assms s
    by (cases b) (auto simp: advance_def agree_def)
qed

lemma agree_advance_str: "agree g h \<Longrightarrow> fst (advance_str g s) = fst (advance_str h s)"
proof (induction s arbitrary: g h)
  case (Cons c s)
  obtain b g' b' h' where s: "advance g c = (b, g')" "advance h c = (b', h')" by fastforce
  with agree_advance [OF Cons.prems, of c] have "b = b'" "agree g' h'" by auto
  with s Cons.IH show ?case by (cases b) auto
qed simp

text \<open>Reading the signature back: the numeral, the separators, the allowlist.\<close>

lemma to_string_no_bar: "CHR ''|'' \<notin> set (to_string n)"
proof (induction n rule: to_string.induct)
  case (1 n)
  have "CHR ''|'' \<noteq> char_of (48 + k)" if "k < 10" for k :: nat
  proof
    assume "CHR ''|'' = char_of (48 + k)"
    then have "(of_char (char_of (48 + k) :: char) :: nat) = of_char (CHR ''|'')" by simp
    with that show False by simp
  qed
  then have "CHR ''|'' \<noteq> char_of (48 + n mod 10)" "n < 10 \<Longrightarrow> CHR ''|'' \<noteq> char_of (48 + n)"
    by simp_all
  with 1 show ?case by (simp add: to_string.simps [of n])
qed

lemma split_at_sep:
  assumes "x \<notin> set us" "x \<notin> set vs"
  shows "us @ x # ys = vs @ x # zs \<longleftrightarrow> us = vs \<and> ys = zs"
  using assms
proof (induction us arbitrary: vs)
  case Nil
  then show ?case by (cases vs) auto
next
  case (Cons u us)
  then show ?case by (cases vs) auto
qed

lemma join_inject:
  "\<forall>n\<in>set ms. x \<notin> set n \<Longrightarrow> \<forall>n\<in>set ns. x \<notin> set n \<Longrightarrow>
     concat (map (\<lambda>n. n @ [x]) ms) = concat (map (\<lambda>n. n @ [x]) ns) \<longleftrightarrow> ms = ns"
proof (induction ms arbitrary: ns)
  case Nil
  then show ?case by (cases ns) auto
next
  case (Cons m ms)
  show ?case
  proof (cases ns)
    case (Cons n ns')
    with Cons.prems Cons.IH [of ns'] show ?thesis by (simp add: split_at_sep)
  qed simp
qed

lemma allow_key_inject:
  assumes "ok_names ms" "ok_names ns" "allow_key ms = allow_key ns"
  shows "set ms = set ns"
proof -
  have "sort ms = sort ns"
    using assms join_inject [of "sort ms" US "sort ns"]
    by (simp add: allow_key_def ok_names_def list_all_iff)
  then show ?thesis by (metis set_sort)
qed

lemma st_index_lt: "st_index s < 41"
  by (cases s) simp_all

lemma st_index_inject: "st_index s = st_index t \<longleftrightarrow> s = t"
  by (cases s; cases t) simp_all

lemma sig_head_inject:
  "char_of (65 + st_index s) = (char_of (65 + st_index t) :: char) \<longleftrightarrow> s = t"
proof
  assume "char_of (65 + st_index s) = (char_of (65 + st_index t) :: char)"
  then have "(of_char (char_of (65 + st_index s) :: char) :: nat) = of_char (char_of (65 + st_index t) :: char)"
    by simp
  then have "st_index s = st_index t" using st_index_lt [of s] st_index_lt [of t] by simp
  then show "s = t" by (simp add: st_index_inject)
qed simp

lemma signature_agree:
  assumes inv: "sig_inv g" "sig_inv h" and sig: "signature g = signature h"
  shows "agree g h"
proof -
  let ?tail = "\<lambda>g. if st_index (st g) \<le> st_index NAME_VAL
                   then ''|'' @ name_pref g @ ''|'' @ names_key g else []"
  have bar: "CHR ''|'' \<notin> set (rev (stack g))" "CHR ''|'' \<notin> set (rev (stack h))"
    using inv by (auto simp: sig_inv_def)
  from sig have "char_of (65 + st_index (st g)) = (char_of (65 + st_index (st h)) :: char)"
    unfolding signature_def append.simps list.inject by blast
  then have st: "st g = st h" by (simp only: sig_head_inject)
  from sig have "(if dead g then CHR ''!'' else CHR ''.'') = (if dead h then CHR ''!'' else CHR ''.'')"
    unfolding signature_def append.simps list.inject by blast
  then have dead: "dead g = dead h" by (simp split: if_splits)
  from sig have "rev (stack g) @ CHR ''|'' # to_string (lit g) @ CHR ''|'' # lit_word g @ ?tail g =
      rev (stack h) @ CHR ''|'' # to_string (lit h) @ CHR ''|'' # lit_word h @ ?tail h"
    unfolding signature_def by simp
  then have stack: "stack g = stack h" and lit: "lit g = lit h"
    and rest: "lit_word g @ ?tail g = lit_word h @ ?tail h"
    by (simp_all only: split_at_sep [OF bar] split_at_sep [OF to_string_no_bar to_string_no_bar]
        to_string_inject rev_is_rev_conv)
  show ?thesis
  proof (cases "st_index (st h) \<le> st_index NAME_VAL")
    case False
    with st rest have "lit_word g = lit_word h" by simp
    with False st dead stack lit show ?thesis by (simp add: agree_def)
  next
    case True
    have nb: "CHR ''|'' \<notin> set (lit_word g)" "CHR ''|'' \<notin> set (lit_word h)"
      "CHR ''|'' \<notin> set (name_pref g)" "CHR ''|'' \<notin> set (name_pref h)"
      using inv by (auto simp: sig_inv_def)
    from True st rest have "lit_word g @ CHR ''|'' # name_pref g @ CHR ''|'' # names_key g =
        lit_word h @ CHR ''|'' # name_pref h @ CHR ''|'' # names_key h" by simp
    then have "lit_word g = lit_word h" "name_pref g = name_pref h" "names_key g = names_key h"
      by (simp_all only: split_at_sep [OF nb(1,2)] split_at_sep [OF nb(3,4)])
    moreover from this(3) inv have "set (names g) = set (names h)"
      by (auto simp: sig_inv_def dest: allow_key_inject)
    ultimately show ?thesis using st dead stack lit by (simp add: agree_def)
  qed
qed

lemma signature_sound_tokens:
  assumes "sig_inv g" "sig_inv h" "signature g = signature h"
  shows "token_ok g s = token_ok h s \<and> done_ok g = done_ok h"
  using signature_agree [OF assms] agree_advance_str
  by (auto simp: token_ok_def done_ok_def agree_def)

section \<open>Properties\<close>

text \<open>
  C10: the mask-cache key is sound.  Two reachable machines with equal signatures accept exactly
  the same tokens and agree on whether the closer is legal, provided no registered tool name
  contains a separator byte of the signature.
\<close>

theorem signature_sound:
  assumes "tg_reach g" "tg_reach h" "signature g = signature h"
  shows "token_ok g s = token_ok h s \<and> done_ok g = done_ok h"
  using signature_sound_tokens tg_reach_sig_inv assms by blast

definition demo_at :: "string list \<Rightarrow> string \<Rightarrow> grammar" where
  "demo_at ns s = snd (advance_str (reset grammar_init ns) s)"

lemma tg_reach_advance_str: "tg_reach g \<Longrightarrow> tg_reach (snd (advance_str g s))"
proof (induction s arbitrary: g)
  case (Cons c s)
  obtain b g' where s: "advance g c = (b, g')" by (cases "advance g c")
  with tg_advance [OF Cons.prems, of c] have "tg_reach g'" by simp
  with s Cons.IH show ?case by (cases b) auto
qed simp

lemma tg_reach_demo: "ok_names ns \<Longrightarrow> tg_reach (demo_at ns s)"
  unfolding demo_at_def by (intro tg_reach_advance_str tg_reach.tg_reset tg_reach.tg_init)

theorem signature_sound_witness:
  "token_ok (demo_at [''ls'', ''cat''] ''{\"name\":\"ls\",\"arguments\":{'') ''}}'' =
     token_ok (demo_at [''rm''] ''{\"name\":\"rm\",\"arguments\":{'') ''}}'' \<and>
   done_ok (demo_at [''ls'', ''cat''] ''{\"name\":\"ls\",\"arguments\":{'') =
     done_ok (demo_at [''rm''] ''{\"name\":\"rm\",\"arguments\":{'')"
proof (rule signature_sound)
  show "tg_reach (demo_at [''ls'', ''cat''] ''{\"name\":\"ls\",\"arguments\":{'')"
    by (rule tg_reach_demo) code_simp
  show "tg_reach (demo_at [''rm''] ''{\"name\":\"rm\",\"arguments\":{'')"
    by (rule tg_reach_demo) code_simp
  show "signature (demo_at [''ls'', ''cat''] ''{\"name\":\"ls\",\"arguments\":{'') =
      signature (demo_at [''rm''] ''{\"name\":\"rm\",\"arguments\":{'')"
    by code_simp
qed

text \<open>
  The restriction on tool names is needed.  With a name that contains \<^verbatim>\<open>|\<close> the signature
  is ambiguous: the allowlists and prefixes below give the same key although only the first
  machine accepts the token \<^verbatim>\<open>|z\<close>.
\<close>

theorem signature_collision:
  "let g = demo_at [''|Z'', ''~|z''] ''{\"name\":\"~'';
       h = demo_at [''Z'', ''~|z''] ''{\"name\":\"~|''
   in signature g = signature h \<and> token_ok g ''|z'' \<and> \<not> token_ok h ''|z''"
  by code_simp

end
