(* ===== verification/Tool_Grammar_Lang.thy ===== *)
theory Tool_Grammar_Lang
  imports Tool_Grammar
begin

text \<open>
  The language of the tool-call machine.  The reference is the JSON grammar (RFC 8259, on bytes)
  and the call envelope around it, written as inductive predicates that know nothing of the
  machine.  The main result: from a reset, the machine reaches \<open>DONE\<close> on exactly the call
  bodies of the reference grammar.
\<close>

section \<open>The reference grammar\<close>

abbreviation ws :: "string \<Rightarrow> bool" where "ws \<equiv> list_all is_ws"

inductive strbody :: "string \<Rightarrow> bool" where
  sb_nil: "strbody []"
| sb_char: "str_byte c \<Longrightarrow> c \<noteq> QUOTE \<Longrightarrow> c \<noteq> BSL \<Longrightarrow> strbody s \<Longrightarrow> strbody (c # s)"
| sb_esc: "strchr_esc c \<Longrightarrow> strbody s \<Longrightarrow> strbody (BSL # c # s)"
| sb_hex: "list_all is_hex h \<Longrightarrow> length h = 4 \<Longrightarrow> strbody s \<Longrightarrow> strbody (BSL # CHR ''u'' # h @ s)"

definition digits1 :: "string \<Rightarrow> bool" where
  "digits1 s \<longleftrightarrow> s \<noteq> [] \<and> list_all is_digit s"

definition int_part :: "string \<Rightarrow> bool" where
  "int_part s \<longleftrightarrow> s = ''0'' \<or> (\<exists>c ds. s = c # ds \<and> is_digit19 c \<and> list_all is_digit ds)"

definition frac_part :: "string \<Rightarrow> bool" where
  "frac_part s \<longleftrightarrow> s = [] \<or> (\<exists>ds. s = CHR ''.'' # ds \<and> digits1 ds)"

definition exp_part :: "string \<Rightarrow> bool" where
  "exp_part s \<longleftrightarrow> s = [] \<or> (\<exists>e sg ds. s = e # sg @ ds \<and> (e = CHR ''e'' \<or> e = CHR ''E'') \<and>
      (sg = [] \<or> sg = ''+'' \<or> sg = ''-'') \<and> digits1 ds)"

definition jnumber :: "string \<Rightarrow> bool" where
  "jnumber s \<longleftrightarrow> (\<exists>m i f e. s = m @ i @ f @ e \<and> (m = [] \<or> m = ''-'') \<and> int_part i \<and> frac_part f \<and> exp_part e)"

inductive jval :: "string \<Rightarrow> bool" and jmems :: "string \<Rightarrow> bool" and jelems :: "string \<Rightarrow> bool" where
  jv_str: "strbody b \<Longrightarrow> jval (QUOTE # b @ [QUOTE])"
| jv_num: "jnumber n \<Longrightarrow> jval n"
| jv_lit: "l = ''true'' \<or> l = ''false'' \<or> l = ''null'' \<Longrightarrow> jval l"
| jv_obj0: "ws w \<Longrightarrow> jval (CHR ''{'' # w @ ''}'')"
| jv_obj: "jmems m \<Longrightarrow> jval (CHR ''{'' # m @ ''}'')"
| jv_arr0: "ws w \<Longrightarrow> jval (CHR ''['' # w @ '']'')"
| jv_arr: "jelems e \<Longrightarrow> jval (CHR ''['' # e @ '']'')"
| jm_one: "ws w1 \<Longrightarrow> strbody b \<Longrightarrow> ws w2 \<Longrightarrow> ws w3 \<Longrightarrow> jval v \<Longrightarrow> ws w4 \<Longrightarrow>
    jmems (w1 @ QUOTE # b @ QUOTE # w2 @ CHR '':'' # w3 @ v @ w4)"
| jm_more: "ws w1 \<Longrightarrow> strbody b \<Longrightarrow> ws w2 \<Longrightarrow> ws w3 \<Longrightarrow> jval v \<Longrightarrow> ws w4 \<Longrightarrow> jmems ms \<Longrightarrow>
    jmems (w1 @ QUOTE # b @ QUOTE # w2 @ CHR '':'' # w3 @ v @ w4 @ CHR '','' # ms)"
| je_one: "ws w1 \<Longrightarrow> jval v \<Longrightarrow> ws w2 \<Longrightarrow> jelems (w1 @ v @ w2)"
| je_more: "ws w1 \<Longrightarrow> jval v \<Longrightarrow> ws w2 \<Longrightarrow> jelems es \<Longrightarrow> jelems (w1 @ v @ w2 @ CHR '','' # es)"

text \<open>An object: the only value legal as the arguments of a call.\<close>

definition jobject :: "string \<Rightarrow> bool" where
  "jobject s \<longleftrightarrow> (\<exists>m. s = CHR ''{'' # m @ ''}'' \<and> (ws m \<or> jmems m))"

text \<open>The body of a call: the two members in this order, the name one of the registered ones.\<close>

definition tool_call_body :: "string list \<Rightarrow> string \<Rightarrow> bool" where
  "tool_call_body ns s \<longleftrightarrow>
     (\<exists>n w0 w1 w2 w3 w4 w5 w6 w7 obj w8.
        s = w0 @ ''{'' @ w1 @ ''\"name\"'' @ w2 @ '':'' @ w3 @ ''\"'' @ n @ ''\"'' @ w4 @ '','' @
            w5 @ ''\"arguments\"'' @ w6 @ '':'' @ w7 @ obj @ w8 @ ''}'' \<and>
        n \<in> set ns \<and> QUOTE \<notin> set n \<and> jobject obj \<and>
        list_all ws [w0, w1, w2, w3, w4, w5, w6, w7, w8])"

section \<open>Acceptance\<close>

definition acc :: "grammar \<Rightarrow> string \<Rightarrow> bool" where
  "acc g s \<longleftrightarrow> (\<exists>g'. advance_str g s = (True, g') \<and> st g' = DONE)"

text \<open>\<open>inst s k g\<close>: a live machine in state \<open>s\<close> with container stack \<open>k\<close>.\<close>

definition inst :: "st \<Rightarrow> string \<Rightarrow> grammar \<Rightarrow> bool" where
  "inst s k g \<longleftrightarrow> st g = s \<and> stack g = k \<and> \<not> dead g"

lemma acc_Nil [simp]: "acc g [] \<longleftrightarrow> st g = DONE"
  by (simp add: acc_def)

lemma acc_Cons: "\<not> dead g \<Longrightarrow> acc g (c # s) \<longleftrightarrow> (\<exists>g'. step g c = (True, g') \<and> acc g' s)"
  by (auto simp: acc_def advance_def split: prod.splits bool.splits)

lemma step_alive: "step g c = (b, g') \<Longrightarrow> \<not> dead g \<Longrightarrow> \<not> dead g'"
  using step_frame by blast

lemmas mach = inst_def acc_Cons step_def step_helpers

section \<open>Strings\<close>

text \<open>
  Values and keys run the same string automaton on two copies of its states: the locale fixes
  such a copy and its final state, and the lemmas relate it to \<open>strbody\<close>.
\<close>

locale string_states =
  fixes S E U1 U2 U3 U4 F :: st
  assumes step_S: "st g = S \<Longrightarrow> step g c = str_step g c F E"
    and step_E: "st g = E \<Longrightarrow> step g c = esc_step g c U1 S"
    and step_U: "st g = U1 \<Longrightarrow> step g c = hex_step g c U2" "st g = U2 \<Longrightarrow> step g c = hex_step g c U3"
      "st g = U3 \<Longrightarrow> step g c = hex_step g c U4" "st g = U4 \<Longrightarrow> step g c = hex_step g c S"
    and not_done: "DONE \<notin> {S, E, U1, U2, U3, U4}"
begin

lemma acc_S: "inst S k g \<Longrightarrow> acc g (c # s) \<longleftrightarrow>
    (if c = QUOTE then acc (g\<lparr>st := F\<rparr>) s
     else if c = BSL then acc (g\<lparr>st := E\<rparr>) s else str_byte c \<and> acc g s)"
  by (simp add: inst_def acc_Cons step_S str_step_def goto_def)

lemma acc_E: "inst E k g \<Longrightarrow> acc g (c # s) \<longleftrightarrow>
    (if c = CHR ''u'' then acc (g\<lparr>st := U1\<rparr>) s else strchr_esc c \<and> acc (g\<lparr>st := S\<rparr>) s)"
  by (simp add: inst_def acc_Cons step_E esc_step_def goto_def)

lemma acc_U:
  "inst U1 k g \<Longrightarrow> acc g (c # s) \<longleftrightarrow> is_hex c \<and> acc (g\<lparr>st := U2\<rparr>) s"
  "inst U2 k g \<Longrightarrow> acc g (c # s) \<longleftrightarrow> is_hex c \<and> acc (g\<lparr>st := U3\<rparr>) s"
  "inst U3 k g \<Longrightarrow> acc g (c # s) \<longleftrightarrow> is_hex c \<and> acc (g\<lparr>st := U4\<rparr>) s"
  "inst U4 k g \<Longrightarrow> acc g (c # s) \<longleftrightarrow> is_hex c \<and> acc (g\<lparr>st := S\<rparr>) s"
  by (simp_all add: inst_def acc_Cons step_U hex_step_def goto_def)

lemma acc_needs_more: "st g \<in> {S, E, U1, U2, U3, U4} \<Longrightarrow> acc g s \<Longrightarrow> s \<noteq> []"
  using not_done by auto

lemma inst_move: "inst s k g \<Longrightarrow> inst s' k (g\<lparr>st := s'\<rparr>)"
  by (simp add: inst_def)

lemma acc_hex4:
  assumes "inst U1 k g"
  shows "acc g s \<longleftrightarrow> (\<exists>h r. s = h @ r \<and> list_all is_hex h \<and> length h = 4 \<and> acc (g\<lparr>st := S\<rparr>) r)"
proof
  note i = inst_move [OF assms]
  assume a: "acc g s"
  from acc_needs_more [OF _ a] assms obtain c1 s1 where s1: "s = c1 # s1" by (auto simp: inst_def neq_Nil_conv)
  with a have h1: "is_hex c1" and a1: "acc (g\<lparr>st := U2\<rparr>) s1" using acc_U(1) [OF assms] by auto
  from acc_needs_more [OF _ a1] obtain c2 s2 where s2: "s1 = c2 # s2" by (auto simp: neq_Nil_conv)
  with a1 have h2: "is_hex c2" and a2: "acc (g\<lparr>st := U3\<rparr>) s2" using acc_U(2) [OF i] by auto
  from acc_needs_more [OF _ a2] obtain c3 s3 where s3: "s2 = c3 # s3" by (auto simp: neq_Nil_conv)
  with a2 have h3: "is_hex c3" and a3: "acc (g\<lparr>st := U4\<rparr>) s3" using acc_U(3) [OF i] by auto
  from acc_needs_more [OF _ a3] obtain c4 s4 where s4: "s3 = c4 # s4" by (auto simp: neq_Nil_conv)
  with a3 have h4: "is_hex c4" and a4: "acc (g\<lparr>st := S\<rparr>) s4" using acc_U(4) [OF i] by auto
  have "s = [c1, c2, c3, c4] @ s4" by (simp add: s1 s2 s3 s4)
  then show "\<exists>h r. s = h @ r \<and> list_all is_hex h \<and> length h = 4 \<and> acc (g\<lparr>st := S\<rparr>) r"
    using h1 h2 h3 h4 a4 by (intro exI [of _ "[c1, c2, c3, c4]"] exI [of _ s4]) simp
next
  note i = inst_move [OF assms]
  assume "\<exists>h r. s = h @ r \<and> list_all is_hex h \<and> length h = 4 \<and> acc (g\<lparr>st := S\<rparr>) r"
  then obtain c1 c2 c3 c4 r where "s = c1 # c2 # c3 # c4 # r" "is_hex c1" "is_hex c2" "is_hex c3" "is_hex c4"
    "acc (g\<lparr>st := S\<rparr>) r" by (auto simp: length_Suc_conv eval_nat_numeral)
  then show "acc g s"
    using acc_U(1) [OF assms] acc_U(2-4) [OF i] by simp
qed

text \<open>The automaton accepts exactly a string body, its quote and what the final state accepts.\<close>

lemma string_complete:
  "strbody b \<Longrightarrow> inst S k g \<Longrightarrow> acc (g\<lparr>st := F\<rparr>) r \<Longrightarrow> acc g (b @ QUOTE # r)"
proof (induction b arbitrary: g rule: strbody.induct)
  case (sb_hex h s)
  have "acc ((g\<lparr>st := U1\<rparr>)\<lparr>st := S\<rparr>) (s @ QUOTE # r)"
    by (rule sb_hex.IH) (use sb_hex.prems in \<open>auto simp: inst_def\<close>)
  then have "acc (g\<lparr>st := U1\<rparr>) (h @ s @ QUOTE # r)"
    unfolding acc_hex4 [OF inst_move [OF sb_hex.prems(1)]] using sb_hex.hyps by blast
  then show ?case using acc_S [OF sb_hex.prems(1)] acc_E [OF inst_move [OF sb_hex.prems(1)]] by simp
next
  case (sb_esc c s)
  have "c \<noteq> CHR ''u''" using sb_esc.hyps(1) by (auto simp: strchr_esc_def)
  then show ?case using sb_esc acc_S [OF sb_esc.prems(1)] acc_E [OF inst_move [OF sb_esc.prems(1)]]
    by (simp add: inst_def)
qed (use acc_S in \<open>auto simp: inst_def\<close>)

lemma string_sound:
  "inst S k g \<Longrightarrow> acc g s \<Longrightarrow> \<exists>b r. s = b @ QUOTE # r \<and> strbody b \<and> acc (g\<lparr>st := F\<rparr>) r"
proof (induction s arbitrary: g rule: length_induct)
  case (1 s)
  have same: "g\<lparr>st := S\<rparr> = g" using 1(2) by (auto simp: inst_def)
  obtain c s' where s: "s = c # s'" using acc_needs_more [OF _ 1(3)] 1(2) by (auto simp: inst_def neq_Nil_conv)
  note IH = 1(1) [rule_format, OF _ 1(2)]
  consider (q) "c = QUOTE" | (b) "c = BSL" | (n) "c \<noteq> QUOTE" "c \<noteq> BSL" by blast
  then show ?case
  proof cases
    case q
    then have "acc (g\<lparr>st := F\<rparr>) s'" using s 1 acc_S [OF 1(2)] by auto
    with q s show ?thesis by (intro exI [of _ "[]"] exI [of _ s']) (auto intro: sb_nil)
  next
    case n
    then have "str_byte c" "acc g s'" using s 1 acc_S [OF 1(2)] by auto
    with IH [of s'] s obtain b r where "s' = b @ QUOTE # r" "strbody b" "acc (g\<lparr>st := F\<rparr>) r" by auto
    then show ?thesis using s n \<open>str_byte c\<close>
      by (intro exI [of _ "c # b"] exI [of _ r]) (auto intro: sb_char)
  next
    case b
    then have e: "acc (g\<lparr>st := E\<rparr>) s'" using s 1 acc_S [OF 1(2)] by auto
    obtain d s'' where s': "s' = d # s''" using acc_needs_more [OF _ e] by (auto simp: neq_Nil_conv)
    show ?thesis
    proof (cases "d = CHR ''u''")
      case True
      then have "acc (g\<lparr>st := U1\<rparr>) s''" using e s' acc_E [OF inst_move [OF 1(2)]] by simp
      then obtain h r where h: "s'' = h @ r" "list_all is_hex h" "length h = 4" "acc g r"
        using acc_hex4 [OF inst_move [OF 1(2)]] same by auto
      with IH [of r] s s' obtain b' r' where "r = b' @ QUOTE # r'" "strbody b'" "acc (g\<lparr>st := F\<rparr>) r'"
        by auto
      then show ?thesis using s s' b h True
        by (intro exI [of _ "BSL # CHR ''u'' # h @ b'"] exI [of _ r']) (auto intro: sb_hex)
    next
      case False
      then have d: "strchr_esc d" "acc g s''" using e s' acc_E [OF inst_move [OF 1(2)]] same by auto
      with IH [of s''] s s' obtain b' r' where "s'' = b' @ QUOTE # r'" "strbody b'" "acc (g\<lparr>st := F\<rparr>) r'"
        by auto
      then show ?thesis using s s' b d
        by (intro exI [of _ "BSL # d # b'"] exI [of _ r']) (auto intro: sb_esc)
    qed
  qed
qed

end

interpretation vstr: string_states J_STR J_STR_ESC J_STR_U1 J_STR_U2 J_STR_U3 J_STR_U4 J_AFTER_VAL
  by unfold_locales (simp_all add: step_def)

interpretation kstr: string_states J_KEYSTR J_KEYESC J_KEY_U1 J_KEY_U2 J_KEY_U3 J_KEY_U4 J_KEYCOLON
  by unfold_locales (simp_all add: step_def)

section \<open>Numbers\<close>

lemma char_classes:
  "is_digit c \<Longrightarrow> \<not> num_ends c" "is_digit19 c \<Longrightarrow> is_digit c"
  "is_digit c \<Longrightarrow> c \<noteq> CHR ''.'' \<and> c \<noteq> CHR ''e'' \<and> c \<noteq> CHR ''E'' \<and> c \<noteq> CHR ''+'' \<and> c \<noteq> CHR ''-''"
  "num_ends c \<Longrightarrow> c \<noteq> CHR ''.'' \<and> c \<noteq> CHR ''e'' \<and> c \<noteq> CHR ''E''"
  "\<not> is_digit19 (CHR ''0'')"
  by (auto simp: is_digit_def is_digit19_def in_range_def num_ends_def is_ws_def less_eq_char_def)

abbreviation to_st :: "st \<Rightarrow> grammar \<Rightarrow> grammar" where "to_st s g \<equiv> g\<lparr>st := s\<rparr>"

lemma acc_after_first: "inst J_AFTER_VAL k g \<Longrightarrow> acc g (c # s) \<Longrightarrow> num_ends c"
  by (auto simp: inst_def acc_Cons step_def after_val_step_def num_ends_def split: if_splits)

lemma acc_after_nonempty: "inst J_AFTER_VAL k g \<Longrightarrow> acc g s \<Longrightarrow> s \<noteq> []"
  by (auto simp: inst_def)

lemma acc_num:
  "inst J_NUM_MINUS k g \<Longrightarrow> acc g (c # s) \<longleftrightarrow>
     (if c = CHR ''0'' then acc (to_st J_NUM_ZERO g) s else is_digit19 c \<and> acc (to_st J_NUM_INT g) s)"
  "inst J_NUM_ZERO k g \<Longrightarrow> acc g (c # s) \<longleftrightarrow>
     (if c = CHR ''.'' then acc (to_st J_NUM_DOT g) s
      else if c = CHR ''e'' \<or> c = CHR ''E'' then acc (to_st J_NUM_E g) s
      else num_ends c \<and> acc (to_st J_AFTER_VAL g) (c # s))"
  "inst J_NUM_INT k g \<Longrightarrow> acc g (c # s) \<longleftrightarrow>
     (if is_digit c then acc g s else if c = CHR ''.'' then acc (to_st J_NUM_DOT g) s
      else if c = CHR ''e'' \<or> c = CHR ''E'' then acc (to_st J_NUM_E g) s
      else num_ends c \<and> acc (to_st J_AFTER_VAL g) (c # s))"
  "inst J_NUM_DOT k g \<Longrightarrow> acc g (c # s) \<longleftrightarrow> is_digit c \<and> acc (to_st J_NUM_FRAC g) s"
  "inst J_NUM_FRAC k g \<Longrightarrow> acc g (c # s) \<longleftrightarrow>
     (if is_digit c then acc g s else if c = CHR ''e'' \<or> c = CHR ''E'' then acc (to_st J_NUM_E g) s
      else num_ends c \<and> acc (to_st J_AFTER_VAL g) (c # s))"
  "inst J_NUM_E k g \<Longrightarrow> acc g (c # s) \<longleftrightarrow>
     (if c = CHR ''+'' \<or> c = CHR ''-'' then acc (to_st J_NUM_ESIGN g) s
      else is_digit c \<and> acc (to_st J_NUM_EXP g) s)"
  "inst J_NUM_ESIGN k g \<Longrightarrow> acc g (c # s) \<longleftrightarrow> is_digit c \<and> acc (to_st J_NUM_EXP g) s"
  "inst J_NUM_EXP k g \<Longrightarrow> acc g (c # s) \<longleftrightarrow>
     (if is_digit c then acc g s else num_ends c \<and> acc (to_st J_AFTER_VAL g) (c # s))"
  by (auto simp: inst_def acc_Cons step_def goto_def num_end_redispatch_def)

lemma acc_num_Nil:
  "st g \<in> {J_NUM_MINUS, J_NUM_ZERO, J_NUM_INT, J_NUM_DOT, J_NUM_FRAC, J_NUM_E, J_NUM_ESIGN, J_NUM_EXP} \<Longrightarrow>
     \<not> acc g []"
  by auto

text \<open>Recognisers for what is left of a number, one per state, without the delimiter.\<close>

fun r_e :: "string \<Rightarrow> bool" where
  "r_e [] = False"
| "r_e (c # s) = (if c = CHR ''+'' \<or> c = CHR ''-'' then digits1 s else is_digit c \<and> list_all is_digit s)"

fun r_frac :: "string \<Rightarrow> bool" where
  "r_frac [] = True"
| "r_frac (c # s) = (if is_digit c then r_frac s else (c = CHR ''e'' \<or> c = CHR ''E'') \<and> r_e s)"

fun r_dot :: "string \<Rightarrow> bool" where
  "r_dot [] = False"
| "r_dot (c # s) = (is_digit c \<and> r_frac s)"

fun r_zero :: "string \<Rightarrow> bool" where
  "r_zero [] = True"
| "r_zero (c # s) = (if c = CHR ''.'' then r_dot s else (c = CHR ''e'' \<or> c = CHR ''E'') \<and> r_e s)"

fun r_int :: "string \<Rightarrow> bool" where
  "r_int [] = True"
| "r_int (c # s) = (if is_digit c then r_int s else r_zero (c # s))"

fun r_minus :: "string \<Rightarrow> bool" where
  "r_minus [] = False"
| "r_minus (c # s) = (if c = CHR ''0'' then r_zero s else is_digit19 c \<and> r_int s)"

text \<open>
  \<open>tail_of P g s\<close>: the input starts with a string of the class \<open>P\<close>, and the value is complete
  after it.  A number is delimited by the byte that follows it, which is read again.
\<close>

definition tail_of :: "(string \<Rightarrow> bool) \<Rightarrow> grammar \<Rightarrow> string \<Rightarrow> bool" where
  "tail_of P g s \<longleftrightarrow> (\<exists>p r. s = p @ r \<and> P p \<and> acc (to_st J_AFTER_VAL g) r)"

definition numlike :: "(string \<Rightarrow> bool) \<Rightarrow> bool" where
  "numlike P \<longleftrightarrow> (\<forall>c p. num_ends c \<longrightarrow> \<not> P (c # p))"

lemma num_ends_chars [simp]:
  "\<not> num_ends (CHR ''.'')" "\<not> num_ends (CHR ''e'')" "\<not> num_ends (CHR ''E'')"
  "\<not> num_ends (CHR ''+'')" "\<not> num_ends (CHR ''-'')"
  by (simp_all add: num_ends_def is_ws_def)

lemma num_ends_not: "num_ends c \<Longrightarrow> \<not> is_digit c \<and> c \<noteq> CHR ''.'' \<and> c \<noteq> CHR ''e'' \<and> c \<noteq> CHR ''E'' \<and>
    c \<noteq> CHR ''+'' \<and> c \<noteq> CHR ''-''"
  using char_classes(1,4) num_ends_chars by blast

lemma numlike_all:
  "numlike (list_all is_digit)" "numlike digits1" "numlike r_e" "numlike r_frac" "numlike r_dot"
  "numlike r_zero" "numlike r_int"
  by (simp_all add: numlike_def digits1_def num_ends_not)

lemma tail_of_Nil [simp]: "\<not> dead g \<Longrightarrow> \<not> tail_of P g []"
  by (simp add: tail_of_def)

lemma tail_of_False [simp]: "\<not> tail_of (\<lambda>p. False) g s"
  by (simp add: tail_of_def)

lemma tail_of_conj [simp]: "tail_of (\<lambda>p. Q \<and> P p) g s \<longleftrightarrow> Q \<and> tail_of P g s"
  by (auto simp: tail_of_def)

lemma tail_of_Cons:
  assumes "\<not> dead g" "numlike P"
  shows "tail_of P g (c # s) \<longleftrightarrow>
    (if num_ends c then P [] \<and> acc (to_st J_AFTER_VAL g) (c # s) else tail_of (\<lambda>p. P (c # p)) g s)"
proof (cases "num_ends c")
  case True
  then have "\<not> P (c # p)" for p using assms(2) by (auto simp: numlike_def)
  with True show ?thesis by (auto simp: tail_of_def Cons_eq_append_conv)
next
  case False
  then have "\<not> acc (to_st J_AFTER_VAL g) (c # s)"
    using acc_after_first [of "stack g" "to_st J_AFTER_VAL g" c s] assms(1) by (auto simp: inst_def)
  with False show ?thesis by (auto simp: tail_of_def Cons_eq_append_conv)
qed

lemma inst_to_st: "inst s k g \<Longrightarrow> inst s' k (to_st s' g)" "inst s k g \<Longrightarrow> \<not> dead g"
  by (simp_all add: inst_def)

lemma tail_of_to_st [simp]: "tail_of P (to_st s g) = tail_of P g"
  by (simp add: tail_of_def fun_eq_iff)

lemma num_exp: "inst J_NUM_EXP k g \<Longrightarrow> acc g s \<longleftrightarrow> tail_of (list_all is_digit) g s"
proof (induction s)
  case (Cons c s)
  then show ?case
    using char_classes(1) [of c]
    by (cases "is_digit c") (simp_all add: acc_num(8) tail_of_Cons numlike_all inst_to_st(2))
qed (simp add: inst_def)

lemma num_esign: "inst J_NUM_ESIGN k g \<Longrightarrow> acc g s \<longleftrightarrow> tail_of digits1 g s"
  using num_exp [OF inst_to_st(1)] char_classes(1)
  by (cases s) (auto simp: acc_num(7) tail_of_Cons numlike_all inst_to_st(2) digits1_def inst_def)

lemma num_e: "inst J_NUM_E k g \<Longrightarrow> acc g s \<longleftrightarrow> tail_of r_e g s"
  using num_exp [OF inst_to_st(1)] num_esign [OF inst_to_st(1)] char_classes(1)
  by (cases s) (auto simp: acc_num(6) tail_of_Cons numlike_all inst_to_st(2) inst_def num_ends_not)

lemma num_frac: "inst J_NUM_FRAC k g \<Longrightarrow> acc g s \<longleftrightarrow> tail_of r_frac g s"
proof (induction s)
  case (Cons c s)
  then show ?case
    using num_e [OF inst_to_st(1) [OF Cons.prems]] char_classes(1) [of c]
    by (cases "is_digit c"; cases "num_ends c")
      (auto simp: acc_num(5) tail_of_Cons numlike_all inst_to_st(2) num_ends_not)
qed (simp add: inst_def)

lemma num_dot: "inst J_NUM_DOT k g \<Longrightarrow> acc g s \<longleftrightarrow> tail_of r_dot g s"
  using num_frac [OF inst_to_st(1)] char_classes(1)
  by (cases s) (auto simp: acc_num(4) tail_of_Cons numlike_all inst_to_st(2) inst_def num_ends_not)

lemma num_zero: "inst J_NUM_ZERO k g \<Longrightarrow> acc g s \<longleftrightarrow> tail_of r_zero g s"
  using num_dot [OF inst_to_st(1)] num_e [OF inst_to_st(1)] char_classes(4)
  by (cases s) (auto simp: acc_num(2) tail_of_Cons numlike_all inst_to_st(2) inst_def num_ends_not)

lemma num_int: "inst J_NUM_INT k g \<Longrightarrow> acc g s \<longleftrightarrow> tail_of r_int g s"
proof (induction s)
  case (Cons c s)
  then show ?case
    using num_e [OF inst_to_st(1) [OF Cons.prems]] num_dot [OF inst_to_st(1) [OF Cons.prems]]
      char_classes(1,3) [of c]
    by (cases "is_digit c"; cases "num_ends c")
      (auto simp: acc_num(3) tail_of_Cons numlike_all inst_to_st(2) num_ends_not)
qed (simp add: inst_def)

lemma num_minus: "inst J_NUM_MINUS k g \<Longrightarrow> acc g s \<longleftrightarrow> tail_of r_minus g s"
proof -
  assume i: "inst J_NUM_MINUS k g"
  have n: "numlike r_minus" using char_classes(1,2) by (auto simp: numlike_def num_ends_def is_ws_def)
  show ?thesis
    using num_zero [OF inst_to_st(1) [OF i]] num_int [OF inst_to_st(1) [OF i]] i n
      char_classes(1) [OF char_classes(2)]
    by (cases s) (auto simp: acc_num(1) tail_of_Cons inst_to_st(2) inst_def num_ends_def is_ws_def)
qed

text \<open>The recognisers and the reference grammar agree.\<close>

lemma split_first:
  "(\<exists>p r. c # s = p @ r \<and> P p \<and> Q r) \<longleftrightarrow> P [] \<and> Q (c # s) \<or> (\<exists>p r. s = p @ r \<and> P (c # p) \<and> Q r)"
  by (auto simp: Cons_eq_append_conv)

lemma is_digit_chars [simp]:
  "\<not> is_digit (CHR ''.'')" "\<not> is_digit (CHR ''e'')" "\<not> is_digit (CHR ''E'')"
  "\<not> is_digit (CHR ''+'')" "\<not> is_digit (CHR ''-'')"
  using char_classes(3) by blast+

lemma r_e_exp_part: "exp_part (c # s) \<longleftrightarrow> (c = CHR ''e'' \<or> c = CHR ''E'') \<and> r_e s"
proof
  assume "exp_part (c # s)"
  then show "(c = CHR ''e'' \<or> c = CHR ''E'') \<and> r_e s"
    by (cases s) (auto simp: exp_part_def digits1_def Cons_eq_append_conv)
next
  assume a: "(c = CHR ''e'' \<or> c = CHR ''E'') \<and> r_e s"
  then obtain d s' where s: "s = d # s'" by (cases s) auto
  show "exp_part (c # s)"
  proof (cases "d = CHR ''+'' \<or> d = CHR ''-''")
    case True
    with a s show ?thesis
      unfolding exp_part_def by (intro disjI2 exI [of _ c] exI [of _ "[d]"] exI [of _ s']) auto
  next
    case False
    with a s show ?thesis
      unfolding exp_part_def by (intro disjI2 exI [of _ c] exI [of _ "[]"] exI [of _ s]) (auto simp: digits1_def)
  qed
qed

lemma exp_part_Nil [simp]: "exp_part []" "frac_part []"
  by (simp_all add: exp_part_def frac_part_def)

lemma r_frac_iff: "r_frac s \<longleftrightarrow> (\<exists>ds e. s = ds @ e \<and> list_all is_digit ds \<and> exp_part e)"
proof (induction s)
  case Nil
  then show ?case by simp
next
  case (Cons c s)
  show ?case
  proof (cases "is_digit c")
    case True
    then have "\<not> exp_part (c # s)" using char_classes(3) [of c] by (auto simp: r_e_exp_part)
    with True Cons show ?thesis unfolding split_first by simp
  next
    case False
    then show ?thesis unfolding split_first by (simp add: r_e_exp_part)
  qed
qed

lemma r_dot_iff: "r_dot s \<longleftrightarrow> (\<exists>ds e. s = ds @ e \<and> digits1 ds \<and> exp_part e)"
proof (cases s)
  case (Cons c s')
  show ?thesis unfolding Cons r_dot.simps r_frac_iff
    unfolding split_first by (simp add: digits1_def) blast
qed (auto simp: digits1_def)

lemma r_zero_iff: "r_zero s \<longleftrightarrow> (\<exists>f e. s = f @ e \<and> frac_part f \<and> exp_part e)"
proof (cases s)
  case (Cons c s')
  have "\<not> exp_part (CHR ''.'' # s')" by (simp add: r_e_exp_part)
  then show ?thesis unfolding Cons r_zero.simps r_dot_iff
    unfolding split_first by (auto simp: frac_part_def r_e_exp_part)
qed auto

lemma r_int_iff: "r_int s \<longleftrightarrow> (\<exists>ds r. s = ds @ r \<and> list_all is_digit ds \<and> r_zero r)"
proof (induction s)
  case Nil
  then show ?case by simp
next
  case (Cons c s)
  show ?case
  proof (cases "is_digit c")
    case True
    then have "\<not> r_zero (c # s)" using char_classes(3) [of c] by auto
    with True Cons show ?thesis unfolding split_first by simp
  next
    case False
    then show ?thesis unfolding split_first by simp
  qed
qed

lemma r_minus_iff: "r_minus s \<longleftrightarrow> (\<exists>i f e. s = i @ f @ e \<and> int_part i \<and> frac_part f \<and> exp_part e)"
proof (cases s)
  case (Cons c s')
  have "(\<exists>i r. c # s' = i @ r \<and> int_part i \<and> r_zero r) \<longleftrightarrow> r_minus (c # s')"
    unfolding split_first using char_classes(5)
    by (auto simp: int_part_def r_int_iff)
  then show ?thesis unfolding Cons by (auto simp: r_zero_iff)
qed (auto simp: int_part_def)

lemma jnumber_iff: "jnumber s \<longleftrightarrow> r_minus s \<or> (\<exists>s'. s = CHR ''-'' # s' \<and> r_minus s')"
proof -
  have "jnumber s \<longleftrightarrow> (\<exists>m r. (m = [] \<or> m = ''-'') \<and> s = m @ r \<and> r_minus r)"
    unfolding jnumber_def r_minus_iff by blast
  also have "\<dots> \<longleftrightarrow> (\<exists>r. s = [] @ r \<and> r_minus r) \<or> (\<exists>r. s = ''-'' @ r \<and> r_minus r)" by blast
  finally show ?thesis by simp
qed

section \<open>Whitespace, literals and structure\<close>

definition ws_states :: "st set" where
  "ws_states = {WS_OBJ_OPEN, KEY_OPEN_Q, KEY_COLON, NAME_OPEN_Q, ARG_COMMA, ARGKEY_OPEN_Q, ARGS_COLON,
     J_VALUE, J_VALUE_REQ, J_KEY, J_KEY_REQ, J_KEYCOLON, J_AFTER_VAL, OBJ_CLOSE, DONE}"

lemma step_ws: "st g \<in> ws_states \<Longrightarrow> is_ws c \<Longrightarrow> step g c = (True, g)"
  unfolding ws_states_def
  by (elim insertE emptyE) (simp_all only: step_def st.case expect_def after_val_step_def if_True)

lemma acc_ws: "st g \<in> ws_states \<Longrightarrow> \<not> dead g \<Longrightarrow> ws w \<Longrightarrow> acc g (w @ s) = acc g s"
  by (induction w) (auto simp: acc_Cons step_ws)

lemma ws_split: "\<exists>w s'. s = w @ s' \<and> ws w \<and> (s' = [] \<or> \<not> is_ws (hd s'))"
proof (intro exI conjI)
  show "s = takeWhile is_ws s @ dropWhile is_ws s" by simp
  show "ws (takeWhile is_ws s)" by (auto simp: list_all_iff dest: set_takeWhileD)
  show "dropWhile is_ws s = [] \<or> \<not> is_ws (hd (dropWhile is_ws s))" using hd_dropWhile by blast
qed

text \<open>\<open>can s k r\<close>: some live machine in state \<open>s\<close> with stack \<open>k\<close> accepts \<open>r\<close>; \<open>must\<close>: all do.\<close>

definition can :: "st \<Rightarrow> string \<Rightarrow> string \<Rightarrow> bool" where
  "can s k r \<longleftrightarrow> (\<exists>g. inst s k g \<and> acc g r)"

definition must :: "st \<Rightarrow> string \<Rightarrow> string \<Rightarrow> bool" where
  "must s k r \<longleftrightarrow> (\<forall>g. inst s k g \<longrightarrow> acc g r)"

definition close_st :: "string \<Rightarrow> st" where
  "close_st k = (if k = [] then OBJ_CLOSE else J_AFTER_VAL)"

lemma canI: "acc g r \<Longrightarrow> st g = s \<Longrightarrow> stack g = k \<Longrightarrow> \<not> dead g \<Longrightarrow> can s k r"
  by (auto simp: can_def inst_def)

lemma can_ws:
  assumes "can s k r" "s \<in> ws_states" "s \<noteq> DONE"
  shows "\<exists>w c r'. r = w @ c # r' \<and> ws w \<and> \<not> is_ws c \<and> can s k (c # r')"
proof -
  obtain g where g: "inst s k g" "acc g r" using assms(1) by (auto simp: can_def)
  obtain w s' where w: "r = w @ s'" "ws w" "s' = [] \<or> \<not> is_ws (hd s')" using ws_split by blast
  have a: "acc g s'" using acc_ws [of g w s'] g w assms(2) by (simp add: inst_def)
  moreover from this have "s' \<noteq> []" using g assms(3) by (auto simp: inst_def)
  ultimately show ?thesis using w g by (cases s') (auto simp: can_def)
qed

lemma must_ws: "must s k r \<Longrightarrow> s \<in> ws_states \<Longrightarrow> ws w \<Longrightarrow> must s k (w @ r)"
  by (auto simp: must_def inst_def acc_ws)

lemma literal_sound:
  "acc g s \<Longrightarrow> st g = J_LIT \<Longrightarrow> \<not> dead g \<Longrightarrow> lit g < length (lit_word g) \<Longrightarrow>
     \<exists>r. s = drop (lit g) (lit_word g) @ r \<and> can J_AFTER_VAL (stack g) r"
proof (induction s arbitrary: g)
  case (Cons c s)
  let ?g = "g\<lparr>lit := lit g + 1\<rparr>"
  have c: "c = lit_word g ! lit g" using Cons.prems
    by (auto simp: acc_Cons step_def match_lit_def split: if_splits)
  show ?case
  proof (cases "Suc (lit g) = length (lit_word g)")
    case True
    then have "acc (?g\<lparr>st := J_AFTER_VAL\<rparr>) s" using Cons.prems
      by (auto simp: acc_Cons step_def match_lit_def Let_def split: if_splits)
    moreover have "drop (lit g) (lit_word g) = [c]"
      using True c Cons.prems(4) by (simp flip: Cons_nth_drop_Suc)
    ultimately show ?thesis using Cons.prems by (auto intro: canI)
  next
    case False
    then have "acc ?g s" using Cons.prems
      by (auto simp: acc_Cons step_def match_lit_def Let_def split: if_splits)
    then obtain r where "s = drop (lit ?g) (lit_word ?g) @ r" "can J_AFTER_VAL (stack ?g) r"
      using Cons.IH [of ?g] Cons.prems False by auto
    with c Cons.prems(4) show ?thesis by (auto simp flip: Cons_nth_drop_Suc)
  qed
qed simp

lemma literal_complete:
  "st g = J_LIT \<Longrightarrow> \<not> dead g \<Longrightarrow> lit g < length (lit_word g) \<Longrightarrow> must J_AFTER_VAL (stack g) r \<Longrightarrow>
     acc g (drop (lit g) (lit_word g) @ r)"
proof (induction "length (lit_word g) - lit g" arbitrary: g)
  case (Suc n)
  let ?g = "g\<lparr>lit := lit g + 1\<rparr>"
  have d: "drop (lit g) (lit_word g) = lit_word g ! lit g # drop (Suc (lit g)) (lit_word g)"
    using Suc.prems(3) by (simp add: Cons_nth_drop_Suc)
  show ?case
  proof (cases "Suc (lit g) = length (lit_word g)")
    case True
    then show ?thesis using Suc.prems d
      by (auto simp: acc_Cons step_def match_lit_def Let_def must_def inst_def)
  next
    case False
    then have "acc ?g (drop (lit ?g) (lit_word ?g) @ r)" using Suc by (intro Suc.hyps) auto
    then show ?thesis using Suc.prems d False
      by (auto simp: acc_Cons step_def match_lit_def Let_def)
  qed
qed simp

lemma after_sound:
  assumes "can J_AFTER_VAL (x # k) (c # s)" "\<not> is_ws c"
  shows "c = CHR '','' \<and> can (if x = CHR ''{'' then J_KEY_REQ else J_VALUE_REQ) (x # k) s \<or>
    c = CHR ''}'' \<and> x = CHR ''{'' \<and> can (close_st k) k s \<or>
    c = CHR '']'' \<and> x = CHR ''['' \<and> can (close_st k) k s"
proof -
  obtain g where g: "inst J_AFTER_VAL (x # k) g" "acc g (c # s)" using assms(1) by (auto simp: can_def)
  then show ?thesis using assms(2)
    by (auto simp: inst_def acc_Cons step_def after_val_step_def top_is_def pop_or_finish_def goto_def
        Let_def close_st_def split: if_splits intro: canI)
qed

text \<open>The seven ways a value can start.\<close>

definition starts :: "string \<Rightarrow> char \<Rightarrow> string \<Rightarrow> bool" where
  "starts k c s \<longleftrightarrow>
     c = CHR ''{'' \<and> can J_KEY (CHR ''{'' # k) s \<or> c = CHR ''['' \<and> can J_VALUE (CHR ''['' # k) s \<or>
     c = QUOTE \<and> can J_STR k s \<or> c = CHR ''-'' \<and> can J_NUM_MINUS k s \<or>
     c = CHR ''0'' \<and> can J_NUM_ZERO k s \<or> is_digit19 c \<and> can J_NUM_INT k s \<or>
     (\<exists>l r. (l = ''true'' \<or> l = ''false'' \<or> l = ''null'') \<and> c # s = l @ r \<and> can J_AFTER_VAL k r)"

lemma lit_case_sound:
  assumes "acc (g\<lparr>lit_word := c # l, lit := Suc 0, st := J_LIT\<rparr>) s" "\<not> dead g" "l \<noteq> []"
  shows "\<exists>r. s = l @ r \<and> can J_AFTER_VAL (stack g) r"
  using literal_sound [OF assms(1)] assms(2,3) by auto

lemma value_start_sound:
  assumes "value_start g c allow = (True, g')" "acc g' s" "\<not> dead g" "stack g = k"
  shows "starts k c s \<or> allow \<and> c = CHR '']'' \<and> k \<noteq> [] \<and> hd k = CHR ''['' \<and> can (close_st (tl k)) (tl k) s"
proof -
  note v = assms(1) [unfolded value_start_def]
  consider "c \<in> {CHR ''{'', CHR ''['', QUOTE, CHR ''-'', CHR ''0''}" | "is_digit19 c"
    | (t) "c = CHR ''t''" | (f) "c = CHR ''f''" | (n) "c = CHR ''n''"
    | (cl) "allow" "c = CHR '']''" "top_is g (CHR ''['')"
    using v by (auto split: if_splits)
  then show ?thesis
  proof cases
    case t
    then have "g' = g\<lparr>lit_word := ''true'', lit := Suc 0, st := J_LIT\<rparr>"
      using v by (auto simp: lit_start_def is_digit19_def in_range_def less_eq_char_def)
    with lit_case_sound [where g = g and s = s and c = "CHR ''t''" and l = "''rue''"] assms t show ?thesis by (auto simp: starts_def)
  next
    case f
    then have "g' = g\<lparr>lit_word := ''false'', lit := Suc 0, st := J_LIT\<rparr>"
      using v by (auto simp: lit_start_def is_digit19_def in_range_def less_eq_char_def)
    with lit_case_sound [where g = g and s = s and c = "CHR ''f''" and l = "''alse''"] assms f show ?thesis by (auto simp: starts_def)
  next
    case n
    then have "g' = g\<lparr>lit_word := ''null'', lit := Suc 0, st := J_LIT\<rparr>"
      using v by (auto simp: lit_start_def is_digit19_def in_range_def less_eq_char_def)
    with lit_case_sound [where g = g and s = s and c = "CHR ''n''" and l = "''ull''"] assms n show ?thesis by (auto simp: starts_def)
  next
    case cl
    then have "pop_or_finish g = (True, g')"
      using v by (auto simp: is_digit19_def in_range_def less_eq_char_def)
    with cl assms show ?thesis
      by (auto simp: pop_or_finish_def goto_def Let_def top_is_def close_st_def split: if_splits intro: canI)
  qed (use v assms in \<open>auto simp: starts_def goto_def is_digit19_def in_range_def less_eq_char_def
       intro: canI split: if_splits\<close>)
qed

lemma value_req_sound:
  assumes "can J_VALUE_REQ k (c # s)" "\<not> is_ws c"
  shows "starts k c s"
proof -
  obtain g where g: "inst J_VALUE_REQ k g" "acc g (c # s)" using assms(1) by (auto simp: can_def)
  then obtain g' where "value_start g c False = (True, g')" "acc g' s"
    using assms(2) by (auto simp: inst_def acc_Cons step_def)
  from value_start_sound [OF this] g show ?thesis by (auto simp: inst_def)
qed

lemma starts_req:
  assumes "\<not> is_ws c" "k \<noteq> []" "inst J_VALUE k g" "value_start g c True = (True, g')" "acc g' s"
  shows "can J_VALUE_REQ k (c # s) \<or> c = CHR '']'' \<and> hd k = CHR ''['' \<and> can (close_st (tl k)) (tl k) s"
proof (cases "c = CHR '']'' \<and> top_is g (CHR ''['')")
  case True
  then show ?thesis using assms value_start_sound [OF assms(4,5)]
    by (auto simp: inst_def starts_def is_digit19_def in_range_def less_eq_char_def)
next
  case False
  let ?h = "to_st J_VALUE_REQ g"
  have eq: "value_start ?h c False = (True, g')"
    using assms(4) False by (auto simp: value_start_def goto_def lit_start_def split: if_splits)
  have "acc ?h (c # s)" using assms(1,3,5) eq by (auto simp: acc_Cons step_def inst_def)
  with assms(3) show ?thesis by (auto simp: inst_def intro: canI)
qed

lemma value_sound:
  assumes "can J_VALUE k s" "k \<noteq> []"
  shows "can J_VALUE_REQ k s \<or>
    (\<exists>w r. s = w @ CHR '']'' # r \<and> ws w \<and> hd k = CHR ''['' \<and> can (close_st (tl k)) (tl k) r)"
proof -
  obtain w c r where w: "s = w @ c # r" "ws w" "\<not> is_ws c" "can J_VALUE k (c # r)"
    using can_ws [OF assms(1)] by (auto simp: ws_states_def)
  then obtain g where g: "inst J_VALUE k g" "acc g (c # r)" by (auto simp: can_def)
  then obtain g' where "value_start g c True = (True, g')" "acc g' r"
    using w(3) assms(2) by (auto simp: inst_def acc_Cons step_def)
  from starts_req [OF w(3) assms(2) g(1) this] consider "can J_VALUE_REQ k (c # r)"
    | "c = CHR '']''" "hd k = CHR ''[''" "can (close_st (tl k)) (tl k) r" by blast
  then show ?thesis
  proof cases
    case 1
    then obtain h where "inst J_VALUE_REQ k h" "acc h (c # r)" by (auto simp: can_def)
    then have "can J_VALUE_REQ k s"
      using acc_ws [of h w "c # r"] w by (auto simp: inst_def ws_states_def can_def)
    then show ?thesis by blast
  next
    case 2
    with w show ?thesis by auto
  qed
qed

lemma key_sound:
  assumes "can J_KEY (CHR ''{'' # k) s"
  shows "can J_KEY_REQ (CHR ''{'' # k) s \<or> (\<exists>w r. s = w @ CHR ''}'' # r \<and> ws w \<and> can (close_st k) k r)"
proof -
  obtain w c r where w: "s = w @ c # r" "ws w" "\<not> is_ws c" "can J_KEY (CHR ''{'' # k) (c # r)"
    using can_ws [OF assms(1)] by (auto simp: ws_states_def)
  then obtain g where g: "inst J_KEY (CHR ''{'' # k) g" "acc g (c # r)" by (auto simp: can_def)
  show ?thesis
  proof (cases "c = QUOTE")
    case True
    have "acc (to_st J_KEYSTR g) r" using g w(3) True by (auto simp: inst_def acc_Cons step_def goto_def)
    then have "acc (to_st J_KEY_REQ g) (c # r)"
      using True g w(3) by (auto simp: inst_def acc_Cons step_def expect_def)
    then have "acc (to_st J_KEY_REQ g) s" using acc_ws [of "to_st J_KEY_REQ g" w "c # r"] w g
      by (auto simp: inst_def ws_states_def)
    then show ?thesis using g by (auto simp: inst_def intro: canI)
  next
    case False
    then have "c = CHR ''}'' \<and> can (close_st k) k r" using g w(3)
      by (auto simp: inst_def acc_Cons step_def top_is_def pop_or_finish_def goto_def Let_def close_st_def
          split: if_splits intro: canI)
    with w(1,2) show ?thesis by blast
  qed
qed

section \<open>Soundness: what the machine accepts is JSON\<close>

lemma can_num:
  "can J_NUM_MINUS k s \<Longrightarrow> \<exists>p r. s = p @ r \<and> r_minus p \<and> can J_AFTER_VAL k r"
  "can J_NUM_ZERO k s \<Longrightarrow> \<exists>p r. s = p @ r \<and> r_zero p \<and> can J_AFTER_VAL k r"
  "can J_NUM_INT k s \<Longrightarrow> \<exists>p r. s = p @ r \<and> r_int p \<and> can J_AFTER_VAL k r"
  using num_minus num_zero num_int
  by (fastforce simp: can_def tail_of_def intro: inst_to_st(1))+

lemma can_str:
  "can J_STR k s \<Longrightarrow> \<exists>b r. s = b @ QUOTE # r \<and> strbody b \<and> can J_AFTER_VAL k r"
  "can J_KEYSTR k s \<Longrightarrow> \<exists>b r. s = b @ QUOTE # r \<and> strbody b \<and> can J_KEYCOLON k r"
  using vstr.string_sound kstr.string_sound
  by (fastforce simp: can_def intro: inst_to_st(1))+

lemma expect_can:
  assumes "can s k (c # r)" "\<not> is_ws c" "\<And>g. st g = s \<Longrightarrow> step g c = expect g c x (to_st s' g)"
  shows "c = x \<and> can s' k r"
proof -
  obtain g where g: "st g = s" "stack g = k" "\<not> dead g" "acc g (c # r)"
    using assms(1) by (auto simp: can_def inst_def)
  then have "c = x" "acc (to_st s' g) r"
    using assms(2,3) by (auto simp: acc_Cons expect_def split: if_splits)
  with g show ?thesis by (auto intro: canI)
qed

lemma key_req_sound:
  assumes "can J_KEY_REQ k s"
  shows "\<exists>w1 b w2 r. s = w1 @ QUOTE # b @ QUOTE # w2 @ CHR '':'' # r \<and> ws w1 \<and> strbody b \<and> ws w2 \<and>
    can J_VALUE k r"
proof -
  obtain w1 c s1 where w1: "s = w1 @ c # s1" "ws w1" "\<not> is_ws c" "can J_KEY_REQ k (c # s1)"
    using can_ws [OF assms] by (auto simp: ws_states_def)
  have c: "c = QUOTE" "can J_KEYSTR k s1"
    using expect_can [OF w1(4,3), of QUOTE J_KEYSTR] by (simp_all add: step_def)
  then obtain b s2 where b: "s1 = b @ QUOTE # s2" "strbody b" "can J_KEYCOLON k s2"
    using can_str(2) by blast
  obtain w2 d r where w2: "s2 = w2 @ d # r" "ws w2" "\<not> is_ws d" "can J_KEYCOLON k (d # r)"
    using can_ws [OF b(3)] by (auto simp: ws_states_def)
  have "d = CHR '':''" "can J_VALUE k r"
    using expect_can [OF w2(4,3), of "CHR '':''" J_VALUE] by (simp_all add: step_def)
  with w1 c b w2 show ?thesis by auto
qed

text \<open>One induction on the length of the input for values, members and elements.\<close>

definition value_ok :: "string \<Rightarrow> bool" where
  "value_ok s \<longleftrightarrow> (\<forall>k. k \<noteq> [] \<longrightarrow> can J_VALUE_REQ k s \<longrightarrow>
     (\<exists>w v r. s = w @ v @ r \<and> ws w \<and> jval v \<and> v \<noteq> [] \<and> can J_AFTER_VAL k r))"

lemma value_okD: "value_ok s \<Longrightarrow> can J_VALUE_REQ (x # k) s \<Longrightarrow>
    \<exists>w v r. s = w @ v @ r \<and> ws w \<and> jval v \<and> v \<noteq> [] \<and> can J_AFTER_VAL (x # k) r"
  unfolding value_ok_def by (metis list.distinct(1))

definition members_ok :: "string \<Rightarrow> bool" where
  "members_ok s \<longleftrightarrow> (\<forall>k. can J_KEY_REQ (CHR ''{'' # k) s \<longrightarrow>
     (\<exists>m r. s = m @ CHR ''}'' # r \<and> jmems m \<and> can (close_st k) k r))"

definition elements_ok :: "string \<Rightarrow> bool" where
  "elements_ok s \<longleftrightarrow> (\<forall>k. can J_VALUE_REQ (CHR ''['' # k) s \<longrightarrow>
     (\<exists>e r. s = e @ CHR '']'' # r \<and> jelems e \<and> can (close_st k) k r))"

lemma object_tail:
  assumes "can J_KEY (CHR ''{'' # k) s" "members_ok s"
  shows "\<exists>m r. s = m @ CHR ''}'' # r \<and> (ws m \<or> jmems m) \<and> can (close_st k) k r"
  using key_sound [OF assms(1)] assms(2) unfolding members_ok_def by blast

lemma value_ok_step:
  assumes IH: "\<And>s'. length s' < length s \<Longrightarrow> members_ok s' \<and> elements_ok s'"
  shows "value_ok s"
  unfolding value_ok_def
proof (intro allI impI)
  fix k assume k: "k \<noteq> []" and can: "can J_VALUE_REQ k s"
  obtain w c s1 where w: "s = w @ c # s1" "ws w" "\<not> is_ws c" "can J_VALUE_REQ k (c # s1)"
    using can_ws [OF can] by (auto simp: ws_states_def)
  have IH1: "members_ok s1" "elements_ok s1" using IH [of s1] w(1) by auto
  have close: "close_st k = J_AFTER_VAL" using k by (simp add: close_st_def)
  have lit: "\<exists>v r. c # s1 = v @ r \<and> jval v \<and> v \<noteq> [] \<and> can J_AFTER_VAL k r"
    if "l = ''true'' \<or> l = ''false'' \<or> l = ''null''" "c # s1 = l @ r" "can J_AFTER_VAL k r" for l r
    using that by (intro exI [of _ l] exI [of _ r]) (auto intro: jv_lit)
  have "\<exists>v r. c # s1 = v @ r \<and> jval v \<and> v \<noteq> [] \<and> can J_AFTER_VAL k r"
    using value_req_sound [OF w(4,3)] unfolding starts_def
  proof (elim disjE conjE exE)
    assume c: "c = CHR ''{''" and "can J_KEY (CHR ''{'' # k) s1"
    from object_tail [OF this(2) IH1(1)] obtain m r where "s1 = m @ CHR ''}'' # r" "ws m \<or> jmems m"
      "can J_AFTER_VAL k r" using close by auto
    then show ?thesis using c
      by (intro exI [of _ "CHR ''{'' # m @ ''}''"] exI [of _ r]) (auto intro: jv_obj0 jv_obj)
  next
    assume c: "c = CHR ''[''" and a: "can J_VALUE (CHR ''['' # k) s1"
    from value_sound [OF a] IH1(2) close obtain e r where "s1 = e @ CHR '']'' # r" "ws e \<or> jelems e"
      "can J_AFTER_VAL k r" unfolding elements_ok_def by auto
    then show ?thesis using c
      by (intro exI [of _ "CHR ''['' # e @ '']''"] exI [of _ r]) (auto intro: jv_arr0 jv_arr)
  next
    assume c: "c = QUOTE" and "can J_STR k s1"
    from can_str(1) [OF this(2)] obtain b r where "s1 = b @ QUOTE # r" "strbody b" "can J_AFTER_VAL k r" by auto
    then show ?thesis using c
      by (intro exI [of _ "QUOTE # b @ [QUOTE]"] exI [of _ r]) (auto intro: jv_str)
  next
    assume c: "c = CHR ''-''" and "can J_NUM_MINUS k s1"
    from can_num(1) [OF this(2)] obtain p r where "s1 = p @ r" "r_minus p" "can J_AFTER_VAL k r" by auto
    then show ?thesis using c
      by (intro exI [of _ "CHR ''-'' # p"] exI [of _ r]) (auto intro!: jv_num simp: jnumber_iff)
  next
    assume c: "c = CHR ''0''" and "can J_NUM_ZERO k s1"
    from can_num(2) [OF this(2)] obtain p r where "s1 = p @ r" "r_zero p" "can J_AFTER_VAL k r" by auto
    then show ?thesis using c
      by (intro exI [of _ "CHR ''0'' # p"] exI [of _ r]) (auto intro!: jv_num simp: jnumber_iff)
  next
    assume c: "is_digit19 c" and "can J_NUM_INT k s1"
    from can_num(3) [OF this(2)] obtain p r where "s1 = p @ r" "r_int p" "can J_AFTER_VAL k r" by auto
    then show ?thesis using c char_classes(5)
      by (intro exI [of _ "c # p"] exI [of _ r]) (auto intro!: jv_num simp: jnumber_iff)
  qed (blast intro: lit)+
  then show "\<exists>w v r. s = w @ v @ r \<and> ws w \<and> jval v \<and> v \<noteq> [] \<and> can J_AFTER_VAL k r"
    using w(1,2) by metis
qed

lemma members_ok_step:
  assumes IH: "\<And>s'. length s' < length s \<Longrightarrow> value_ok s' \<and> members_ok s'"
  shows "members_ok s"
  unfolding members_ok_def
proof (intro allI impI)
  fix k assume "can J_KEY_REQ (CHR ''{'' # k) s"
  from key_req_sound [OF this] obtain w1 b w2 s1 where
    s: "s = w1 @ QUOTE # b @ QUOTE # w2 @ CHR '':'' # s1" "ws w1" "strbody b" "ws w2"
    and v: "can J_VALUE (CHR ''{'' # k) s1" by blast
  have "can J_VALUE_REQ (CHR ''{'' # k) s1" using value_sound [OF v] by auto
  moreover have "value_ok s1" using IH [of s1] s(1) by simp
  ultimately obtain w3 x s2 where x: "s1 = w3 @ x @ s2" "ws w3" "jval x" "x \<noteq> []"
    and a: "can J_AFTER_VAL (CHR ''{'' # k) s2"
    using value_okD by blast
  obtain w4 c s3 where w4: "s2 = w4 @ c # s3" "ws w4" "\<not> is_ws c" "can J_AFTER_VAL (CHR ''{'' # k) (c # s3)"
    using can_ws [OF a] by (auto simp: ws_states_def)
  let ?one = "w1 @ QUOTE # b @ QUOTE # w2 @ CHR '':'' # w3 @ x @ w4"
  consider (more) "c = CHR '',''" "can J_KEY_REQ (CHR ''{'' # k) s3" | (fin) "c = CHR ''}''" "can (close_st k) k s3"
    using after_sound [OF w4(4,3)] by auto
  then show "\<exists>m r. s = m @ CHR ''}'' # r \<and> jmems m \<and> can (close_st k) k r"
  proof cases
    case fin
    have "jmems ?one" by (intro jm_one s x w4(2))
    then show ?thesis using fin s(1) x(1) w4(1) by (intro exI [of _ ?one] exI [of _ s3]) auto
  next
    case more
    have "length s3 < length s" using s(1) x(1) w4(1) by simp
    with IH more(2) obtain ms r where "s3 = ms @ CHR ''}'' # r" "jmems ms" "can (close_st k) k r"
      unfolding members_ok_def by blast
    moreover from this have "jmems (w1 @ QUOTE # b @ QUOTE # w2 @ CHR '':'' # w3 @ x @ w4 @ CHR '','' # ms)"
      by (intro jm_more s x w4(2))
    ultimately show ?thesis using more(1) s(1) x(1) w4(1)
      by (intro exI [of _ "w1 @ QUOTE # b @ QUOTE # w2 @ CHR '':'' # w3 @ x @ w4 @ CHR '','' # ms"] exI [of _ r]) auto
  qed
qed

lemma elements_ok_step:
  assumes val: "value_ok s" and IH: "\<And>s'. length s' < length s \<Longrightarrow> elements_ok s'"
  shows "elements_ok s"
  unfolding elements_ok_def
proof (intro allI impI)
  fix k assume "can J_VALUE_REQ (CHR ''['' # k) s"
  with val obtain w1 x s2 where x: "s = w1 @ x @ s2" "ws w1" "jval x" "x \<noteq> []"
    and a: "can J_AFTER_VAL (CHR ''['' # k) s2"
    using value_okD by blast
  obtain w2 c s3 where w2: "s2 = w2 @ c # s3" "ws w2" "\<not> is_ws c" "can J_AFTER_VAL (CHR ''['' # k) (c # s3)"
    using can_ws [OF a] by (auto simp: ws_states_def)
  consider (more) "c = CHR '',''" "can J_VALUE_REQ (CHR ''['' # k) s3" | (fin) "c = CHR '']''" "can (close_st k) k s3"
    using after_sound [OF w2(4,3)] by auto
  then show "\<exists>e r. s = e @ CHR '']'' # r \<and> jelems e \<and> can (close_st k) k r"
  proof cases
    case fin
    have "jelems (w1 @ x @ w2)" by (intro je_one x w2(2))
    then show ?thesis using fin x(1) w2(1) by (intro exI [of _ "w1 @ x @ w2"] exI [of _ s3]) auto
  next
    case more
    have "length s3 < length s" using x(1) w2(1) by simp
    with IH more(2) obtain es r where "s3 = es @ CHR '']'' # r" "jelems es" "can (close_st k) k r"
      unfolding elements_ok_def by blast
    moreover from this have "jelems (w1 @ x @ w2 @ CHR '','' # es)" by (intro je_more x w2(2))
    ultimately show ?thesis using more(1) x(1) w2(1)
      by (intro exI [of _ "w1 @ x @ w2 @ CHR '','' # es"] exI [of _ r]) auto
  qed
qed

lemma json_sound: "value_ok s \<and> members_ok s \<and> elements_ok s"
proof (induction s rule: length_induct)
  case (1 s)
  then have IH: "value_ok s' \<and> members_ok s' \<and> elements_ok s'" if "length s' < length s" for s'
    using that by blast
  then have v: "value_ok s" by (intro value_ok_step) blast
  with IH show ?case using members_ok_step elements_ok_step by blast
qed

section \<open>Completeness: every JSON value is accepted\<close>

lemma must_num:
  assumes "must J_AFTER_VAL k r"
  shows "r_minus p \<Longrightarrow> must J_NUM_MINUS k (p @ r)" "r_zero p \<Longrightarrow> must J_NUM_ZERO k (p @ r)"
    "r_int p \<Longrightarrow> must J_NUM_INT k (p @ r)"
proof -
  have "acc (to_st J_AFTER_VAL g) r" if "inst s k g" for s g
    using assms inst_to_st(1) [OF that] by (auto simp: must_def)
  then have t: "tail_of P g (p @ r)" if "inst s k g" "P p" for s g P
    using that by (auto simp: tail_of_def)
  show "r_minus p \<Longrightarrow> must J_NUM_MINUS k (p @ r)" "r_zero p \<Longrightarrow> must J_NUM_ZERO k (p @ r)"
    "r_int p \<Longrightarrow> must J_NUM_INT k (p @ r)"
    using num_minus num_zero num_int t by (auto simp: must_def)
qed

lemma must_str:
  "strbody b \<Longrightarrow> must J_AFTER_VAL k r \<Longrightarrow> must J_STR k (b @ QUOTE # r)"
  "strbody b \<Longrightarrow> must J_KEYCOLON k r \<Longrightarrow> must J_KEYSTR k (b @ QUOTE # r)"
  using vstr.string_complete kstr.string_complete inst_to_st(1) by (auto simp: must_def)

definition vmust :: "string \<Rightarrow> string \<Rightarrow> bool" where
  "vmust k s \<longleftrightarrow> must J_VALUE_REQ k s \<and> must J_VALUE k s"

lemma vmust_start:
  assumes "k \<noteq> []" "\<not> is_ws c"
    "\<And>g b. \<not> dead g \<Longrightarrow> stack g = k \<Longrightarrow> \<exists>g'. value_start g c b = (True, g') \<and> acc g' s"
  shows "vmust k (c # s)"
  using assms by (auto simp: vmust_def must_def inst_def acc_Cons step_def)

lemma vmust_ws: "vmust k s \<Longrightarrow> ws w \<Longrightarrow> vmust k (w @ s)"
  using must_ws by (auto simp: vmust_def ws_states_def)

lemma vmust_goto:
  assumes "k \<noteq> []" "\<not> is_ws c" "must s' k r"
    "\<And>g b. \<not> dead g \<Longrightarrow> stack g = k \<Longrightarrow> value_start g c b = goto g s'"
  shows "vmust k (c # r)"
  using assms by (intro vmust_start) (auto simp: goto_def must_def inst_def)

lemma vmust_lit:
  assumes "k \<noteq> []" "\<not> is_ws c" "must J_AFTER_VAL k r" "l \<noteq> []"
    "\<And>g b. value_start g c b = lit_start g (c # l) J_LIT"
  shows "vmust k (c # l @ r)"
proof (rule vmust_start [OF assms(1,2)])
  fix g :: grammar and b assume g: "\<not> dead g" "stack g = k"
  let ?g = "g\<lparr>lit_word := c # l, lit := Suc 0, st := J_LIT\<rparr>"
  have "acc ?g (drop (lit ?g) (lit_word ?g) @ r)"
    using assms(3,4) g by (intro literal_complete) auto
  then show "\<exists>g'. value_start g c b = (True, g') \<and> acc g' (l @ r)"
    using assms(5) by (auto simp: lit_start_def)
qed

lemma vmust_push:
  assumes "k \<noteq> []" "must s' (x # k) r" "\<not> is_ws x"
    "\<And>g b. value_start g x b = goto (g\<lparr>stack := x # stack g\<rparr>) s'"
  shows "vmust k (x # r)"
proof (rule vmust_start [OF assms(1,3)])
  fix g :: grammar and b assume g: "\<not> dead g" "stack g = k"
  then have "inst s' (x # k) (g\<lparr>stack := x # stack g, st := s'\<rparr>)" by (simp add: inst_def)
  then show "\<exists>g'. value_start g x b = (True, g') \<and> acc g' r"
    using assms(2,4) by (simp add: goto_def must_def)
qed

lemma must_comma:
  "must J_KEY_REQ (CHR ''{'' # k) r \<Longrightarrow> must J_AFTER_VAL (CHR ''{'' # k) (CHR '','' # r)"
  "must J_VALUE_REQ (CHR ''['' # k) r \<Longrightarrow> must J_AFTER_VAL (CHR ''['' # k) (CHR '','' # r)"
  by (auto simp: must_def inst_def acc_Cons step_def after_val_step_def goto_def is_ws_def top_is_def)

lemma must_close:
  assumes "must (close_st k) k r"
  shows "must J_AFTER_VAL (CHR ''{'' # k) (CHR ''}'' # r)" "must J_AFTER_VAL (CHR ''['' # k) (CHR '']'' # r)"
    "must J_KEY (CHR ''{'' # k) (CHR ''}'' # r)" "must J_VALUE (CHR ''['' # k) (CHR '']'' # r)"
  using assms
  by (auto simp: must_def inst_def acc_Cons step_def after_val_step_def value_start_def goto_def is_ws_def
      top_is_def pop_or_finish_def close_st_def Let_def is_digit19_def in_range_def less_eq_char_def
      split: if_splits)

lemma must_key:
  assumes "strbody b" "ws w1" "ws w2" "must J_VALUE (CHR ''{'' # k) r" and "s = J_KEY \<or> s = J_KEY_REQ"
  shows "must s (CHR ''{'' # k) (w1 @ QUOTE # b @ QUOTE # w2 @ CHR '':'' # r)"
proof -
  have "must J_KEYCOLON (CHR ''{'' # k) (CHR '':'' # r)"
    using assms(4) by (auto simp: must_def inst_def acc_Cons step_def expect_def is_ws_def)
  then have "must J_KEYCOLON (CHR ''{'' # k) (w2 @ CHR '':'' # r)"
    using assms(3) by (intro must_ws) (simp_all add: ws_states_def)
  then have "must J_KEYSTR (CHR ''{'' # k) (b @ QUOTE # w2 @ CHR '':'' # r)"
    by (rule must_str(2) [OF assms(1)])
  then have "must s (CHR ''{'' # k) (QUOTE # b @ QUOTE # w2 @ CHR '':'' # r)"
    using assms(5) by (auto simp: must_def inst_def acc_Cons step_def expect_def is_ws_def goto_def)
  then show ?thesis using assms(2,5) by (intro must_ws) (auto simp: ws_states_def)
qed

lemma vmust_number:
  assumes "jnumber n" "k \<noteq> []" "must J_AFTER_VAL k r"
  shows "vmust k (n @ r)"
proof -
  note facts = value_start_def goto_def is_ws_def is_digit19_def in_range_def less_eq_char_def
  have pos: "vmust k (p @ r)" if "r_minus p" for p
  proof (cases p)
    case (Cons c p')
    show ?thesis
    proof (cases "c = CHR ''0''")
      case True
      then have "r_zero p'" using that Cons by simp
      from must_num(2) [OF assms(3) this] show ?thesis unfolding Cons True append_Cons
        by (rule vmust_goto [OF assms(2), rotated]) (simp_all add: facts)
    next
      case False
      then have c: "is_digit19 c" "r_int p'" using that Cons by auto
      from must_num(3) [OF assms(3) this(2)] show ?thesis unfolding Cons append_Cons
        by (rule vmust_goto [OF assms(2), rotated]) (use c False in \<open>auto simp: facts\<close>)
    qed
  qed (use that in simp)
  from assms(1) show ?thesis unfolding jnumber_iff
  proof (elim disjE exE conjE)
    fix p assume n: "n = CHR ''-'' # p" "r_minus p"
    from must_num(1) [OF assms(3) n(2)] show ?thesis unfolding n(1) append_Cons
      by (rule vmust_goto [OF assms(2), rotated]) (simp_all add: facts)
  qed (rule pos)
qed

lemma vmust_literal:
  assumes "l = ''true'' \<or> l = ''false'' \<or> l = ''null''" "k \<noteq> []" "must J_AFTER_VAL k r"
  shows "vmust k (l @ r)"
proof -
  note facts = value_start_def is_ws_def is_digit19_def in_range_def less_eq_char_def
  have "vmust k (CHR ''t'' # ''rue'' @ r)" "vmust k (CHR ''f'' # ''alse'' @ r)" "vmust k (CHR ''n'' # ''ull'' @ r)"
    by (rule vmust_lit [OF assms(2) _ assms(3)]; simp add: facts)+
  with assms(1) show ?thesis by auto
qed

lemma json_complete:
  "jval v \<Longrightarrow> \<forall>k r. k \<noteq> [] \<longrightarrow> must J_AFTER_VAL k r \<longrightarrow> vmust k (v @ r)"
  "jmems m \<Longrightarrow> \<forall>k r s. must (close_st k) k r \<longrightarrow> s = J_KEY \<or> s = J_KEY_REQ \<longrightarrow>
     must s (CHR ''{'' # k) (m @ CHR ''}'' # r)"
  "jelems e \<Longrightarrow> \<forall>k r. must (close_st k) k r \<longrightarrow> vmust (CHR ''['' # k) (e @ CHR '']'' # r)"
proof (induction v and m and e rule: jval_jmems_jelems.inducts)
  case (jv_str b)
  show ?case
  proof (intro allI impI)
    fix k r assume k: "k \<noteq> []" and a: "must J_AFTER_VAL k r"
    from must_str(1) [OF jv_str a] have "vmust k (QUOTE # b @ QUOTE # r)"
      by (rule vmust_goto [OF k, rotated]) (simp_all add: value_start_def is_ws_def)
    then show "vmust k ((QUOTE # b @ [QUOTE]) @ r)" by simp
  qed
next
  case (jv_obj0 w)
  show ?case
  proof (intro allI impI)
    fix k r assume k: "k \<noteq> []" and a: "must J_AFTER_VAL k r"
    then have "must J_KEY (CHR ''{'' # k) (w @ CHR ''}'' # r)"
      using jv_obj0 must_close(3) [of k r] by (intro must_ws) (simp_all add: close_st_def ws_states_def)
    then have "vmust k (CHR ''{'' # w @ CHR ''}'' # r)"
      by (rule vmust_push [OF k]) (simp_all add: value_start_def is_ws_def)
    then show "vmust k ((CHR ''{'' # w @ ''}'') @ r)" by simp
  qed
next
  case (jv_obj m)
  show ?case
  proof (intro allI impI)
    fix k r assume k: "k \<noteq> []" and a: "must J_AFTER_VAL k r"
    then have "must J_KEY (CHR ''{'' # k) (m @ CHR ''}'' # r)" using jv_obj.IH by (simp add: close_st_def)
    then have "vmust k (CHR ''{'' # m @ CHR ''}'' # r)"
      by (rule vmust_push [OF k]) (simp_all add: value_start_def is_ws_def)
    then show "vmust k ((CHR ''{'' # m @ ''}'') @ r)" by simp
  qed
next
  case (jv_arr0 w)
  show ?case
  proof (intro allI impI)
    fix k r assume k: "k \<noteq> []" and a: "must J_AFTER_VAL k r"
    then have "must J_VALUE (CHR ''['' # k) (w @ CHR '']'' # r)"
      using jv_arr0 must_close(4) [of k r] by (intro must_ws) (simp_all add: close_st_def ws_states_def)
    then have "vmust k (CHR ''['' # w @ CHR '']'' # r)"
      by (rule vmust_push [OF k]) (simp_all add: value_start_def is_ws_def)
    then show "vmust k ((CHR ''['' # w @ '']'') @ r)" by simp
  qed
next
  case (jv_arr e)
  show ?case
  proof (intro allI impI)
    fix k r assume k: "k \<noteq> []" and a: "must J_AFTER_VAL k r"
    then have "must J_VALUE (CHR ''['' # k) (e @ CHR '']'' # r)"
      using jv_arr.IH by (simp add: close_st_def vmust_def)
    then have "vmust k (CHR ''['' # e @ CHR '']'' # r)"
      by (rule vmust_push [OF k]) (simp_all add: value_start_def is_ws_def)
    then show "vmust k ((CHR ''['' # e @ '']'') @ r)" by simp
  qed
next
  case (jm_one w1 b w2 w3 v w4)
  show ?case
  proof (intro allI impI)
    fix k r s assume c: "must (close_st k) k r" and s: "s = J_KEY \<or> s = J_KEY_REQ"
    from must_close(1) [OF c] have "must J_AFTER_VAL (CHR ''{'' # k) (w4 @ CHR ''}'' # r)"
      using jm_one(6) by (intro must_ws) (simp_all add: ws_states_def)
    then have "vmust (CHR ''{'' # k) (w3 @ v @ w4 @ CHR ''}'' # r)"
      using jm_one by (rule_tac vmust_ws) auto
    with must_key [OF jm_one(2,1,3) _ s, of k] show
      "must s (CHR ''{'' # k) ((w1 @ QUOTE # b @ QUOTE # w2 @ CHR '':'' # w3 @ v @ w4) @ CHR ''}'' # r)"
      by (simp add: vmust_def)
  qed
next
  case (jm_more w1 b w2 w3 v w4 ms)
  show ?case
  proof (intro allI impI)
    fix k r s assume c: "must (close_st k) k r" and s: "s = J_KEY \<or> s = J_KEY_REQ"
    then have "must J_AFTER_VAL (CHR ''{'' # k) (CHR '','' # ms @ CHR ''}'' # r)"
      using jm_more.IH(2) by (intro must_comma(1)) blast
    then have "must J_AFTER_VAL (CHR ''{'' # k) (w4 @ CHR '','' # ms @ CHR ''}'' # r)"
      using jm_more(6) by (intro must_ws) (simp_all add: ws_states_def)
    then have "vmust (CHR ''{'' # k) (w3 @ v @ w4 @ CHR '','' # ms @ CHR ''}'' # r)"
      using jm_more by (rule_tac vmust_ws) auto
    with must_key [OF jm_more(2,1,3) _ s, of k] show
      "must s (CHR ''{'' # k) ((w1 @ QUOTE # b @ QUOTE # w2 @ CHR '':'' # w3 @ v @ w4 @ CHR '','' # ms) @ CHR ''}'' # r)"
      by (simp add: vmust_def)
  qed
next
  case (je_one w1 v w2)
  show ?case
  proof (intro allI impI)
    fix k r assume c: "must (close_st k) k r"
    from must_close(2) [OF c] have "must J_AFTER_VAL (CHR ''['' # k) (w2 @ CHR '']'' # r)"
      using je_one(3) by (intro must_ws) (simp_all add: ws_states_def)
    then show "vmust (CHR ''['' # k) ((w1 @ v @ w2) @ CHR '']'' # r)"
      using je_one vmust_ws [of "CHR ''['' # k" "v @ w2 @ CHR '']'' # r" w1] by simp
  qed
next
  case (je_more w1 v w2 es)
  show ?case
  proof (intro allI impI)
    fix k r assume c: "must (close_st k) k r"
    then have "must J_AFTER_VAL (CHR ''['' # k) (CHR '','' # es @ CHR '']'' # r)"
      using je_more.IH(2) by (intro must_comma(2)) (auto simp: vmust_def)
    then have "must J_AFTER_VAL (CHR ''['' # k) (w2 @ CHR '','' # es @ CHR '']'' # r)"
      using je_more(3) by (intro must_ws) (simp_all add: ws_states_def)
    then show "vmust (CHR ''['' # k) ((w1 @ v @ w2 @ CHR '','' # es) @ CHR '']'' # r)"
      using je_more vmust_ws [of "CHR ''['' # k" "v @ w2 @ CHR '','' # es @ CHR '']'' # r" w1] by simp
  qed
qed (use vmust_number vmust_literal in blast)+

section \<open>The call envelope\<close>

lemma acc_expect:
  assumes "st g \<in> ws_states" "st g \<noteq> DONE" "\<not> dead g" "\<not> is_ws x" "\<And>c. step g c = expect g c x g'"
  shows "acc g s \<longleftrightarrow> (\<exists>w r. s = w @ x # r \<and> ws w \<and> acc g' r)"
proof
  assume a: "acc g s"
  obtain w s' where w: "s = w @ s'" "ws w" "s' = [] \<or> \<not> is_ws (hd s')" using ws_split by blast
  have "acc g s'" using a acc_ws [OF assms(1,3) w(2)] w(1) by simp
  then obtain c r where "s' = c # r" "\<not> is_ws c" "step g c = expect g c x g'" "acc g (c # r)"
    using assms(2,5) w(3) by (cases s') auto
  then have "s' = x # r" "acc g' r"
    using assms(3) by (auto simp: acc_Cons expect_def split: if_splits)
  with w show "\<exists>w r. s = w @ x # r \<and> ws w \<and> acc g' r" by blast
next
  assume "\<exists>w r. s = w @ x # r \<and> ws w \<and> acc g' r"
  then obtain w r where w: "s = w @ x # r" "ws w" "acc g' r" by blast
  then have "acc g (x # r)" using assms(3,4,5) by (simp add: acc_Cons expect_def)
  then show "acc g s" using w acc_ws [OF assms(1,3)] by simp
qed

lemma acc_kw:
  assumes "\<And>h c. st h = st g \<Longrightarrow> step h c = match_kw h c kw s'" "st g \<noteq> DONE" "s' \<noteq> st g"
  shows "\<not> dead g \<Longrightarrow> lit g \<le> length kw \<Longrightarrow> acc g s \<longleftrightarrow>
    (\<exists>r. s = drop (lit g) kw @ QUOTE # r \<and> acc (g\<lparr>lit := length kw, st := s'\<rparr>) r)"
  using assms
proof (induction s arbitrary: g)
  case (Cons c s)
  let ?g = "g\<lparr>lit := lit g + 1\<rparr>"
  have step: "step g c = match_kw g c kw s'" using Cons.prems(3) by simp
  show ?case
  proof (cases "lit g < length kw")
    case True
    have "acc ?g s \<longleftrightarrow> (\<exists>r. s = drop (lit ?g) kw @ QUOTE # r \<and> acc (?g\<lparr>lit := length kw, st := s'\<rparr>) r)"
      using Cons.prems True by (intro Cons.IH) auto
    moreover have "drop (lit g) kw = kw ! lit g # drop (Suc (lit g)) kw"
      using True by (simp add: Cons_nth_drop_Suc)
    ultimately show ?thesis
      using Cons.prems(1) step True by (auto simp: acc_Cons match_kw_def)
  next
    case False
    then have l: "lit g = length kw" using Cons.prems(2) by simp
    have same: "g\<lparr>lit := length kw, st := s'\<rparr> = to_st s' g"
      unfolding l [symmetric] by simp
    show ?thesis unfolding same
      using l Cons.prems(1) step by (auto simp: acc_Cons match_kw_def goto_def)
  qed
qed auto

lemma acc_name:
  "st g = NAME_VAL \<Longrightarrow> \<not> dead g \<Longrightarrow> acc g s \<longleftrightarrow>
    (\<exists>n r. s = n @ QUOTE # r \<and> QUOTE \<notin> set n \<and> name_pref g @ n \<in> set (names g) \<and>
       acc (g\<lparr>name_pref := name_pref g @ n, st := ARG_COMMA\<rparr>) r)"
proof (induction s arbitrary: g)
  case (Cons c s)
  have step: "step g c = name_step g c" using Cons.prems by (simp add: step_def)
  show ?case
  proof (cases "c = QUOTE")
    case True
    have "acc g (c # s) \<longleftrightarrow> name_pref g \<in> set (names g) \<and> acc (to_st ARG_COMMA g) s"
      using True Cons.prems(2) step by (auto simp: acc_Cons name_step_def goto_def)
    moreover have "QUOTE # s = n @ QUOTE # r \<and> QUOTE \<notin> set n \<longleftrightarrow> n = [] \<and> r = s" for n r
      by (cases n) auto
    then have "(\<exists>n r. QUOTE # s = n @ QUOTE # r \<and> QUOTE \<notin> set n \<and> P n r) \<longleftrightarrow> P [] s" for P
      by (metis append_Nil)
    ultimately show ?thesis unfolding True by simp
  next
    case False
    let ?g = "g\<lparr>name_pref := name_pref g @ [c]\<rparr>"
    have ih: "acc ?g s \<longleftrightarrow> (\<exists>n r. s = n @ QUOTE # r \<and> QUOTE \<notin> set n \<and> name_pref ?g @ n \<in> set (names ?g) \<and>
       acc (?g\<lparr>name_pref := name_pref ?g @ n, st := ARG_COMMA\<rparr>) r)"
      using Cons.prems by (intro Cons.IH) auto
    have "acc g (c # s) \<longleftrightarrow> (\<exists>n\<in>set (names g). prefix (name_pref g @ [c]) n) \<and> acc ?g s"
      using False Cons.prems(2) step
      by (cases "\<exists>n\<in>set (names g). prefix (name_pref g @ [c]) n")
        (simp_all add: acc_Cons name_step_def list_ex_iff Let_def)
    also have "\<dots> \<longleftrightarrow> acc ?g s" unfolding ih by (auto simp: prefix_def)
    also have "\<dots> \<longleftrightarrow> (\<exists>n r. s = n @ QUOTE # r \<and> QUOTE \<notin> set (c # n) \<and> name_pref g @ c # n \<in> set (names g) \<and>
       acc (g\<lparr>name_pref := name_pref g @ c # n, st := ARG_COMMA\<rparr>) r)"
      unfolding ih using False by simp
    also have "\<dots> \<longleftrightarrow> (\<exists>n r. c # s = n @ QUOTE # r \<and> QUOTE \<notin> set n \<and> name_pref g @ n \<in> set (names g) \<and>
       acc (g\<lparr>name_pref := name_pref g @ n, st := ARG_COMMA\<rparr>) r)" (is "?L \<longleftrightarrow> ?R")
    proof
      assume ?L
      then show ?R by (metis append_Cons)
    next
      assume ?R
      then obtain n r where n: "c # s = n @ QUOTE # r" "QUOTE \<notin> set n" "name_pref g @ n \<in> set (names g)"
        "acc (g\<lparr>name_pref := name_pref g @ n, st := ARG_COMMA\<rparr>) r" by blast
      with False obtain n' where "n = c # n'" by (cases n) auto
      with n show ?L by auto
    qed
    finally show ?thesis .
  qed
qed auto

lemma not_acc_closer: "\<not> dead g \<Longrightarrow> st g = CLOSER \<or> st g = CLOSED \<Longrightarrow> \<not> acc g s"
proof (induction s arbitrary: g)
  case (Cons c s)
  have "st h = CLOSER \<or> st h = CLOSED" if "step g c = (True, h)" for h
    using Cons.prems(2)
  proof
    assume "st g = CLOSER"
    with that have "match_lit g c CLOSED = (True, h)" by (simp add: step_def)
    with \<open>st g = CLOSER\<close> show ?thesis by (auto simp: match_lit_def Let_def split: if_splits)
  qed (use that in \<open>simp add: step_def\<close>)
  moreover have "\<not> dead h" if "step g c = (True, h)" for h using step_alive that Cons.prems(1) by blast
  ultimately show ?case using Cons by (auto simp: acc_Cons)
qed auto

lemma acc_done: "st g = DONE \<Longrightarrow> \<not> dead g \<Longrightarrow> acc g s \<longleftrightarrow> ws s"
proof (induction s)
  case (Cons c s)
  have "\<not> acc (g\<lparr>lit_word := ''</tool_call>'', lit := 1, st := CLOSER\<rparr>) s"
    using Cons.prems by (intro not_acc_closer) auto
  with Cons show ?case by (auto simp: acc_Cons step_def lit_start_def)
qed auto

lemma acc_obj_close:
  assumes "inst OBJ_CLOSE k g"
  shows "acc g s \<longleftrightarrow> (\<exists>w t. s = w @ CHR ''}'' # t \<and> ws w \<and> ws t)"
proof -
  have "acc g s \<longleftrightarrow> (\<exists>w r. s = w @ CHR ''}'' # r \<and> ws w \<and> acc (to_st DONE g) r)"
    using assms by (intro acc_expect) (simp_all add: inst_def step_def ws_states_def is_ws_def)
  then show ?thesis using assms acc_done [of "to_st DONE g"] by (simp add: inst_def)
qed

lemma acc_object:
  assumes "inst J_VALUE [] g"
  shows "acc g s \<longleftrightarrow> (\<exists>w obj w' t. s = w @ obj @ w' @ CHR ''}'' # t \<and> ws w \<and> jobject obj \<and> ws w' \<and> ws t)"
proof -
  let ?g = "g\<lparr>stack := ''{'', st := J_KEY\<rparr>"
  have i: "inst J_KEY ''{'' ?g" using assms by (simp add: inst_def)
  have "acc g s \<longleftrightarrow> (\<exists>w r. s = w @ CHR ''{'' # r \<and> ws w \<and> acc ?g r)"
    using assms by (intro acc_expect) (simp_all add: inst_def step_def ws_states_def is_ws_def expect_def goto_def)
  moreover have "acc ?g r \<longleftrightarrow> (\<exists>m w' t. r = m @ CHR ''}'' # w' @ CHR ''}'' # t \<and> (ws m \<or> jmems m) \<and> ws w' \<and> ws t)"
    for r
  proof
    assume "acc ?g r"
    then have "can J_KEY ''{'' r" using i by (auto simp: can_def)
    from object_tail [OF this] json_sound obtain m r' where m: "r = m @ CHR ''}'' # r'" "ws m \<or> jmems m"
      "can OBJ_CLOSE [] r'" by (auto simp: close_st_def)
    from m(3) obtain w' t where "r' = w' @ CHR ''}'' # t" "ws w'" "ws t"
      using acc_obj_close by (auto simp: can_def)
    with m show "\<exists>m w' t. r = m @ CHR ''}'' # w' @ CHR ''}'' # t \<and> (ws m \<or> jmems m) \<and> ws w' \<and> ws t" by blast
  next
    assume "\<exists>m w' t. r = m @ CHR ''}'' # w' @ CHR ''}'' # t \<and> (ws m \<or> jmems m) \<and> ws w' \<and> ws t"
    then obtain m w' t where m: "r = m @ CHR ''}'' # w' @ CHR ''}'' # t" "ws m \<or> jmems m" "ws w'" "ws t" by blast
    have c: "must (close_st []) [] (w' @ CHR ''}'' # t)"
      using acc_obj_close m by (auto simp: must_def close_st_def)
    have "must J_KEY ''{'' r"
    proof (cases "ws m")
      case True
      then show ?thesis using must_ws [OF must_close(3) [OF c]] m(1) by (simp add: ws_states_def)
    next
      case False
      then show ?thesis using json_complete(2) c m by blast
    qed
    then show "acc ?g r" using i by (simp add: must_def)
  qed
  ultimately have "acc g s \<longleftrightarrow> (\<exists>w m w' t. s = w @ CHR ''{'' # m @ CHR ''}'' # w' @ CHR ''}'' # t \<and> ws w \<and>
      (ws m \<or> jmems m) \<and> ws w' \<and> ws t)" by (simp only: ex_simps) blast
  also have "\<dots> \<longleftrightarrow> (\<exists>w obj w' t. s = w @ obj @ w' @ CHR ''}'' # t \<and> ws w \<and> jobject obj \<and> ws w' \<and> ws t)"
    unfolding jobject_def by (metis append_Cons append_Nil append_assoc)
  finally show ?thesis .
qed

lemma acc_arguments:
  assumes "st g = ARG_COMMA" "stack g = []" "\<not> dead g"
  shows "acc g s \<longleftrightarrow> (\<exists>w4 w5 w6 w7 obj w8 t.
    s = w4 @ CHR '','' # w5 @ QUOTE # ''arguments'' @ QUOTE # w6 @ CHR '':'' # w7 @ obj @ w8 @ CHR ''}'' # t \<and>
    ws w4 \<and> ws w5 \<and> ws w6 \<and> ws w7 \<and> jobject obj \<and> ws w8 \<and> ws t)"
proof -
  let ?g1 = "to_st ARGKEY_OPEN_Q g" and ?g2 = "g\<lparr>lit := 0, st := ARGKEY\<rparr>"
    and ?g3 = "g\<lparr>lit := 9, st := ARGS_COLON\<rparr>" and ?g4 = "g\<lparr>lit := 9, st := J_VALUE\<rparr>"
  note facts = step_def ws_states_def is_ws_def
  have e1: "acc g s \<longleftrightarrow> (\<exists>w r. s = w @ CHR '','' # r \<and> ws w \<and> acc ?g1 r)" for s
    using assms by (intro acc_expect) (simp_all add: facts)
  have e2: "acc ?g1 s \<longleftrightarrow> (\<exists>w r. s = w @ QUOTE # r \<and> ws w \<and> acc ?g2 r)" for s
    using assms by (intro acc_expect) (simp_all add: facts)
  have e3: "acc ?g2 s \<longleftrightarrow> (\<exists>r. s = ''arguments'' @ QUOTE # r \<and> acc ?g3 r)" for s
    using assms acc_kw [of ?g2 "''arguments''" ARGS_COLON s] by (simp add: step_def eval_nat_numeral)
  have e4: "acc ?g3 s \<longleftrightarrow> (\<exists>w r. s = w @ CHR '':'' # r \<and> ws w \<and> acc ?g4 r)" for s
    using assms by (intro acc_expect) (simp_all add: facts)
  have e5: "acc ?g4 s \<longleftrightarrow> (\<exists>w obj w' t. s = w @ obj @ w' @ CHR ''}'' # t \<and> ws w \<and> jobject obj \<and> ws w' \<and> ws t)" for s
    using assms by (intro acc_object) (simp add: inst_def)
  show ?thesis unfolding e1 e2 e3 e4 e5
    by (rule iffI; elim exE conjE; hypsubst; intro exI conjI; (rule refl | assumption)+)
qed

lemma acc_reset:
  "acc (reset g0 ns) s \<longleftrightarrow> (\<exists>w0 w1 w2 w3 n r.
    s = w0 @ CHR ''{'' # w1 @ QUOTE # ''name'' @ QUOTE # w2 @ CHR '':'' # w3 @ QUOTE # n @ QUOTE # r \<and>
    ws w0 \<and> ws w1 \<and> ws w2 \<and> ws w3 \<and> QUOTE \<notin> set n \<and> n \<in> set ns \<and>
    acc ((reset g0 ns)\<lparr>lit := 4, name_pref := n, st := ARG_COMMA\<rparr>) r)"
proof -
  let ?g = "reset g0 ns"
  let ?g1 = "to_st KEY_OPEN_Q ?g" and ?g2 = "?g\<lparr>lit := 0, st := KEY_NAME\<rparr>"
    and ?g3 = "?g\<lparr>lit := 4, st := KEY_COLON\<rparr>" and ?g4 = "?g\<lparr>lit := 4, st := NAME_OPEN_Q\<rparr>"
    and ?g5 = "?g\<lparr>lit := 4, name_pref := [], st := NAME_VAL\<rparr>"
  note facts = step_def ws_states_def is_ws_def reset_def
  have e1: "acc ?g s \<longleftrightarrow> (\<exists>w r. s = w @ CHR ''{'' # r \<and> ws w \<and> acc ?g1 r)" for s
    by (intro acc_expect) (simp_all add: facts)
  have e2: "acc ?g1 s \<longleftrightarrow> (\<exists>w r. s = w @ QUOTE # r \<and> ws w \<and> acc ?g2 r)" for s
    by (intro acc_expect) (simp_all add: facts)
  have e3: "acc ?g2 s \<longleftrightarrow> (\<exists>r. s = ''name'' @ QUOTE # r \<and> acc ?g3 r)" for s
    using acc_kw [of ?g2 "''name''" KEY_COLON s] by (simp add: step_def reset_def eval_nat_numeral)
  have e4: "acc ?g3 s \<longleftrightarrow> (\<exists>w r. s = w @ CHR '':'' # r \<and> ws w \<and> acc ?g4 r)" for s
    by (intro acc_expect) (simp_all add: facts)
  have e5: "acc ?g4 s \<longleftrightarrow> (\<exists>w r. s = w @ QUOTE # r \<and> ws w \<and> acc ?g5 r)" for s
    by (intro acc_expect) (simp_all add: facts)
  have e6: "acc ?g5 s \<longleftrightarrow> (\<exists>n r. s = n @ QUOTE # r \<and> QUOTE \<notin> set n \<and> n \<in> set ns \<and>
      acc (?g\<lparr>lit := 4, name_pref := n, st := ARG_COMMA\<rparr>) r)" for s
    using acc_name [of ?g5 s] by (simp add: reset_def)
  show ?thesis unfolding e1 e2 e3 e4 e5 e6
    by (rule iffI; elim exE conjE; hypsubst; intro exI conjI; (rule refl | assumption)+)
qed

section \<open>Properties\<close>

text \<open>
  C11: the machine accepts exactly the call bodies of the reference grammar.  After a reset on
  the names \<open>ns\<close>, feeding \<open>s\<close> succeeds and reaches \<open>DONE\<close> if and only if \<open>s\<close> is a call body (a JSON
  object with a registered name and an arguments object) followed by white space.
\<close>

theorem grammar_exact:
  "(\<exists>g'. advance_str (reset g0 ns) s = (True, g') \<and> st g' = DONE) \<longleftrightarrow>
     (\<exists>body w. s = body @ w \<and> list_all is_ws w \<and> tool_call_body ns body)"
proof -
  have "acc (reset g0 ns) s \<longleftrightarrow> (\<exists>w0 w1 w2 w3 n w4 w5 w6 w7 obj w8 t.
      s = w0 @ CHR ''{'' # w1 @ QUOTE # ''name'' @ QUOTE # w2 @ CHR '':'' # w3 @ QUOTE # n @ QUOTE #
          w4 @ CHR '','' # w5 @ QUOTE # ''arguments'' @ QUOTE # w6 @ CHR '':'' # w7 @ obj @ w8 @ CHR ''}'' # t \<and>
      ws w0 \<and> ws w1 \<and> ws w2 \<and> ws w3 \<and> QUOTE \<notin> set n \<and> n \<in> set ns \<and>
      ws w4 \<and> ws w5 \<and> ws w6 \<and> ws w7 \<and> jobject obj \<and> ws w8 \<and> ws t)"
  proof -
    have "acc ((reset g0 ns)\<lparr>lit := 4, name_pref := n, st := ARG_COMMA\<rparr>) r \<longleftrightarrow> (\<exists>w4 w5 w6 w7 obj w8 t.
      r = w4 @ CHR '','' # w5 @ QUOTE # ''arguments'' @ QUOTE # w6 @ CHR '':'' # w7 @ obj @ w8 @ CHR ''}'' # t \<and>
      ws w4 \<and> ws w5 \<and> ws w6 \<and> ws w7 \<and> jobject obj \<and> ws w8 \<and> ws t)" for n r
      by (intro acc_arguments) (simp_all add: reset_def)
    then show ?thesis unfolding acc_reset by simp blast
  qed
  also have "\<dots> \<longleftrightarrow> (\<exists>body w. s = body @ w \<and> ws w \<and> tool_call_body ns body)"
    (is "?L \<longleftrightarrow> ?R")
  proof
    assume ?L
    then obtain w0 w1 w2 w3 n w4 w5 w6 w7 obj w8 t where
      s: "s = w0 @ CHR ''{'' # w1 @ QUOTE # ''name'' @ QUOTE # w2 @ CHR '':'' # w3 @ QUOTE # n @ QUOTE #
          w4 @ CHR '','' # w5 @ QUOTE # ''arguments'' @ QUOTE # w6 @ CHR '':'' # w7 @ obj @ w8 @ CHR ''}'' # t"
      and w: "ws w0" "ws w1" "ws w2" "ws w3" "QUOTE \<notin> set n" "n \<in> set ns" "ws w4" "ws w5" "ws w6" "ws w7"
        "jobject obj" "ws w8" "ws t" by blast
    let ?b = "w0 @ ''{'' @ w1 @ ''\"name\"'' @ w2 @ '':'' @ w3 @ ''\"'' @ n @ ''\"'' @ w4 @ '','' @
            w5 @ ''\"arguments\"'' @ w6 @ '':'' @ w7 @ obj @ w8 @ ''}''"
    have "tool_call_body ns ?b"
      unfolding tool_call_body_def
      by (rule exI [of _ n], rule exI [of _ w0], rule exI [of _ w1], rule exI [of _ w2], rule exI [of _ w3],
          rule exI [of _ w4], rule exI [of _ w5], rule exI [of _ w6], rule exI [of _ w7], rule exI [of _ obj],
          rule exI [of _ w8]) (simp add: w)
    with s w(13) show ?R by (intro exI [of _ ?b] exI [of _ t]) simp
  next
    assume ?R
    then obtain body t where s: "s = body @ t" and t: "ws t" and "tool_call_body ns body" by blast
    then obtain n w0 w1 w2 w3 w4 w5 w6 w7 obj w8 where
      b: "body = w0 @ ''{'' @ w1 @ ''\"name\"'' @ w2 @ '':'' @ w3 @ ''\"'' @ n @ ''\"'' @ w4 @ '','' @
            w5 @ ''\"arguments\"'' @ w6 @ '':'' @ w7 @ obj @ w8 @ ''}''"
      and w: "n \<in> set ns" "QUOTE \<notin> set n" "jobject obj" "list_all ws [w0, w1, w2, w3, w4, w5, w6, w7, w8]"
      unfolding tool_call_body_def by blast
    show ?L
      by (rule exI [of _ w0], rule exI [of _ w1], rule exI [of _ w2], rule exI [of _ w3], rule exI [of _ n],
          rule exI [of _ w4], rule exI [of _ w5], rule exI [of _ w6], rule exI [of _ w7], rule exI [of _ obj],
          rule exI [of _ w8], rule exI [of _ t]) (use s b t w in simp)
  qed
  finally show ?thesis by (simp add: acc_def)
qed

end
