(* ===== verification/Mask_Cache.thy ===== *)
theory Mask_Cache
  imports Tool_Grammar "HOL-Library.Word"
begin

unbundle bit_operations_syntax

text \<open>
  The cache of legal-token bitmasks, \<^verbatim>\<open>struct ToolMaskCache\<close> of \<^verbatim>\<open>src/src/toolgram.h\<close>.  A mask is a
  vector of 32-bit words, one bit per vocabulary id.  \<open>get\<close> looks the machine's signature up,
  builds the mask on a miss and shares it with an equal mask already stored (the second map,
  keyed in the source by the bytes of the mask, is keyed here by the vector itself).

  The lookup is stated for any state type, key and mask builder, and the locale \<open>mask_key\<close>
  carries the one law it needs: on the states that occur, equal keys mean equal masks.  The
  interpretation on \<open>signature\<close> is the soundness of the signature proved in \<^verbatim>\<open>Tool_Grammar\<close>.
\<close>

section \<open>Building one mask\<close>

type_synonym mask = "32 word list"

definition mask_words :: "string list \<Rightarrow> nat" where
  "mask_words vocab = (length vocab + 31) div 32"

text \<open>The legality of one token id.\<close>

definition id_ok :: "string list \<Rightarrow> int \<Rightarrow> grammar \<Rightarrow> nat \<Rightarrow> bool" where
  "id_ok vocab closer g tid =
     (if int tid = closer then done_ok g
      else if vocab ! tid = [] then False
      else token_ok g (vocab ! tid))"

definition set_mask_bit :: "nat \<Rightarrow> mask \<Rightarrow> mask" where
  "set_mask_bit tid m = m[tid div 32 := m ! (tid div 32) OR push_bit (tid mod 32) 1]"

definition mask_step :: "(nat \<Rightarrow> bool) \<Rightarrow> nat \<Rightarrow> mask \<Rightarrow> mask" where
  "mask_step ok tid m = (if ok tid then set_mask_bit tid m else m)"

definition build_mask :: "string list \<Rightarrow> int \<Rightarrow> grammar \<Rightarrow> mask" where
  "build_mask vocab closer g =
     fold (mask_step (id_ok vocab closer g)) [0..<length vocab] (replicate (mask_words vocab) 0)"

definition mask_bit :: "mask \<Rightarrow> nat \<Rightarrow> bool" where
  "mask_bit m tid = bit (m ! (tid div 32)) (tid mod 32)"

section \<open>The cache\<close>

record mask_cache =
  mc_vocab :: "string list"
  mc_closer :: int
  mc_index :: "string \<Rightarrow> nat option"
  mc_content :: "mask \<Rightarrow> nat option"
  mc_masks :: "mask list"

definition cache_init :: "string list \<Rightarrow> int \<Rightarrow> mask_cache" where
  "cache_init vocab closer =
     \<lparr>mc_vocab = vocab, mc_closer = closer, mc_index = Map.empty, mc_content = Map.empty,
      mc_masks = []\<rparr>"

definition cache_get ::
    "('g \<Rightarrow> string) \<Rightarrow> (string list \<Rightarrow> int \<Rightarrow> 'g \<Rightarrow> mask) \<Rightarrow> mask_cache \<Rightarrow> 'g \<Rightarrow> nat \<times> mask_cache" where
  "cache_get sig build c g =
     (case mc_index c (sig g) of
        Some i \<Rightarrow> (i, c)
      | None \<Rightarrow>
          let m = build (mc_vocab c) (mc_closer c) g
          in case mc_content c m of
               Some i \<Rightarrow> (i, c\<lparr>mc_index := (mc_index c)(sig g \<mapsto> i)\<rparr>)
             | None \<Rightarrow>
                 let i = length (mc_masks c)
                 in (i, c\<lparr>mc_masks := mc_masks c @ [m],
                          mc_content := (mc_content c)(m \<mapsto> i),
                          mc_index := (mc_index c)(sig g \<mapsto> i)\<rparr>))"

definition mask_get :: "mask_cache \<Rightarrow> grammar \<Rightarrow> nat \<times> mask_cache" where
  "mask_get = cache_get signature build_mask"

section \<open>A mask holds exactly the legal ids\<close>

lemma length_set_mask_bit [simp]: "length (set_mask_bit tid m) = length m"
  by (simp add: set_mask_bit_def)

lemma length_mask_step [simp]: "length (mask_step ok tid m) = length m"
  by (simp add: mask_step_def)

lemma length_fold_mask_step [simp]: "length (fold (mask_step ok) ids m) = length m"
  by (induction ids arbitrary: m) simp_all

lemma mask_bit_set:
  assumes "tid div 32 < length m"
  shows "mask_bit (set_mask_bit tid m) k \<longleftrightarrow> mask_bit m k \<or> k = tid"
proof (cases "k div 32 = tid div 32")
  case True
  have "k = tid \<longleftrightarrow> k mod 32 = tid mod 32" using True by (metis div_mult_mod_eq)
  moreover have "bit (push_bit (tid mod 32) (1 :: 32 word)) (k mod 32) \<longleftrightarrow> k mod 32 = tid mod 32"
    by (auto simp: bit_simps)
  ultimately show ?thesis
    using assms True by (simp add: mask_bit_def set_mask_bit_def bit_or_iff)
next
  case False
  then show ?thesis by (auto simp: mask_bit_def set_mask_bit_def)
qed

lemma mask_bit_fold:
  "\<forall>tid\<in>set ids. tid div 32 < length m \<Longrightarrow>
     mask_bit (fold (mask_step ok) ids m) k \<longleftrightarrow> mask_bit m k \<or> k \<in> set ids \<and> ok k"
  by (induction ids arbitrary: m) (auto simp: mask_step_def mask_bit_set)

lemma words_cover: "tid < length vocab \<Longrightarrow> tid div 32 < mask_words vocab"
  unfolding mask_words_def by linarith

lemma length_build_mask [simp]: "length (build_mask vocab closer g) = mask_words vocab"
  by (simp add: build_mask_def)

lemma build_mask_bit:
  assumes "tid < length vocab"
  shows "mask_bit (build_mask vocab closer g) tid \<longleftrightarrow> id_ok vocab closer g tid"
proof -
  have "mask_bit (build_mask vocab closer g) tid \<longleftrightarrow>
      mask_bit (replicate (mask_words vocab) 0) tid \<or> id_ok vocab closer g tid"
    using assms words_cover unfolding build_mask_def by (subst mask_bit_fold) auto
  moreover have "\<not> mask_bit (replicate (mask_words vocab) 0) tid"
    using words_cover [OF assms] by (simp add: mask_bit_def)
  ultimately show ?thesis by blast
qed

section \<open>The cache invariant\<close>

text \<open>
  \<open>cache_wf sig build occurs c\<close>: every index entry points at the mask of each state with that
  key that can occur, the content map is the inverse of the mask list, and no mask is stored twice.
\<close>

definition cache_wf ::
    "('g \<Rightarrow> string) \<Rightarrow> (string list \<Rightarrow> int \<Rightarrow> 'g \<Rightarrow> mask) \<Rightarrow> ('g \<Rightarrow> bool) \<Rightarrow> mask_cache \<Rightarrow> bool" where
  "cache_wf sig build occurs c \<longleftrightarrow>
     (\<forall>g i. occurs g \<longrightarrow> mc_index c (sig g) = Some i \<longrightarrow>
        i < length (mc_masks c) \<and> mc_masks c ! i = build (mc_vocab c) (mc_closer c) g) \<and>
     (\<forall>m i. mc_content c m = Some i \<longleftrightarrow> i < length (mc_masks c) \<and> mc_masks c ! i = m) \<and>
     distinct (mc_masks c)"

lemma cache_wf_init: "cache_wf sig build occurs (cache_init vocab closer)"
  by (simp add: cache_wf_def cache_init_def)

locale mask_key =
  fixes sig :: "'g \<Rightarrow> string"
    and build :: "string list \<Rightarrow> int \<Rightarrow> 'g \<Rightarrow> mask"
    and occurs :: "'g \<Rightarrow> bool"
  assumes key_sound: "occurs g \<Longrightarrow> occurs h \<Longrightarrow> sig g = sig h \<Longrightarrow> build v k g = build v k h"
begin

lemma get_correct:
  assumes wf: "cache_wf sig build occurs c" and g: "occurs g" and get: "cache_get sig build c g = (i, c')"
  shows "cache_wf sig build occurs c'" and "i < length (mc_masks c')"
    and "mc_masks c' ! i = build (mc_vocab c) (mc_closer c) g"
    and "mc_vocab c' = mc_vocab c" "mc_closer c' = mc_closer c"
    and "prefix (mc_masks c) (mc_masks c')"
proof -
  let ?m = "build (mc_vocab c) (mc_closer c) g"
  have "cache_wf sig build occurs c' \<and> i < length (mc_masks c') \<and> mc_masks c' ! i = ?m \<and>
      mc_vocab c' = mc_vocab c \<and> mc_closer c' = mc_closer c \<and> prefix (mc_masks c) (mc_masks c')"
  proof (cases "mc_index c (sig g)")
    case (Some j)
    with get wf g show ?thesis by (auto simp: cache_get_def cache_wf_def)
  next
    case None
    note miss = None
    have same: "build (mc_vocab c) (mc_closer c) h = ?m" if "occurs h" "sig h = sig g" for h
      using key_sound [OF that(1) g that(2)] .
    show ?thesis
    proof (cases "mc_content c ?m")
      case (Some j)
      then have "j < length (mc_masks c)" "mc_masks c ! j = ?m"
        using wf by (auto simp: cache_wf_def)
      with Some miss get wf same show ?thesis
        by (auto simp: cache_get_def cache_wf_def Let_def split: if_splits)
    next
      case None
      have inv: "mc_content c m = Some k \<longleftrightarrow> k < length (mc_masks c) \<and> mc_masks c ! k = m" for m k
        using wf unfolding cache_wf_def by blast
      have fresh: "mc_masks c ! k \<noteq> ?m" if "k < length (mc_masks c)" for k
        using None inv [of ?m k] that by simp
      then have "?m \<notin> set (mc_masks c)" by (auto simp: in_set_conv_nth)
      moreover have "cache_get sig build c g =
          (length (mc_masks c), c\<lparr>mc_masks := mc_masks c @ [?m],
             mc_content := (mc_content c)(?m \<mapsto> length (mc_masks c)),
             mc_index := (mc_index c)(sig g \<mapsto> length (mc_masks c))\<rparr>)"
        using None miss by (simp add: cache_get_def Let_def)
      ultimately show ?thesis using get wf same fresh
        by (auto simp: cache_wf_def nth_append less_Suc_eq split: if_splits)
    qed
  qed
  then show "cache_wf sig build occurs c'" and "i < length (mc_masks c')"
    and "mc_masks c' ! i = ?m" and "mc_vocab c' = mc_vocab c" "mc_closer c' = mc_closer c"
    and "prefix (mc_masks c) (mc_masks c')"
    by blast+
qed

end

lemma build_mask_signature:
  assumes "tg_reach g" "tg_reach h" "signature g = signature h"
  shows "build_mask v k g = build_mask v k h"
proof -
  note eq = signature_sound_tokens [OF tg_reach_sig_inv [OF assms(1)] tg_reach_sig_inv [OF assms(2)] assms(3)]
  have "id_ok v k g = id_ok v k h"
    using eq by (auto simp: id_ok_def fun_eq_iff)
  then show ?thesis by (simp add: build_mask_def)
qed

interpretation tg_mask: mask_key signature build_mask tg_reach
  by unfold_locales (rule build_mask_signature)

abbreviation mask_cache_wf :: "mask_cache \<Rightarrow> bool" where
  "mask_cache_wf \<equiv> cache_wf signature build_mask tg_reach"

lemmas mask_get_correct = tg_mask.get_correct [folded mask_get_def]

section \<open>Properties\<close>



end
