(* ===== verification/Tool_Grammar_Live.thy ===== *)
theory Tool_Grammar_Live
  imports Mask_Cache
begin

text \<open>
  The tool-call machine has no dead end.  A run that has accepted every byte so far can always be
  completed to the closing tag, provided the allowlist is not empty and no name holds a double quote;
  with a vocabulary that has a token for each byte, the mask of a live state is therefore never empty.
  The proof gives each state of the machine a next byte that brings it nearer to the closing tag.
\<close>

section \<open>Live machines\<close>

text \<open>The states inside a JSON value, all of which have a container on the stack.\<close>

definition in_value :: "st \<Rightarrow> bool" where
  "in_value s \<longleftrightarrow> st_index J_VALUE < st_index s \<and> st_index s \<le> st_index J_AFTER_VAL"

definition usable_names :: "string list \<Rightarrow> bool" where
  "usable_names ns \<longleftrightarrow> ns \<noteq> [] \<and> list_all (\<lambda>n. QUOTE \<notin> set n) ns"

definition live :: "grammar \<Rightarrow> bool" where
  "live g \<longleftrightarrow> \<not> dead g \<and> usable_names (names g) \<and> set (stack g) \<subseteq> {CHR ''{'', CHR ''[''} \<and>
     (in_value (st g) \<longrightarrow> stack g \<noteq> []) \<and>
     (st g = J_KEY \<longrightarrow> top_is g (CHR ''{'')) \<and>
     (st g = J_LIT \<longrightarrow> lit g < length (lit_word g)) \<and>
     (st g = NAME_VAL \<longrightarrow> (\<exists>n\<in>set (names g). prefix (name_pref g) n)) \<and>
     (st g = CLOSER \<longrightarrow> lit g < length (lit_word g))"

lemma live_reset: "usable_names ns \<Longrightarrow> live (reset g ns)"
  by (simp add: live_def reset_def in_value_def)

text \<open>Each clause is kept by every accepted byte; the first one is kept by opening and closing containers.\<close>

lemma step_in_value:
  "step g c = (True, g') \<Longrightarrow> live g \<Longrightarrow> in_value (st g') \<longrightarrow> stack g' \<noteq> []"
  by (cases "st g") (auto simp: step_def step_helpers live_def in_value_def top_is_def split: if_splits)

lemma step_key: "step g c = (True, g') \<Longrightarrow> live g \<Longrightarrow> st g' = J_KEY \<longrightarrow> top_is g' (CHR ''{'')"
  by (cases "st g") (auto simp: step_def step_helpers live_def top_is_def split: if_splits)

lemma step_lit: "step g c = (True, g') \<Longrightarrow> live g \<Longrightarrow> st g' = J_LIT \<longrightarrow> lit g' < length (lit_word g')"
  by (cases "st g") (auto simp: step_def step_helpers live_def split: if_splits)

lemma step_name:
  "step g c = (True, g') \<Longrightarrow> live g \<Longrightarrow> st g' = NAME_VAL \<longrightarrow> (\<exists>n\<in>set (names g'). prefix (name_pref g') n)"
  by (cases "st g")
    (auto simp: step_def step_helpers live_def usable_names_def list_ex_iff neq_Nil_conv split: if_splits)

lemma step_closer: "step g c = (True, g') \<Longrightarrow> live g \<Longrightarrow> st g' = CLOSER \<longrightarrow> lit g' < length (lit_word g')"
  by (cases "st g") (auto simp: step_def step_helpers live_def split: if_splits)

lemma live_step: "step g c = (True, g') \<Longrightarrow> live g \<Longrightarrow> live g'"
  using step_frame [of g c True g'] step_stack [of g c True g'] step_in_value [of g c g'] step_key [of g c g']
    step_lit [of g c g'] step_name [of g c g'] step_closer [of g c g']
  unfolding live_def by simp

section \<open>Every live machine can be closed\<close>

inductive can_close :: "grammar \<Rightarrow> bool" where
  closed: "st g = CLOSED \<Longrightarrow> can_close g"
| move: "step g c = (True, g') \<Longrightarrow> can_close g' \<Longrightarrow> can_close g"

lemma can_close_by:
  assumes "live g" "fst (step g c)" "live (snd (step g c)) \<Longrightarrow> can_close (snd (step g c))"
  shows "can_close g"
proof -
  have s: "step g c = (True, snd (step g c))" using assms(2) by (metis prod.collapse)
  show ?thesis by (rule move [OF s assms(3) [OF live_step [OF s assms(1)]]])
qed

lemmas machine = step_def step_helpers top_is_def is_ws_def num_ends_def is_digit_def is_digit19_def is_hex_def
  in_range_def strchr_esc_def

lemma close_CLOSER: "live g \<Longrightarrow> st g = CLOSER \<Longrightarrow> can_close g"
proof (induction "length (lit_word g) - lit g" arbitrary: g rule: less_induct)
  case less
  have l: "lit g < length (lit_word g)" using less.prems by (simp add: live_def)
  show ?case
    by (rule can_close_by [OF less.prems(1), of "lit_word g ! lit g"])
      (use l less in \<open>auto simp: step_def step_helpers intro: closed\<close>)
qed

lemma close_DONE: "live g \<Longrightarrow> st g = DONE \<Longrightarrow> can_close g"
  by (rule can_close_by [of _ "CHR ''<''"]) (simp_all add: machine close_CLOSER)

lemma close_OBJ_CLOSE: "live g \<Longrightarrow> st g = OBJ_CLOSE \<Longrightarrow> can_close g"
  by (rule can_close_by [of _ "CHR ''}''"]) (simp_all add: machine close_DONE)

text \<open>After a value the open containers are closed one by one.\<close>

definition closing :: "grammar \<Rightarrow> char" where
  "closing g = (if hd (stack g) = CHR ''{'' then CHR ''}'' else CHR '']'')"

lemma live_stack: "live g \<Longrightarrow> in_value (st g) \<Longrightarrow>
    stack g \<noteq> [] \<and> (hd (stack g) = CHR ''{'' \<or> hd (stack g) = CHR ''['')"
  by (cases "stack g") (auto simp: live_def)

lemma close_AFTER_VAL: "live g \<Longrightarrow> st g = J_AFTER_VAL \<Longrightarrow> can_close g"
proof (induction "length (stack g)" arbitrary: g)
  case 0
  then show ?case using live_stack [of g] by (simp add: in_value_def)
next
  case (Suc n)
  have top: "hd (stack g) = CHR ''{'' \<or> hd (stack g) = CHR ''[''" "stack g \<noteq> []"
    using live_stack [OF Suc.prems(1)] Suc.prems(2) by (simp_all add: in_value_def)
  have IH: "live (g\<lparr>stack := tl (stack g), st := J_AFTER_VAL\<rparr>) \<Longrightarrow>
      can_close (g\<lparr>stack := tl (stack g), st := J_AFTER_VAL\<rparr>)"
    using Suc by simp
  show ?case
    by (rule can_close_by [OF Suc.prems(1), of "closing g"])
      (use top IH Suc.prems in \<open>auto simp: machine closing_def close_OBJ_CLOSE\<close>)
qed

text \<open>A number that may end here ends with the closing byte of its container.\<close>

lemma closing_step:
  assumes "live g" "st g = J_AFTER_VAL"
  shows "fst (step g (closing g)) \<and> can_close (snd (step g (closing g)))"
proof -
  have top: "hd (stack g) = CHR ''{'' \<or> hd (stack g) = CHR ''[''" "stack g \<noteq> []"
    using live_stack [OF assms(1)] assms(2) by (simp_all add: in_value_def)
  have 1: "fst (step g (closing g))"
    "st (snd (step g (closing g))) = OBJ_CLOSE \<or> st (snd (step g (closing g))) = J_AFTER_VAL"
    using top assms(2) by (auto simp: machine closing_def)
  then have "live (snd (step g (closing g)))" using live_step [OF _ assms(1)] by (metis prod.collapse)
  with 1 close_OBJ_CLOSE close_AFTER_VAL show ?thesis by blast
qed

lemma num_end_step:
  assumes "st g \<in> {J_NUM_ZERO, J_NUM_INT, J_NUM_FRAC, J_NUM_EXP}"
  shows "step g (closing g) = step (g\<lparr>st := J_AFTER_VAL\<rparr>) (closing g)"
proof -
  have "\<not> is_digit (closing g)" "num_ends (closing g)" "closing g \<noteq> CHR ''.''" "closing g \<noteq> CHR ''e''"
    "closing g \<noteq> CHR ''E''"
    by (simp_all add: closing_def is_digit_def in_range_def num_ends_def)
  then have "step g (closing g) = num_end_redispatch g (closing g)" using assms by (elim insertE) (simp_all add: step_def)
  then show ?thesis by (simp add: num_end_redispatch_def step_def [of "g\<lparr>st := J_AFTER_VAL\<rparr>"])
qed

lemma live_after: "live g \<Longrightarrow> in_value (st g) \<Longrightarrow> live (g\<lparr>st := J_AFTER_VAL\<rparr>)"
  by (simp add: live_def in_value_def)

lemma close_number:
  assumes "live g" "st g \<in> {J_NUM_ZERO, J_NUM_INT, J_NUM_FRAC, J_NUM_EXP}"
  shows "can_close g"
proof -
  have "in_value (st g)" using assms(2) by (auto simp: in_value_def)
  then have "fst (step g (closing g)) \<and> can_close (snd (step g (closing g)))"
    using closing_step [OF live_after [OF assms(1)]] num_end_step [OF assms(2)] by (simp add: closing_def)
  then show ?thesis using can_close_by [OF assms(1)] by blast
qed

text \<open>The other states inside a value, in the order in which they lead to one another.\<close>

lemma close_strings:
  "live g \<Longrightarrow> st g = J_STR \<Longrightarrow> can_close g"
  "live g \<Longrightarrow> st g = J_STR_ESC \<Longrightarrow> can_close g"
proof -
  show 1: "live g \<Longrightarrow> st g = J_STR \<Longrightarrow> can_close g" for g
    by (rule can_close_by [of _ QUOTE]) (simp_all add: machine close_AFTER_VAL)
  show "live g \<Longrightarrow> st g = J_STR_ESC \<Longrightarrow> can_close g"
    by (rule can_close_by [of _ "CHR ''n''"]) (simp_all add: machine 1)
qed

lemma close_hex:
  "live g \<Longrightarrow> st g = J_STR_U4 \<Longrightarrow> can_close g"
  "live g \<Longrightarrow> st g = J_STR_U3 \<Longrightarrow> can_close g"
  "live g \<Longrightarrow> st g = J_STR_U2 \<Longrightarrow> can_close g"
  "live g \<Longrightarrow> st g = J_STR_U1 \<Longrightarrow> can_close g"
proof -
  show 4: "live g \<Longrightarrow> st g = J_STR_U4 \<Longrightarrow> can_close g" for g
    by (rule can_close_by [of _ "CHR ''0''"]) (simp_all add: machine close_strings)
  show 3: "live g \<Longrightarrow> st g = J_STR_U3 \<Longrightarrow> can_close g" for g
    by (rule can_close_by [of _ "CHR ''0''"]) (simp_all add: machine 4)
  show 2: "live g \<Longrightarrow> st g = J_STR_U2 \<Longrightarrow> can_close g" for g
    by (rule can_close_by [of _ "CHR ''0''"]) (simp_all add: machine 3)
  show 1: "live g \<Longrightarrow> st g = J_STR_U1 \<Longrightarrow> can_close g" for g
    by (rule can_close_by [of _ "CHR ''0''"]) (simp_all add: machine 2)
qed

lemma close_digits:
  "live g \<Longrightarrow> st g \<in> {J_NUM_MINUS, J_NUM_DOT, J_NUM_ESIGN, J_NUM_E} \<Longrightarrow> can_close g"
  by (rule can_close_by [of _ "CHR ''0''"]) (auto simp: machine close_number)

lemma close_LIT: "live g \<Longrightarrow> st g = J_LIT \<Longrightarrow> can_close g"
proof (induction "length (lit_word g) - lit g" arbitrary: g rule: less_induct)
  case less
  have l: "lit g < length (lit_word g)" using less.prems by (simp add: live_def)
  show ?case
    by (rule can_close_by [OF less.prems(1), of "lit_word g ! lit g"])
      (use l less in \<open>auto simp: step_def step_helpers close_AFTER_VAL\<close>)
qed

lemma close_KEY: "live g \<Longrightarrow> st g = J_KEY \<Longrightarrow> can_close g"
  by (rule can_close_by [of _ "CHR ''}''"])
    (auto simp: machine live_def [of g] close_OBJ_CLOSE close_AFTER_VAL)

lemma close_VALUE: "live g \<Longrightarrow> st g \<in> {J_VALUE, J_VALUE_REQ} \<Longrightarrow> can_close g"
proof (cases "stack g = []")
  case True
  assume l: "live g" "st g \<in> {J_VALUE, J_VALUE_REQ}"
  then have "st g = J_VALUE" using True live_stack [of g] by (auto simp: in_value_def)
  with True show ?thesis
    by - (rule can_close_by [OF l(1), of "CHR ''{''"], simp_all add: machine close_KEY)
next
  case False
  assume l: "live g" "st g \<in> {J_VALUE, J_VALUE_REQ}"
  show ?thesis
    by (rule can_close_by [OF l(1), of "CHR ''0''"]) (use False l in \<open>auto simp: machine close_number\<close>)
qed

lemma close_keys:
  "live g \<Longrightarrow> st g = J_KEYCOLON \<Longrightarrow> can_close g"
  "live g \<Longrightarrow> st g = J_KEYSTR \<Longrightarrow> can_close g"
  "live g \<Longrightarrow> st g = J_KEYESC \<Longrightarrow> can_close g"
  "live g \<Longrightarrow> st g = J_KEY_REQ \<Longrightarrow> can_close g"
proof -
  show 1: "live g \<Longrightarrow> st g = J_KEYCOLON \<Longrightarrow> can_close g" for g
    by (rule can_close_by [of _ "CHR '':''"]) (simp_all add: machine close_VALUE)
  show 2: "live g \<Longrightarrow> st g = J_KEYSTR \<Longrightarrow> can_close g" for g
    by (rule can_close_by [of _ QUOTE]) (simp_all add: machine 1)
  show "live g \<Longrightarrow> st g = J_KEYESC \<Longrightarrow> can_close g" for g
    by (rule can_close_by [of _ QUOTE]) (simp_all add: machine 2)
  show "live g \<Longrightarrow> st g = J_KEY_REQ \<Longrightarrow> can_close g" for g
    by (rule can_close_by [of _ QUOTE]) (simp_all add: machine 2)
qed

lemma close_key_hex:
  "live g \<Longrightarrow> st g = J_KEY_U4 \<Longrightarrow> can_close g"
  "live g \<Longrightarrow> st g = J_KEY_U3 \<Longrightarrow> can_close g"
  "live g \<Longrightarrow> st g = J_KEY_U2 \<Longrightarrow> can_close g"
  "live g \<Longrightarrow> st g = J_KEY_U1 \<Longrightarrow> can_close g"
proof -
  show 4: "live g \<Longrightarrow> st g = J_KEY_U4 \<Longrightarrow> can_close g" for g
    by (rule can_close_by [of _ "CHR ''0''"]) (simp_all add: machine close_keys)
  show 3: "live g \<Longrightarrow> st g = J_KEY_U3 \<Longrightarrow> can_close g" for g
    by (rule can_close_by [of _ "CHR ''0''"]) (simp_all add: machine 4)
  show 2: "live g \<Longrightarrow> st g = J_KEY_U2 \<Longrightarrow> can_close g" for g
    by (rule can_close_by [of _ "CHR ''0''"]) (simp_all add: machine 3)
  show 1: "live g \<Longrightarrow> st g = J_KEY_U1 \<Longrightarrow> can_close g" for g
    by (rule can_close_by [of _ "CHR ''0''"]) (simp_all add: machine 2)
qed

text \<open>The envelope before the arguments: keywords and the name.\<close>

lemma close_kw:
  assumes "\<And>g c. st g = s \<Longrightarrow> step g c = match_kw g c kw s'"
    and "\<And>g. live g \<Longrightarrow> st g = s' \<Longrightarrow> can_close g"
  shows "live g \<Longrightarrow> st g = s \<Longrightarrow> can_close g"
proof (induction "length kw - lit g" arbitrary: g rule: less_induct)
  case less
  show ?case
    by (rule can_close_by [OF less.prems(1), of "if lit g < length kw then kw ! lit g else QUOTE"])
      (use less assms in \<open>auto simp: match_kw_def goto_def\<close>)
qed

lemma close_ARGS:
  "live g \<Longrightarrow> st g = ARGS_COLON \<Longrightarrow> can_close g"
  "live g \<Longrightarrow> st g = ARGKEY \<Longrightarrow> can_close g"
  "live g \<Longrightarrow> st g = ARGKEY_OPEN_Q \<Longrightarrow> can_close g"
  "live g \<Longrightarrow> st g = ARG_COMMA \<Longrightarrow> can_close g"
proof -
  show 1: "live g \<Longrightarrow> st g = ARGS_COLON \<Longrightarrow> can_close g" for g
    by (rule can_close_by [of _ "CHR '':''"]) (simp_all add: machine close_VALUE)
  show 2: "live g \<Longrightarrow> st g = ARGKEY \<Longrightarrow> can_close g" for g
    by (rule close_kw [of ARGKEY "''arguments''" ARGS_COLON]) (simp_all add: step_def 1)
  show 3: "live g \<Longrightarrow> st g = ARGKEY_OPEN_Q \<Longrightarrow> can_close g" for g
    by (rule can_close_by [of _ QUOTE]) (simp_all add: machine 2)
  show 4: "live g \<Longrightarrow> st g = ARG_COMMA \<Longrightarrow> can_close g" for g
    by (rule can_close_by [of _ "CHR '',''"]) (simp_all add: machine 3)
qed

lemma close_NAME_VAL: "live g \<Longrightarrow> st g = NAME_VAL \<Longrightarrow> can_close g"
proof -
  assume "live g" "st g = NAME_VAL"
  then obtain n r where "n \<in> set (names g)" "n = name_pref g @ r" by (auto simp: live_def prefix_def)
  then show ?thesis using \<open>live g\<close> \<open>st g = NAME_VAL\<close>
  proof (induction r arbitrary: g)
    case Nil
    show ?case
      by (rule can_close_by [OF Nil.prems(3), of QUOTE])
        (use Nil.prems in \<open>simp_all add: step_def step_helpers close_ARGS\<close>)
  next
    case (Cons c r)
    have q: "c \<noteq> QUOTE" using Cons.prems by (auto simp: live_def usable_names_def list_all_iff)
    have p: "list_ex (prefix (name_pref g @ [c])) (names g)"
      using Cons.prems by (auto simp: list_ex_iff intro!: bexI [of _ n])
    show ?case
      by (rule can_close_by [OF Cons.prems(3), of c])
        (use q p Cons in \<open>simp_all add: step_def step_helpers\<close>)
  qed
qed

lemma close_NAME:
  "live g \<Longrightarrow> st g = NAME_OPEN_Q \<Longrightarrow> can_close g"
  "live g \<Longrightarrow> st g = KEY_COLON \<Longrightarrow> can_close g"
  "live g \<Longrightarrow> st g = KEY_NAME \<Longrightarrow> can_close g"
  "live g \<Longrightarrow> st g = KEY_OPEN_Q \<Longrightarrow> can_close g"
  "live g \<Longrightarrow> st g = WS_OBJ_OPEN \<Longrightarrow> can_close g"
proof -
  show 1: "live g \<Longrightarrow> st g = NAME_OPEN_Q \<Longrightarrow> can_close g" for g
    by (rule can_close_by [of _ QUOTE]) (simp_all add: machine close_NAME_VAL)
  show 2: "live g \<Longrightarrow> st g = KEY_COLON \<Longrightarrow> can_close g" for g
    by (rule can_close_by [of _ "CHR '':''"]) (simp_all add: machine 1)
  show 3: "live g \<Longrightarrow> st g = KEY_NAME \<Longrightarrow> can_close g" for g
    by (rule close_kw [of KEY_NAME "''name''" KEY_COLON]) (simp_all add: step_def 2)
  show 4: "live g \<Longrightarrow> st g = KEY_OPEN_Q \<Longrightarrow> can_close g" for g
    by (rule can_close_by [of _ QUOTE]) (simp_all add: machine 3)
  show 5: "live g \<Longrightarrow> st g = WS_OBJ_OPEN \<Longrightarrow> can_close g" for g
    by (rule can_close_by [of _ "CHR ''{''"]) (simp_all add: machine 4)
qed

lemma live_can_close: "live g \<Longrightarrow> can_close g"
  by (cases "st g")
    (simp_all add: close_NAME close_NAME_VAL close_ARGS close_VALUE close_strings close_hex close_digits
      close_number close_LIT close_KEY close_keys close_key_hex close_AFTER_VAL close_OBJ_CLOSE close_DONE
      close_CLOSER can_close.closed)

section \<open>No dead end, no empty mask\<close>

lemma advance_live: "advance g c = (True, g') \<Longrightarrow> live g \<Longrightarrow> live g'"
  by (auto simp: advance_def live_step split: if_splits prod.splits bool.splits)

lemma advance_str_live: "advance_str g s = (True, g') \<Longrightarrow> live g \<Longrightarrow> live g'"
  by (induction s arbitrary: g) (auto split: prod.splits bool.splits dest: advance_live)

lemma can_close_run: "can_close g \<Longrightarrow> live g \<Longrightarrow> \<exists>t g'. advance_str g t = (True, g') \<and> closed g'"
proof (induction rule: can_close.induct)
  case (closed g)
  then have "advance_str g [] = (True, g) \<and> Tool_Grammar.closed g" by (simp add: closed_def live_def)
  then show ?case by blast
next
  case (move g c g')
  have a: "advance g c = (True, g')" using move.hyps(1) move.prems by (simp add: advance_def live_def)
  from move.IH [OF live_step [OF move.hyps(1) move.prems]] obtain t g'' where
    "advance_str g' t = (True, g'') \<and> closed g''" by blast
  with a have "advance_str g (c # t) = (True, g'') \<and> closed g''" by simp
  then show ?case by blast
qed

lemma live_next: "live g \<Longrightarrow> \<exists>c. token_ok g [c]"
proof -
  assume l: "live g"
  then have "st g = CLOSED \<or> (\<exists>c g'. step g c = (True, g'))"
    using live_can_close [OF l] by (auto elim: can_close.cases)
  moreover have "st g = CLOSED \<Longrightarrow> step g c = (True, g)" for c by (simp add: step_def)
  ultimately obtain c g' where "step g c = (True, g')" by blast
  with l show ?thesis by (auto simp: token_ok_def advance_def live_def intro!: exI [of _ c])
qed

text \<open>
  C12: constrained decoding never gets stuck.  When the allowlist is not empty and no tool name holds a double
  quote, every accepted text can be completed to a closed call, and with a vocabulary that has a token
  for each byte the mask of the state it reaches has a bit set.
\<close>

theorem grammar_never_stuck:
  assumes "usable_names ns" "advance_str (reset g ns) s = (True, g1)"
    and "\<forall>c. \<exists>i<length vocab. int i \<noteq> closer \<and> vocab ! i = [c]"
  shows "(\<exists>t g2. advance_str g1 t = (True, g2) \<and> closed g2) \<and>
    (\<exists>tid<length vocab. mask_bit (build_mask vocab closer g1) tid)"
proof
  have l: "live g1" using advance_str_live [OF assms(2) live_reset [OF assms(1)]] .
  show "\<exists>t g2. advance_str g1 t = (True, g2) \<and> closed g2" by (rule can_close_run [OF live_can_close [OF l] l])
  obtain c where c: "token_ok g1 [c]" using live_next [OF l] by blast
  obtain i where i: "i < length vocab" "int i \<noteq> closer" "vocab ! i = [c]" using assms(3) by blast
  then have "id_ok vocab closer g1 i" using c by (simp add: id_ok_def)
  then show "\<exists>tid<length vocab. mask_bit (build_mask vocab closer g1) tid" using i build_mask_bit by blast
qed

definition byte_vocab :: "string list" where
  "byte_vocab = map (\<lambda>n. [char_of n]) [0..<256]"

theorem grammar_never_stuck_witness:
  "(\<exists>t g2. advance_str (demo_at [''ls''] '' {'') t = (True, g2) \<and> closed g2) \<and>
    (\<exists>tid<length byte_vocab. mask_bit (build_mask byte_vocab (- 1) (demo_at [''ls''] '' {'')) tid)"
proof (rule grammar_never_stuck)
  show "usable_names [''ls'']" by (simp add: usable_names_def)
  show "advance_str (reset grammar_init [''ls'']) '' {'' = (True, demo_at [''ls''] '' {'')" by code_simp
  have "byte_vocab ! of_char c = [c]" for c :: char by (simp add: byte_vocab_def)
  moreover have "(of_char c :: nat) < length byte_vocab" for c :: char by (simp add: byte_vocab_def)
  ultimately show "\<forall>c. \<exists>i<length byte_vocab. int i \<noteq> - 1 \<and> byte_vocab ! i = [c]" by force
qed

end
