(* ===== verification/Tool_Constrain.thy ===== *)
theory Tool_Constrain
  imports Mask_Cache
begin

text \<open>
  Per-request constrained decoding, \<^verbatim>\<open>struct BasicToolConstrainer\<close> of \<^verbatim>\<open>src/src/toolconstrain.h\<close>,
  on the mask pool of the engine (\<^verbatim>\<open>mask_pool_add\<close> and \<^verbatim>\<open>set_tool_constraint\<close> of
  \<^verbatim>\<open>src/src/metal/metal_engine.cpp\<close>, \<^verbatim>\<open>set_tool_masks5\<close> of the CUDA engine).  The tokenizer's
  \<^verbatim>\<open>decode_one\<close> is the parameter \<open>dec\<close>.  The engine throws when asked to select a mask outside its
  pool, so the operations return an option; the invariant shows they never throw, that the
  selected mask is exactly the legal set of the staged grammar state, and that nothing stays
  selected once the constraint is off.
\<close>

section \<open>The engine's mask pool\<close>

record engine =
  pool :: "mask list"
  pool_cap :: nat
  active_mask :: int
  lanes :: "int list"

definition mask_pool_add :: "engine \<Rightarrow> mask \<Rightarrow> int \<times> engine" where
  "mask_pool_add e m =
     (if length (pool e) \<ge> pool_cap e then (-1, e)
      else (int (length (pool e)), e\<lparr>pool := pool e @ [m]\<rparr>))"

definition set_tool_constraint :: "engine \<Rightarrow> int \<Rightarrow> engine option" where
  "set_tool_constraint e m =
     (if m \<ge> int (length (pool e)) then None
      else Some (e\<lparr>active_mask := (if m < 0 then -1 else m)\<rparr>))"

definition set_tool_masks5 :: "engine \<Rightarrow> int list \<Rightarrow> engine" where
  "set_tool_masks5 e ids = e\<lparr>lanes := ids\<rparr>"

section \<open>The constrainer\<close>

record constrainer =
  eng :: engine
  cache :: mask_cache
  host2dev :: "int list"
  enabled :: bool
  active :: bool
  pool_dead :: bool
  tg :: grammar
  staged_state :: grammar
  tc_names :: "string list"
  tail :: string
  skip_feed :: nat
  engaged :: nat
  disengaged :: nat
  pool_drops :: nat
  rebinds :: nat

definition tc_begin :: "constrainer \<Rightarrow> string list \<Rightarrow> constrainer" where
  "tc_begin t n = t\<lparr>active := False, pool_dead := False, skip_feed := 0, tail := [], tc_names := n\<rparr>"

definition grow :: "int list \<Rightarrow> nat \<Rightarrow> int list" where
  "grow h n = (if length h < n then h @ replicate (n - length h) (-2) else h)"

definition mask_id :: "constrainer \<Rightarrow> grammar \<Rightarrow> int \<times> constrainer" where
  "mask_id t g =
     (let (ci, c') = mask_get (cache t) g;
          h = grow (host2dev t) (ci + 1);
          slot0 = h ! ci;
          stale = slot0 \<ge> 0 \<and> slot0 \<ge> int (length (pool (eng t)));
          slot1 = (if stale then -2 else slot0);
          (slot2, e') = (if slot1 < 0 then mask_pool_add (eng t) (mc_masks c' ! ci) else (slot1, eng t))
      in (slot2, t\<lparr>cache := c', host2dev := h[ci := slot2], eng := e',
                    rebinds := rebinds t + (if stale then 1 else 0)\<rparr>))"

definition drop_constraint :: "constrainer \<Rightarrow> constrainer option" where
  "drop_constraint t =
     (if active t then
        (case set_tool_constraint (eng t) (-1) of
           None \<Rightarrow> None
         | Some e \<Rightarrow> Some (t\<lparr>eng := e, active := False, disengaged := disengaged t + 1\<rparr>))
      else Some t)"

definition apply_mask :: "constrainer \<Rightarrow> grammar \<Rightarrow> constrainer option" where
  "apply_mask t g =
     (let (slot, t') = mask_id t g
      in if slot < 0 then
           drop_constraint (t'\<lparr>pool_drops := pool_drops t' + 1, pool_dead := True\<rparr>)
         else
           let t'' = t'\<lparr>staged_state := g\<rparr>
           in (case set_tool_constraint (eng t'') slot of
                 None \<Rightarrow> None
               | Some e \<Rightarrow> Some (t''\<lparr>eng := e\<rparr>)))"

text \<open>\<open>on_drafts\<close>: the lane loop carries the machine, whether it is alive, and the ids so far.\<close>

fun draft_lanes ::
    "(int \<Rightarrow> string) \<Rightarrow> int list \<Rightarrow> constrainer \<Rightarrow> grammar \<Rightarrow> bool \<Rightarrow> int list \<Rightarrow> int list \<times> constrainer" where
  "draft_lanes dec [] t c alive ids = (ids, t)"
| "draft_lanes dec (d # ds) t c alive ids =
     (let (alive', c') = (if alive then advance_str c (dec d) else (False, c));
          (i, t') = (if alive' then mask_id t c' else (last ids, t));
          i' = (if i < 0 then (if last ids < 0 then hd ids else last ids) else i)
      in draft_lanes dec ds t' c' alive' (ids @ [i']))"

definition on_drafts :: "(int \<Rightarrow> string) \<Rightarrow> constrainer \<Rightarrow> int list \<Rightarrow> constrainer" where
  "on_drafts dec t dr =
     (let (i0, t0) = mask_id t (staged_state t);
          (ids, t1) = draft_lanes dec (take 4 dr) t0 (staged_state t) True [i0]
      in if hd ids < 0 then t1 else t1\<lparr>eng := set_tool_masks5 (eng t1) ids\<rparr>)"

definition on_pending :: "(int \<Rightarrow> string) \<Rightarrow> constrainer \<Rightarrow> int \<Rightarrow> constrainer option" where
  "on_pending dec t tid =
     (if \<not> enabled t \<or> \<not> active t \<or> tid < 0 then Some t
      else case advance_str (tg t) (dec tid) of
             (False, _) \<Rightarrow> Some t
           | (True, peek) \<Rightarrow>
               if closed peek then
                 (case set_tool_constraint (eng t) (-1) of
                    None \<Rightarrow> None | Some e \<Rightarrow> Some (t\<lparr>eng := e\<rparr>))
               else apply_mask t peek)"

definition CALL_OPEN :: string where "CALL_OPEN = ''<tool_call>''"

text \<open>Unsigned 64-bit subtraction: a token longer than the window makes the difference wrap.\<close>

definition size_sub :: "nat \<Rightarrow> nat \<Rightarrow> nat" where
  "size_sub a b = (if b \<le> a then a - b else 2 ^ 64 + a - b)"

definition roll_tail :: "string \<Rightarrow> string \<Rightarrow> string" where
  "roll_tail w bytes = (let t = w @ bytes in if length t > 64 then drop (length t - 64) t else t)"

text \<open>\<open>scan_round\<close>, at token number \<open>j\<close> of the round; \<open>None\<close> when the engine threw.\<close>

fun scan_from ::
    "(int \<Rightarrow> string) \<Rightarrow> nat \<Rightarrow> int list \<Rightarrow> constrainer \<Rightarrow> (int \<times> constrainer) option" where
  "scan_from dec j [] t = Some (-1, t)"
| "scan_from dec j (em # ems) t =
     (let bytes = dec em;
          t1 = t\<lparr>tail := roll_tail (tail t) bytes\<rparr>
      in case rfind_sub CALL_OPEN (tail t1) of
           None \<Rightarrow> scan_from dec (j + 1) ems t1
         | Some pos \<Rightarrow>
             if pos + 11 \<le> size_sub (length (tail t1)) (length bytes) then scan_from dec (j + 1) ems t1
             else
               let (ok, g) = advance_str (reset (tg t1) (tc_names t1)) (drop (pos + 11) (tail t1));
                   t2 = t1\<lparr>tg := g, active := True, engaged := engaged t1 + 1\<rparr>
               in if \<not> ok then
                    (case drop_constraint t2 of
                       None \<Rightarrow> None | Some t3 \<Rightarrow> scan_from dec (j + 1) ems t3)
                  else if closed g then scan_from dec (j + 1) ems (t2\<lparr>active := False\<rparr>)
                  else
                    (case apply_mask t2 g of
                       None \<Rightarrow> None
                     | Some t3 \<Rightarrow>
                         if \<not> active t3 then
                           (if pool_dead t3 then Some (-1, t3) else scan_from dec (j + 1) ems t3)
                         else Some (int j + 1, t3\<lparr>skip_feed := j + 1\<rparr>)))"

definition scan_round :: "(int \<Rightarrow> string) \<Rightarrow> constrainer \<Rightarrow> int list \<Rightarrow> (int \<times> constrainer) option" where
  "scan_round dec t em =
     (if \<not> enabled t \<or> tc_names t = [] \<or> active t \<or> pool_dead t then Some (-1, t)
      else scan_from dec 0 em t)"

definition on_id :: "(int \<Rightarrow> string) \<Rightarrow> constrainer \<Rightarrow> int \<Rightarrow> constrainer option" where
  "on_id dec t tid =
     (if \<not> enabled t then Some t
      else if skip_feed t > 0 then Some (t\<lparr>skip_feed := skip_feed t - 1\<rparr>)
      else if \<not> active t then Some t
      else case advance_str (tg t) (dec tid) of
             (False, g) \<Rightarrow> drop_constraint (t\<lparr>tg := g\<rparr>)
           | (True, g) \<Rightarrow>
               if closed g then
                 (case set_tool_constraint (eng t) (-1) of
                    None \<Rightarrow> None
                  | Some e \<Rightarrow> Some (t\<lparr>tg := g, eng := e, active := False, tail := []\<rparr>))
               else Some (t\<lparr>tg := g\<rparr>))"

definition tc_end :: "constrainer \<Rightarrow> constrainer option" where
  "tc_end t = (if active t then drop_constraint t else Some t)"

section \<open>The invariant\<close>

text \<open>
  \<open>dev_wf\<close>: the cache is exact and every device id recorded for a cached mask names a pool entry
  with the same bits.
\<close>

definition dev_wf :: "constrainer \<Rightarrow> bool" where
  "dev_wf t \<longleftrightarrow>
     mask_cache_wf (cache t) \<and> length (host2dev t) \<le> length (mc_masks (cache t)) \<and>
     (\<forall>ci < length (host2dev t). 0 \<le> host2dev t ! ci \<longrightarrow>
        host2dev t ! ci < int (length (pool (eng t))) \<and>
        pool (eng t) ! nat (host2dev t ! ci) = mc_masks (cache t) ! ci)"

abbreviation legal_mask :: "constrainer \<Rightarrow> grammar \<Rightarrow> mask" where
  "legal_mask t g \<equiv> build_mask (mc_vocab (cache t)) (mc_closer (cache t)) g"

lemma grow_length [simp]: "length (grow h n) = max (length h) n"
  by (simp add: grow_def)

lemma grow_nth: "i < max (length h) n \<Longrightarrow> grow h n ! i = (if i < length h then h ! i else -2)"
  by (auto simp: grow_def nth_append)

lemma prefix_nth: "prefix xs ys \<Longrightarrow> i < length xs \<Longrightarrow> ys ! i = xs ! i"
  by (auto simp: prefix_def nth_append)

text \<open>
  \<open>same_request t t'\<close>: the fields \<open>mask_id\<close> leaves alone, and the pool only grows.
\<close>

definition mask_id_frame :: "constrainer \<Rightarrow> constrainer \<Rightarrow> bool" where
  "mask_id_frame t t' \<longleftrightarrow>
     mc_vocab (cache t') = mc_vocab (cache t) \<and> mc_closer (cache t') = mc_closer (cache t) \<and>
     enabled t' = enabled t \<and> active t' = active t \<and> pool_dead t' = pool_dead t \<and> tg t' = tg t \<and>
     staged_state t' = staged_state t \<and> tc_names t' = tc_names t \<and> tail t' = tail t \<and>
     skip_feed t' = skip_feed t \<and> rebinds t' = rebinds t \<and>
     active_mask (eng t') = active_mask (eng t) \<and> lanes (eng t') = lanes (eng t) \<and>
     pool_cap (eng t') = pool_cap (eng t) \<and> prefix (pool (eng t)) (pool (eng t'))"

lemma mask_id_correct:
  assumes wf: "dev_wf t" and g: "tg_reach g" and r: "mask_id t g = (slot, t')"
  shows "dev_wf t' \<and> mask_id_frame t t' \<and>
    (slot \<ge> 0 \<longrightarrow> slot < int (length (pool (eng t'))) \<and> pool (eng t') ! nat slot = legal_mask t g)"
proof -
  obtain ci c' where get: "mask_get (cache t) g = (ci, c')" by fastforce
  have cw: "mask_cache_wf (cache t)" using wf by (simp add: dev_wf_def)
  note C = mask_get_correct [OF cw g get]
  define h where "h = grow (host2dev t) (Suc ci)"
  have len: "length h \<le> length (mc_masks c')" "ci < length h"
    using wf C(2,6) by (auto simp: h_def dev_wf_def dest: prefix_length_le)
  have old: "h ! k < int (length (pool (eng t))) \<and> pool (eng t) ! nat (h ! k) = mc_masks c' ! k"
    if k: "0 \<le> h ! k" "k < length h" for k
  proof -
    have in_map: "k < length (host2dev t)" "h ! k = host2dev t ! k"
      using k by (auto simp: h_def grow_nth split: if_splits)
    moreover have "mc_masks c' ! k = mc_masks (cache t) ! k"
      by (rule prefix_nth [OF C(6)]) (use wf in_map(1) in \<open>simp add: dev_wf_def\<close>)
    ultimately show ?thesis using wf k(1) by (simp add: dev_wf_def)
  qed
  have not_stale: "\<not> (h ! ci \<ge> 0 \<and> h ! ci \<ge> int (length (pool (eng t))))"
    using old [of ci] len by auto
  consider (hit) "h ! ci \<ge> 0" | (full) "h ! ci < 0" "length (pool (eng t)) \<ge> pool_cap (eng t)"
    | (add) "h ! ci < 0" "length (pool (eng t)) < pool_cap (eng t)" by linarith
  then show ?thesis
  proof cases
    case hit
    then have "mask_id t g = (h ! ci, t\<lparr>cache := c', host2dev := h[ci := h ! ci], eng := eng t\<rparr>)"
      using not_stale by (simp add: mask_id_def get Let_def h_def [symmetric])
    with r hit C old len show ?thesis
      by (auto simp: dev_wf_def mask_id_frame_def)
  next
    case full
    then have "mask_id t g = (-1, t\<lparr>cache := c', host2dev := h[ci := -1], eng := eng t\<rparr>)"
      using not_stale by (simp add: mask_id_def get Let_def h_def [symmetric] mask_pool_add_def)
    with r full C old len show ?thesis
      by (auto simp: dev_wf_def mask_id_frame_def nth_list_update split: if_splits)
  next
    case add
    let ?n = "int (length (pool (eng t)))"
    have "mask_id t g = (?n, t\<lparr>cache := c', host2dev := h[ci := ?n],
        eng := (eng t)\<lparr>pool := pool (eng t) @ [mc_masks c' ! ci]\<rparr>\<rparr>)"
      using add not_stale by (simp add: mask_id_def get Let_def h_def [symmetric] mask_pool_add_def)
    moreover have "(h[ci := ?n]) ! k < int (length (pool (eng t) @ [mc_masks c' ! ci])) \<and>
        (pool (eng t) @ [mc_masks c' ! ci]) ! nat (h[ci := ?n] ! k) = mc_masks c' ! k"
      if "k < length h" "0 \<le> h[ci := ?n] ! k" for k
      using that old [of k] by (cases "k = ci") (auto simp: nth_append nat_less_iff)
    ultimately show ?thesis using r add C len
      by (auto simp: dev_wf_def mask_id_frame_def)
  qed
qed

definition tc_base :: "constrainer \<Rightarrow> bool" where
  "tc_base t \<longleftrightarrow> dev_wf t \<and> tg_reach (tg t) \<and> tg_reach (staged_state t) \<and> ok_names (tc_names t)"

definition mask_selected :: "constrainer \<Rightarrow> bool" where
  "mask_selected t \<longleftrightarrow>
     0 \<le> active_mask (eng t) \<and> active_mask (eng t) < int (length (pool (eng t))) \<and>
     pool (eng t) ! nat (active_mask (eng t)) = legal_mask t (staged_state t)"

definition tc_wf :: "constrainer \<Rightarrow> bool" where
  "tc_wf t \<longleftrightarrow> tc_base t \<and>
     (active t \<longrightarrow> \<not> dead (tg t) \<and> \<not> closed (tg t)) \<and>
     (\<not> active t \<longrightarrow> active_mask (eng t) = -1) \<and>
     (active_mask (eng t) = -1 \<or> mask_selected t)"

lemma advance_str_alive: "advance_str g s = (True, g') \<Longrightarrow> \<not> dead g \<Longrightarrow> \<not> dead g'"
proof (induction s arbitrary: g)
  case (Cons c s)
  then obtain h where h: "advance g c = (True, h)" "advance_str h s = (True, g')"
    by (auto split: prod.splits bool.splits)
  then have "step g c = (True, h)" using Cons.prems(2)
    by (auto simp: advance_def split: prod.splits bool.splits if_splits)
  then have "\<not> dead h" using step_frame Cons.prems(2) by blast
  with Cons.IH h(2) show ?case by blast
qed simp

lemma advance_str_reach: "advance_str g s = (b, g') \<Longrightarrow> tg_reach g \<Longrightarrow> tg_reach g'"
  using tg_reach_advance_str [of g s] by simp

lemma drop_constraint_wf:
  assumes "tc_base t" "active t"
  shows "\<exists>t'. drop_constraint t = Some t' \<and> tc_wf t' \<and> \<not> active t' \<and> tc_names t' = tc_names t \<and>
    enabled t' = enabled t \<and> pool_dead t' = pool_dead t \<and> cache t' = cache t"
  using assms
  by (auto simp: drop_constraint_def set_tool_constraint_def tc_wf_def tc_base_def dev_wf_def)

lemma mask_id_base:
  assumes "tc_base t" "tg_reach g" "mask_id t g = (slot, t')"
  shows "tc_base t'"
  using mask_id_correct [of t g slot t'] assms by (auto simp: tc_base_def mask_id_frame_def)

text \<open>What applying a mask guarantees: the constraint is on and exact, or dropped for good.\<close>

lemma apply_mask_wf:
  assumes "tc_base t" "active t" "\<not> dead (tg t)" "\<not> closed (tg t)" "tg_reach g"
  shows "\<exists>t'. apply_mask t g = Some t' \<and> tc_wf t' \<and> tc_names t' = tc_names t \<and>
    enabled t' = enabled t \<and> mc_vocab (cache t') = mc_vocab (cache t) \<and>
    mc_closer (cache t') = mc_closer (cache t) \<and>
    (if active t' then mask_selected t' \<and> staged_state t' = g \<and> tg t' = tg t \<and> tail t' = tail t
     else pool_dead t')"
proof -
  obtain slot t1 where m: "mask_id t g = (slot, t1)" by fastforce
  have wf: "dev_wf t" using assms(1) by (simp add: tc_base_def)
  note C = mask_id_correct [OF wf assms(5) m]
  note B = mask_id_base [OF assms(1,5) m]
  show ?thesis
  proof (cases "slot < 0")
    case True
    let ?t = "t1\<lparr>pool_drops := pool_drops t1 + 1, pool_dead := True\<rparr>"
    have "tc_base ?t" "active ?t"
      using B C assms(2) by (auto simp: tc_base_def dev_wf_def mask_id_frame_def)
    from drop_constraint_wf [OF this] obtain t' where d: "drop_constraint ?t = Some t'" "tc_wf t'"
      "\<not> active t'" "tc_names t' = tc_names t1" "enabled t' = enabled t1" "pool_dead t'" "cache t' = cache t1"
      by auto
    moreover have "apply_mask t g = Some t'" using True m d(1) by (simp add: apply_mask_def)
    moreover have "mask_id_frame t t1" using C by simp
    ultimately show ?thesis by (simp add: mask_id_frame_def)
  next
    case False
    then have "apply_mask t g =
        Some (t1\<lparr>staged_state := g, eng := (eng t1)\<lparr>active_mask := slot\<rparr>\<rparr>)"
      using m C by (auto simp: apply_mask_def set_tool_constraint_def Let_def)
    with False B C assms show ?thesis
      by (auto simp: tc_wf_def tc_base_def dev_wf_def mask_selected_def mask_id_frame_def)
  qed
qed

lemma draft_lanes_frame:
  assumes "tc_base t" "tg_reach c" "draft_lanes dec ds t c alive ids = (ids', t')"
  shows "tc_base t' \<and> mask_id_frame t t'"
  using assms
proof (induction ds arbitrary: t c alive ids)
  case Nil
  then show ?case by (auto simp: mask_id_frame_def)
next
  case (Cons d ds)
  obtain alive' c' where a: "(if alive then advance_str c (dec d) else (False, c)) = (alive', c')"
    by fastforce
  have c': "tg_reach c'" using a Cons.prems(2) advance_str_reach by (auto split: if_splits)
  obtain i t1 where i: "(if alive' then mask_id t c' else (last ids, t)) = (i, t1)" by fastforce
  have t1: "tc_base t1 \<and> mask_id_frame t t1"
  proof (cases alive')
    case True
    with i have m: "mask_id t c' = (i, t1)" by simp
    have "dev_wf t" using Cons.prems(1) by (simp add: tc_base_def)
    from mask_id_correct [OF this c' m] mask_id_base [OF Cons.prems(1) c' m] show ?thesis by blast
  next
    case False
    with i Cons.prems(1) show ?thesis by (auto simp: mask_id_frame_def)
  qed
  have "\<exists>ids''. draft_lanes dec ds t1 c' alive' ids'' = (ids', t')"
    using Cons.prems(3) a i by (auto simp: Let_def split: prod.splits)
  then obtain ids'' where "draft_lanes dec ds t1 c' alive' ids'' = (ids', t')" by blast
  from Cons.IH [OF conjunct1 [OF t1] c' this] t1 show ?case
    by (auto simp: mask_id_frame_def)
qed

text \<open>What an engaging scan leaves behind.\<close>

definition engaged_at :: "constrainer \<Rightarrow> int \<Rightarrow> bool" where
  "engaged_at t r \<longleftrightarrow>
     active t \<and> mask_selected t \<and> staged_state t = tg t \<and> int (skip_feed t) = r \<and>
     (\<exists>g0 pre rem. tail t = pre @ CALL_OPEN @ rem \<and>
        advance_str (reset g0 (tc_names t)) rem = (True, tg t))"

definition scan_post :: "constrainer \<Rightarrow> nat \<Rightarrow> nat \<Rightarrow> (int \<times> constrainer) option \<Rightarrow> bool" where
  "scan_post t j n res \<longleftrightarrow>
     (\<exists>r t'. res = Some (r, t') \<and> tc_wf t' \<and> tc_names t' = tc_names t \<and> enabled t' = enabled t \<and>
        mc_vocab (cache t') = mc_vocab (cache t) \<and> mc_closer (cache t') = mc_closer (cache t) \<and>
        (if r = -1 then \<not> active t' else int j < r \<and> r \<le> int j + int n \<and> engaged_at t' r))"

lemma scan_post_trans:
  assumes "scan_post t1 (Suc j) n res" "tc_names t1 = tc_names t" "enabled t1 = enabled t"
    "mc_vocab (cache t1) = mc_vocab (cache t)" "mc_closer (cache t1) = mc_closer (cache t)"
  shows "scan_post t j (Suc n) res"
  using assms by (force simp: scan_post_def split: if_splits)

lemma tc_wf_tail: "tc_wf t \<Longrightarrow> tc_wf (t\<lparr>tail := w\<rparr>)"
  by (simp add: tc_wf_def tc_base_def dev_wf_def mask_selected_def)

lemma CALL_OPEN_length [simp]: "length CALL_OPEN = 11"
  by (simp add: CALL_OPEN_def)

lemma rfind_sub_split:
  assumes "rfind_sub m s = Some i"
  shows "s = take i s @ m @ drop (i + length m) s"
proof -
  obtain zs where "drop i s = m @ zs" using rfind_sub_prefix [OF assms] by (auto simp: prefix_def)
  moreover from this have "zs = drop (i + length m) s"
    by (metis add.commute append_eq_conv_conj drop_drop)
  ultimately show ?thesis by (metis append_take_drop_id)
qed

lemma scan_from_post:
  "tc_wf t \<Longrightarrow> \<not> active t \<Longrightarrow> scan_post t j (length em) (scan_from dec j em t)"
proof (induction em arbitrary: t j)
  case Nil
  then show ?case by (simp add: scan_post_def)
next
  case (Cons e em)
  define t1 where "t1 = t\<lparr>tail := roll_tail (tail t) (dec e)\<rparr>"
  have t1: "tc_wf t1" "\<not> active t1" "tc_names t1 = tc_names t" "enabled t1 = enabled t"
    "cache t1 = cache t" "active_mask (eng t1) = -1"
    using Cons.prems tc_wf_tail by (auto simp: t1_def tc_wf_def)
  have next1: "scan_post t j (length (e # em)) (scan_from dec (j + 1) em u)"
    if "tc_wf u" "\<not> active u" "tc_names u = tc_names t" "enabled u = enabled t"
      "mc_vocab (cache u) = mc_vocab (cache t)" "mc_closer (cache u) = mc_closer (cache t)" for u
    using scan_post_trans [OF Cons.IH [OF that(1,2), of "Suc j"] that(3-6)] by simp
  show ?case
  proof (cases "rfind_sub CALL_OPEN (tail t1)")
    case None
    then show ?thesis using next1 [of t1] t1 by (simp add: Let_def t1_def)
  next
    case (Some pos)
    show ?thesis
    proof (cases "pos + 11 \<le> size_sub (length (tail t1)) (length (dec e))")
      case True
      with Some show ?thesis using next1 [of t1] t1 by (simp add: Let_def t1_def)
    next
      case False
      obtain ok g where g: "advance_str (reset (tg t1) (tc_names t1)) (drop (pos + 11) (tail t1)) = (ok, g)"
        by fastforce
      define t2 where "t2 = t1\<lparr>tg := g, active := True, engaged := engaged t1 + 1\<rparr>"
      have reach: "tg_reach g"
        by (rule advance_str_reach [OF g], rule tg_reset) (use t1(1) in \<open>auto simp: tc_wf_def tc_base_def\<close>)
      have base: "tc_base t2" "active t2" "tc_names t2 = tc_names t" "enabled t2 = enabled t"
        "cache t2 = cache t" "tg t2 = g" "tail t2 = tail t1" "active_mask (eng t2) = -1"
        using t1 reach by (auto simp: t2_def tc_wf_def tc_base_def dev_wf_def)
      have eq: "scan_from dec j (e # em) t =
          (if \<not> ok then (case drop_constraint t2 of None \<Rightarrow> None | Some t3 \<Rightarrow> scan_from dec (j + 1) em t3)
           else if closed g then scan_from dec (j + 1) em (t2\<lparr>active := False\<rparr>)
           else (case apply_mask t2 g of None \<Rightarrow> None
             | Some t3 \<Rightarrow> if \<not> active t3 then (if pool_dead t3 then Some (-1, t3) else scan_from dec (j + 1) em t3)
                 else Some (int j + 1, t3\<lparr>skip_feed := j + 1\<rparr>)))"
        using Some False g by (simp add: Let_def t1_def t2_def)
      consider (bad) "\<not> ok" | (fin) "ok" "closed g" | (on) "ok" "\<not> closed g" by blast
      then show ?thesis
      proof cases
        case bad
        from drop_constraint_wf [OF base(1,2)] obtain t3 where "drop_constraint t2 = Some t3"
          "tc_wf t3" "\<not> active t3" "tc_names t3 = tc_names t2" "enabled t3 = enabled t2" "cache t3 = cache t2"
          by auto
        then show ?thesis using bad next1 [of t3] base eq by simp
      next
        case fin
        have "tc_wf (t2\<lparr>active := False\<rparr>)"
          using base by (simp add: tc_wf_def tc_base_def dev_wf_def)
        then show ?thesis using fin next1 [of "t2\<lparr>active := False\<rparr>"] base eq by simp
      next
        case on
        have alive: "\<not> dead (tg t2)" "\<not> closed (tg t2)"
          using on g base(6) advance_str_alive by (auto simp: reset_def)
        from apply_mask_wf [OF base(1,2) alive reach] obtain t3 where t3: "apply_mask t2 g = Some t3"
          "tc_wf t3" "tc_names t3 = tc_names t2" "enabled t3 = enabled t2"
          "mc_vocab (cache t3) = mc_vocab (cache t2)" "mc_closer (cache t3) = mc_closer (cache t2)"
          "if active t3 then mask_selected t3 \<and> staged_state t3 = g \<and> tg t3 = tg t2 \<and> tail t3 = tail t2
           else pool_dead t3" by auto
        show ?thesis
        proof (cases "active t3")
          case False
          with t3 on eq base show ?thesis by (simp add: scan_post_def)
        next
          case True
          let ?t = "t3\<lparr>skip_feed := j + 1\<rparr>"
          have "tc_wf ?t" using t3(2) by (simp add: tc_wf_def tc_base_def dev_wf_def mask_selected_def)
          moreover have "tail t3 = take pos (tail t1) @ CALL_OPEN @ drop (pos + 11) (tail t1)"
            using rfind_sub_split [OF Some] True t3(7) base(7) by simp
          then have "engaged_at ?t (int j + 1)"
            unfolding engaged_at_def using True t3 base g on
            by (auto simp: mask_selected_def t2_def intro!: exI [of _ "tg t1"])
          ultimately show ?thesis using True t3 on eq base by (simp add: scan_post_def)
        qed
      qed
    qed
  qed
qed

lemma on_id_wf:
  assumes "tc_wf t"
  shows "\<exists>t'. on_id dec t tid = Some t' \<and> tc_wf t'"
proof -
  obtain b g where g: "advance_str (tg t) (dec tid) = (b, g)" by fastforce
  have reach: "tg_reach g"
    using advance_str_reach [OF g] assms by (simp add: tc_wf_def tc_base_def)
  have base: "tc_base (t\<lparr>tg := g\<rparr>)" using assms reach by (simp add: tc_wf_def tc_base_def dev_wf_def)
  consider (idle) "\<not> enabled t \<or> skip_feed t > 0 \<or> \<not> active t"
    | (bad) "enabled t" "skip_feed t = 0" "active t" "\<not> b" | (ok) "enabled t" "skip_feed t = 0" "active t" "b"
    by auto
  then show ?thesis
  proof cases
    case idle
    then show ?thesis using assms
      by (auto simp: on_id_def tc_wf_def tc_base_def dev_wf_def mask_selected_def)
  next
    case bad
    then show ?thesis using drop_constraint_wf [OF base] g by (auto simp: on_id_def)
  next
    case ok
    have "\<not> dead g" using advance_str_alive g ok assms by (auto simp: tc_wf_def)
    then show ?thesis using ok g assms reach
      by (auto simp: on_id_def set_tool_constraint_def tc_wf_def tc_base_def dev_wf_def mask_selected_def)
  qed
qed

lemma on_pending_wf:
  assumes "tc_wf t"
  shows "\<exists>t'. on_pending dec t tid = Some t' \<and> tc_wf t'"
proof -
  obtain b g where g: "advance_str (tg t) (dec tid) = (b, g)" by fastforce
  have reach: "tg_reach g"
    using advance_str_reach [OF g] assms by (simp add: tc_wf_def tc_base_def)
  show ?thesis
  proof (cases "enabled t \<and> active t \<and> tid \<ge> 0 \<and> b")
    case False
    then show ?thesis using assms g by (auto simp: on_pending_def split: bool.splits)
  next
    case True
    then have t: "tc_base t" "active t" "\<not> dead (tg t)" "\<not> closed (tg t)"
      using assms by (auto simp: tc_wf_def)
    show ?thesis
    proof (cases "closed g")
      case True
      with t \<open>enabled t \<and> active t \<and> tid \<ge> 0 \<and> b\<close> g show ?thesis
        by (auto simp: on_pending_def set_tool_constraint_def tc_wf_def tc_base_def dev_wf_def)
    next
      case False
      with apply_mask_wf [OF t reach] \<open>enabled t \<and> active t \<and> tid \<ge> 0 \<and> b\<close> g show ?thesis
        by (auto simp: on_pending_def)
    qed
  qed
qed

lemma tc_wf_frame:
  assumes "tc_wf t" "tc_base t'" "mask_id_frame t t'"
  shows "tc_wf t'"
  using assms by (auto simp: tc_wf_def mask_id_frame_def mask_selected_def prefix_nth nat_less_iff
      dest: prefix_length_le)

lemma on_drafts_wf:
  assumes "tc_wf t"
  shows "tc_wf (on_drafts dec t dr)"
proof -
  have base: "tc_base t" "dev_wf t" "tg_reach (staged_state t)"
    using assms by (auto simp: tc_wf_def tc_base_def)
  obtain i0 t0 where m: "mask_id t (staged_state t) = (i0, t0)" by fastforce
  have t0: "tc_base t0" "mask_id_frame t t0"
    using mask_id_base [OF base(1,3) m] mask_id_correct [OF base(2,3) m] by blast+
  obtain ids t1 where d: "draft_lanes dec (take 4 dr) t0 (staged_state t) True [i0] = (ids, t1)"
    by fastforce
  have "tc_wf t1"
    using tc_wf_frame [OF tc_wf_frame [OF assms t0]] draft_lanes_frame [OF t0(1) base(3) d] by blast
  then show ?thesis
    using m d by (auto simp: on_drafts_def set_tool_masks5_def tc_wf_def tc_base_def dev_wf_def mask_selected_def)
qed

section \<open>The constrainer as a state machine\<close>

text \<open>A request begins when no constraint is on; then the hooks run in any order.\<close>

inductive tc_step :: "(int \<Rightarrow> string) \<Rightarrow> constrainer \<Rightarrow> constrainer \<Rightarrow> bool" for dec where
  request: "\<not> active t \<Longrightarrow> ok_names ns \<Longrightarrow> tc_step dec t (tc_begin t ns)"
| scan: "scan_round dec t em = Some (r, t') \<Longrightarrow> tc_step dec t t'"
| feed: "on_id dec t tid = Some t' \<Longrightarrow> tc_step dec t t'"
| pending: "on_pending dec t tid = Some t' \<Longrightarrow> tc_step dec t t'"
| drafts: "tc_step dec t (on_drafts dec t dr)"
| finish: "tc_end t = Some t' \<Longrightarrow> tc_step dec t t'"

definition tc_init :: "string list \<Rightarrow> int \<Rightarrow> nat \<Rightarrow> constrainer" where
  "tc_init vocab closer cap =
     \<lparr>eng = \<lparr>pool = [], pool_cap = cap, active_mask = -1, lanes = replicate 5 (-1)\<rparr>,
      cache = cache_init vocab closer, host2dev = [], enabled = True, active = False,
      pool_dead = False, tg = grammar_init, staged_state = grammar_init, tc_names = [], tail = [],
      skip_feed = 0, engaged = 0, disengaged = 0, pool_drops = 0, rebinds = 0\<rparr>"

lemma tc_wf_init: "tc_wf (tc_init vocab closer cap)"
  using cache_wf_init
  by (simp add: tc_init_def tc_wf_def tc_base_def dev_wf_def tg_init ok_names_def)

lemma scan_round_post: "tc_wf t \<Longrightarrow>
    \<exists>r t'. scan_round dec t em = Some (r, t') \<and> tc_wf t' \<and>
      (r \<noteq> -1 \<longrightarrow> engaged_at t' r \<and> 0 < r \<and> r \<le> int (length em) \<and> tc_names t' = tc_names t \<and>
         mc_vocab (cache t') = mc_vocab (cache t) \<and> mc_closer (cache t') = mc_closer (cache t))"
  using scan_from_post [of t 0 em dec]
  by (cases "\<not> enabled t \<or> tc_names t = [] \<or> active t \<or> pool_dead t")
    (force simp: scan_round_def scan_post_def split: if_splits)+

lemma tc_end_wf: "tc_wf t \<Longrightarrow> \<exists>t'. tc_end t = Some t' \<and> tc_wf t'"
  using drop_constraint_wf [of t] by (auto simp: tc_end_def tc_wf_def)

lemma tc_step_wf: "tc_step dec t t' \<Longrightarrow> tc_wf t \<Longrightarrow> tc_wf t'"
proof (induction rule: tc_step.induct)
  case (request t ns)
  then show ?case
    by (auto simp: tc_begin_def tc_wf_def tc_base_def dev_wf_def mask_selected_def)
next
  case (scan t em r t')
  then show ?case using scan_round_post [of t dec em] by auto
next
  case (feed t tid t')
  then show ?case using on_id_wf [of t dec tid] by auto
next
  case (pending t tid t')
  then show ?case using on_pending_wf [of t dec tid] by auto
next
  case (drafts t dr)
  then show ?case by (rule on_drafts_wf)
next
  case (finish t t')
  then show ?case using tc_end_wf [of t] by auto
qed

lemma tc_reach_wf: "(tc_step dec)\<^sup>*\<^sup>* (tc_init vocab closer cap) t \<Longrightarrow> tc_wf t"
  by (induction rule: rtranclp_induct) (auto simp: tc_wf_init tc_step_wf)

section \<open>Properties\<close>

lemma selected_bits:
  assumes "mask_selected t" "tid < length (mc_vocab (cache t))"
  shows "mask_bit (pool (eng t) ! nat (active_mask (eng t))) tid =
    id_ok (mc_vocab (cache t)) (mc_closer (cache t)) (staged_state t) tid"
  using assms build_mask_bit by (simp add: mask_selected_def)


text \<open>
  Engaging is exact.  When the scan of a round reports the cut \<open>r\<close>, the marker completed in
  the decoded text, the grammar was reset on this request's tool names and has accepted every
  byte after the marker, and the mask selected for the next decision allows exactly the ids that
  are legal in that grammar state.
\<close>

theorem scan_round_engages:
  assumes "(tc_step dec)\<^sup>*\<^sup>* (tc_init vocab closer cap) t"
  shows "case scan_round dec t em of
      None \<Rightarrow> False
    | Some (r, t') \<Rightarrow> r = -1 \<or>
        0 < r \<and> r \<le> int (length em) \<and> active t' \<and> staged_state t' = tg t' \<and>
        (\<exists>g0 pre rem. tail t' = pre @ CALL_OPEN @ rem \<and>
           advance_str (reset g0 (tc_names t)) rem = (True, tg t')) \<and>
        (\<forall>v<length (mc_vocab (cache t)).
           mask_bit (pool (eng t') ! nat (active_mask (eng t'))) v =
           id_ok (mc_vocab (cache t)) (mc_closer (cache t)) (tg t') v)"
proof -
  have wf: "tc_wf t" using assms by (rule tc_reach_wf)
  obtain r t' where r: "scan_round dec t em = Some (r, t')"
    and p: "r \<noteq> -1 \<longrightarrow> engaged_at t' r \<and> 0 < r \<and> r \<le> int (length em) \<and> tc_names t' = tc_names t \<and>
         mc_vocab (cache t') = mc_vocab (cache t) \<and> mc_closer (cache t') = mc_closer (cache t)"
    using scan_round_post [OF wf] by blast
  show ?thesis
  proof (cases "r = -1")
    case False
    with p have e: "engaged_at t' r" "tc_names t' = tc_names t"
      "mc_vocab (cache t') = mc_vocab (cache t)" "mc_closer (cache t') = mc_closer (cache t)" by auto
    moreover have "mask_selected t'" "staged_state t' = tg t'" using e(1) by (auto simp: engaged_at_def)
    ultimately show ?thesis using False p r selected_bits [of t'] by (auto simp: engaged_at_def)
  qed (simp add: r)
qed

text \<open>A three-token vocabulary; the round below completes the marker in its second token.\<close>

definition demo_dec :: "int \<Rightarrow> string" where
  "demo_dec i = [''x'', ''<tool_call>'', ''{''] ! nat i"

definition demo_tc :: constrainer where
  "demo_tc = tc_begin (tc_init [''x'', ''<tool_call>'', ''{''] 7 64) [''ls'']"

lemma demo_tc_reach: "(tc_step demo_dec)\<^sup>*\<^sup>* (tc_init [''x'', ''<tool_call>'', ''{''] 7 64) demo_tc"
  unfolding demo_tc_def
  by (rule r_into_rtranclp, rule tc_step.request) (simp_all add: tc_init_def ok_names_def US_def)


theorem scan_round_engages_witness:
  "case scan_round demo_dec demo_tc [0, 1, 2] of
      None \<Rightarrow> False
    | Some (r, t') \<Rightarrow> r = 2 \<and> active t' \<and>
        (\<forall>v<length (mc_vocab (cache demo_tc)).
           mask_bit (pool (eng t') ! nat (active_mask (eng t'))) v =
           id_ok (mc_vocab (cache demo_tc)) (mc_closer (cache demo_tc)) (tg t') v)"
proof -
  have "case scan_round demo_dec demo_tc [0, 1, 2] of None \<Rightarrow> False | Some (r, t') \<Rightarrow> r = 2"
    by code_simp
  with scan_round_engages [OF demo_tc_reach, of "[0, 1, 2]"] show ?thesis
    by (auto split: option.splits)
qed

end
