(* ===== verification/Byte_Codec.thy ===== *)
theory Byte_Codec
  imports Q27_Prelude "HOL-Library.Word"
begin

text \<open>
  Little-endian integers in byte strings, as the model loader and the prefix cache read and write
  them with \<^verbatim>\<open>memcpy\<close> and \<^verbatim>\<open>pread\<close>, and the FNV-1a hash over bytes.
\<close>

type_synonym bytes = "8 word list"

definition le_val :: "bytes \<Rightarrow> int" where
  "le_val bs = foldr (\<lambda>b a. uint b + 256 * a) bs 0"

fun le_enc :: "nat \<Rightarrow> int \<Rightarrow> bytes" where
  "le_enc 0 v = []"
| "le_enc (Suc n) v = word_of_int v # le_enc n (v div 256)"

lemma length_le_enc [simp, q27_len]: "length (le_enc n v) = n"
  by (induction n arbitrary: v) simp_all

lemma le_val_nonneg: "0 \<le> le_val bs"
  by (induction bs) (simp_all add: le_val_def)

lemma le_val_enc: "0 \<le> v \<Longrightarrow> v < 256 ^ n \<Longrightarrow> le_val (le_enc n v) = v"
proof (induction n arbitrary: v)
  case (Suc n)
  have "le_val (le_enc n (v div 256)) = v div 256"
    using Suc.prems by (intro Suc.IH) (auto simp: div_less_iff_less_mult pos_imp_zdiv_nonneg_iff mult.commute)
  moreover have "uint (word_of_int v :: 8 word) = v mod 256"
    by (simp add: uint_word_of_int)
  ultimately show ?case by (simp add: le_val_def)
qed (simp add: le_val_def)

text \<open>Fixed-width encodings of words.\<close>

definition enc32 :: "32 word \<Rightarrow> bytes" where "enc32 w = le_enc 4 (uint w)"
definition enc64 :: "64 word \<Rightarrow> bytes" where "enc64 w = le_enc 8 (uint w)"
definition dec32 :: "bytes \<Rightarrow> 32 word" where "dec32 bs = word_of_int (le_val bs)"
definition dec64 :: "bytes \<Rightarrow> 64 word" where "dec64 bs = word_of_int (le_val bs)"

lemma dec_enc32 [simp]: "dec32 (enc32 w) = w"
proof -
  have "uint w < 256 ^ 4" using uint_lt2p [of w] by simp
  then show ?thesis by (simp add: dec32_def enc32_def le_val_enc)
qed

lemma dec_enc64 [simp]: "dec64 (enc64 w) = w"
proof -
  have "uint w < 256 ^ 8" using uint_lt2p [of w] by simp
  then show ?thesis by (simp add: dec64_def enc64_def le_val_enc)
qed

lemma length_enc [simp, q27_len]: "length (enc32 w) = 4" "length (enc64 v) = 8"
  by (simp_all add: enc32_def enc64_def)

text \<open>Arrays of 32-bit integers.\<close>

definition enc_toks :: "32 word list \<Rightarrow> bytes" where
  "enc_toks ts = concat (map enc32 ts)"

fun dec_toks :: "nat \<Rightarrow> bytes \<Rightarrow> 32 word list" where
  "dec_toks 0 bs = []"
| "dec_toks (Suc n) bs = dec32 (take 4 bs) # dec_toks n (drop 4 bs)"

lemma length_enc_toks [simp, q27_len]: "length (enc_toks ts) = 4 * length ts"
  by (induction ts) (simp_all add: enc_toks_def)

lemma dec_enc_toks [simp]: "dec_toks (length ts) (enc_toks ts @ r) = ts"
  by (induction ts) (simp_all add: enc_toks_def)

lemma length_dec_toks [simp]: "length (dec_toks n bs) = n"
  by (induction n arbitrary: bs) simp_all

text \<open>\<^verbatim>\<open>pfx_fnv1a64\<close>; the second argument is the running hash.\<close>

definition FNV_INIT :: "64 word" where "FNV_INIT = 1469598103934665603"
definition FNV_PRIME :: "64 word" where "FNV_PRIME = 1099511628211"

definition fnv1a64 :: "bytes \<Rightarrow> 64 word \<Rightarrow> 64 word" where
  "fnv1a64 bs h = foldl (\<lambda>h b. (xor h (ucast b)) * FNV_PRIME) h bs"

lemma fnv1a64_append: "fnv1a64 (xs @ ys) h = fnv1a64 ys (fnv1a64 xs h)"
  by (simp add: fnv1a64_def)

end
