(* ===== verification/Loader.thy ===== *)
theory Loader
  imports Byte_Codec
begin

text \<open>
  The model-file loader, \<^verbatim>\<open>src/src/loader.h\<close> and \<^verbatim>\<open>src/src/loader.cpp\<close>: \<open>load\<close> is \<^verbatim>\<open>Model::open\<close> on
  the bytes of the mapped file.  Sizes and offsets read from the file are 64-bit words and their
  arithmetic wraps; every \<^verbatim>\<open>throw\<close> is a constructor of \<open>load_error\<close>.  A data pointer is its
  offset in the mapping.  Opening, \<^verbatim>\<open>fstat\<close> and \<^verbatim>\<open>mmap\<close> are outside the model (the input is what
  they deliver), as are the move operations, which only transfer ownership of the mapping.
\<close>

section \<open>Data\<close>

datatype dtype = F32 | F16 | Q8_G128 | Q4_G64 | T2_G128 | T3_G128 | B1_G128

datatype load_error =
    InvalidFileSize | TruncatedFile | BadMagic | UnsupportedVersion | InvalidTensorCount
  | MetadataTooLarge | EmptyTensorName | NulInName | InvalidDType bytes | InvalidRank bytes
  | SizeOverflow bytes | ScalarTensor bytes | ZeroDimension bytes | ColsNotDivisible bytes
  | ByteSizeMismatch bytes | UnalignedBlob bytes | UnexpectedScaleOffset bytes
  | DataOffsetOverflow | TruncatedData | DataOutOfRange bytes | ScalesOutOfRange bytes
  | DuplicateTensor bytes | OverlappingBlobs bytes bytes | MissingTensor bytes

type_synonym 'a load = "load_error + 'a"

record tensor =
  t_name :: bytes
  t_dtype :: dtype
  shape :: "64 word list"
  data_size :: "64 word"
  scales_size :: "64 word"
  data_at :: nat
  scales_at :: "nat option"

definition MAGIC :: int where "MAGIC = 0x46373251"
definition VERSION :: int where "VERSION = 1"
definition ALIGN :: "64 word" where "ALIGN = 256"
definition MAX_TENSORS :: int where "MAX_TENSORS = 2 ^ 20"
definition MAX_META_BYTES :: int where "MAX_META_BYTES = 64 * 2 ^ 20"

text \<open>\<open>rows\<close>, \<open>cols\<close> and \<open>n_elements\<close>: unchecked 64-bit products.\<close>

definition rows :: "tensor \<Rightarrow> 64 word" where
  "rows t = (if length (shape t) \<le> 1 then 1 else fold (\<lambda>d r. r * d) (butlast (shape t)) 1)"

definition cols :: "tensor \<Rightarrow> 64 word" where
  "cols t = (if shape t = [] then 0 else last (shape t))"

definition n_elements :: "tensor \<Rightarrow> 64 word" where
  "n_elements t = rows t * cols t"

section \<open>The cursor\<close>

text \<open>A cursor is the list of bytes not read yet; integers are little-endian.\<close>

definition read_bytes :: "nat \<Rightarrow> bytes \<Rightarrow> (bytes \<times> bytes) load" where
  "read_bytes n c = (if length c < n then Inl TruncatedFile else Inr (take n c, drop n c))"

definition read_uint :: "nat \<Rightarrow> bytes \<Rightarrow> (int \<times> bytes) load" where
  "read_uint n c = rbind (read_bytes n c) (\<lambda>(bs, c'). Inr (le_val bs, c'))"

definition read_u64 :: "bytes \<Rightarrow> (64 word \<times> bytes) load" where
  "read_u64 c = rbind (read_uint 8 c) (\<lambda>(v, c'). Inr (word_of_int v, c'))"

fun read_dims :: "nat \<Rightarrow> bytes \<Rightarrow> (64 word list \<times> bytes) load" where
  "read_dims 0 c = Inr ([], c)"
| "read_dims (Suc n) c =
     rbind (read_u64 c) (\<lambda>(d, c1). rbind (read_dims n c1) (\<lambda>(ds, c2). Inr (d # ds, c2)))"

section \<open>Sizes\<close>

definition checked_mul :: "bytes \<Rightarrow> 64 word \<Rightarrow> 64 word \<Rightarrow> 64 word load" where
  "checked_mul what a b = (if a \<noteq> 0 \<and> b > (-1) div a then Inl (SizeOverflow what) else Inr (a * b))"

definition count_elements :: "bytes \<Rightarrow> 64 word list \<Rightarrow> 64 word load" where
  "count_elements nm dims =
     rfold (\<lambda>d e. if d = 0 then Inl (ZeroDimension nm) else checked_mul nm e d) dims 1"

text \<open>\<open>groups nm r c k\<close>: \<open>rows * (cols / k)\<close> and the two bytes of scale per group.\<close>

definition group_scales :: "bytes \<Rightarrow> 64 word \<Rightarrow> 64 word \<Rightarrow> 64 word \<Rightarrow> 64 word load" where
  "group_scales nm r c k = rbind (checked_mul nm r (c div k)) (\<lambda>g. checked_mul nm g 2)"

definition grouped ::
    "bytes \<Rightarrow> 64 word \<Rightarrow> 64 word \<Rightarrow> 64 word \<Rightarrow> 64 word load \<Rightarrow> (64 word \<times> 64 word) load" where
  "grouped nm r c k data =
     (if c mod k \<noteq> 0 then Inl (ColsNotDivisible nm)
      else rbind (group_scales nm r c k) (\<lambda>sc. rbind data (\<lambda>d. Inr (d, sc))))"

text \<open>\<open>expected_sizes\<close>: the byte sizes of the data and of the scales.\<close>

definition expected_sizes :: "bytes \<Rightarrow> dtype \<Rightarrow> 64 word list \<Rightarrow> (64 word \<times> 64 word) load" where
  "expected_sizes nm ty dims =
     (if dims = [] then Inl (ScalarTensor nm)
      else rbind (count_elements nm dims) (\<lambda>elements.
        let r = elements div last dims; c = last dims
        in case ty of
             F32 \<Rightarrow> rbind (checked_mul nm elements 4) (\<lambda>d. Inr (d, 0))
           | F16 \<Rightarrow> rbind (checked_mul nm elements 2) (\<lambda>d. Inr (d, 0))
           | Q8_G128 \<Rightarrow> grouped nm r c 128 (Inr elements)
           | Q4_G64 \<Rightarrow> grouped nm r c 64 (Inr (elements div 2))
           | T2_G128 \<Rightarrow> grouped nm r c 128 (Inr (elements div 4))
           | T3_G128 \<Rightarrow> grouped nm r c 128
               (rbind (checked_mul nm r (c div 128)) (\<lambda>g. checked_mul nm g 26))
           | B1_G128 \<Rightarrow> grouped nm r c 128 (Inr (elements div 8))))"

section \<open>The tensor table\<close>

definition dtype_of :: "int \<Rightarrow> dtype option" where
  "dtype_of n = (if n < 7 then Some ([F32, F16, Q8_G128, Q4_G64, T2_G128, T3_G128, B1_G128] ! nat n) else None)"

text \<open>An entry as the table states it: the tensor without its pointers, and its two offsets.\<close>

record entry =
  e_name :: bytes
  e_dtype :: dtype
  e_shape :: "64 word list"
  e_doff :: "64 word"
  e_dsize :: "64 word"
  e_soff :: "64 word"
  e_ssize :: "64 word"

definition check_entry :: "entry \<Rightarrow> entry load" where
  "check_entry e =
     rbind (expected_sizes (e_name e) (e_dtype e) (e_shape e)) (\<lambda>(want_data, want_scales).
       if e_dsize e \<noteq> want_data \<or> e_ssize e \<noteq> want_scales then Inl (ByteSizeMismatch (e_name e))
       else if e_doff e mod ALIGN \<noteq> 0 \<or> (e_ssize e \<noteq> 0 \<and> e_soff e mod ALIGN \<noteq> 0) then
         Inl (UnalignedBlob (e_name e))
       else if e_ssize e = 0 \<and> e_soff e \<noteq> 0 then Inl (UnexpectedScaleOffset (e_name e))
       else Inr e)"

definition read_name :: "bytes \<Rightarrow> (bytes \<times> bytes) load" where
  "read_name c =
     rbind (read_uint 2 c) (\<lambda>(nl, c1).
       if nl = 0 then Inl EmptyTensorName
       else rbind (read_bytes (nat nl) c1) (\<lambda>(nm, c2).
         if 0 \<in> set nm then Inl NulInName else Inr (nm, c2)))"

definition read_entry :: "bytes \<Rightarrow> (entry \<times> bytes) load" where
  "read_entry c =
     rbind (read_name c) (\<lambda>(nm, c1). rbind (read_uint 1 c1) (\<lambda>(ty, c2).
       case dtype_of ty of
         None \<Rightarrow> Inl (InvalidDType nm)
       | Some dt \<Rightarrow>
           rbind (read_uint 1 c2) (\<lambda>(nd, c3).
             if nd = 0 \<or> nd > 8 then Inl (InvalidRank nm)
             else rbind (read_dims (nat nd) c3) (\<lambda>(dims, c4).
               rbind (read_u64 c4) (\<lambda>(doff, c5). rbind (read_u64 c5) (\<lambda>(dsize, c6).
               rbind (read_u64 c6) (\<lambda>(soff, c7). rbind (read_u64 c7) (\<lambda>(ssize, c8).
               rbind (check_entry \<lparr>e_name = nm, e_dtype = dt, e_shape = dims, e_doff = doff,
                   e_dsize = dsize, e_soff = soff, e_ssize = ssize\<rparr>) (\<lambda>e. Inr (e, c8))))))))))"

fun read_entries :: "nat \<Rightarrow> bytes \<Rightarrow> (entry list \<times> bytes) load" where
  "read_entries 0 c = Inr ([], c)"
| "read_entries (Suc n) c =
     rbind (read_entry c) (\<lambda>(e, c1). rbind (read_entries n c1) (\<lambda>(es, c2). Inr (e # es, c2)))"

section \<open>Placing the blobs\<close>

type_synonym blob_range = "64 word \<times> 64 word \<times> bytes"

record placing =
  p_tensors :: "tensor list"
  p_ranges :: "blob_range list"
  p_index :: "bytes \<Rightarrow> nat option"

text \<open>The finished tensor, with its pointers, and the ranges its blobs occupy.\<close>

definition tensor_of :: "64 word \<Rightarrow> entry \<Rightarrow> tensor" where
  "tensor_of data_base e =
     \<lparr>t_name = e_name e, t_dtype = e_dtype e, shape = e_shape e, data_size = e_dsize e,
      scales_size = e_ssize e, data_at = unat data_base + unat (e_doff e),
      scales_at = (if e_ssize e \<noteq> 0 then Some (unat data_base + unat (e_soff e)) else None)\<rparr>"

definition ranges_of :: "entry \<Rightarrow> blob_range list" where
  "ranges_of e =
     (e_doff e, e_doff e + e_dsize e, e_name e) #
     (if e_ssize e \<noteq> 0 then [(e_soff e, e_soff e + e_ssize e, e_name e)] else [])"

definition place_entry :: "64 word \<Rightarrow> 64 word \<Rightarrow> entry \<Rightarrow> placing \<Rightarrow> placing load" where
  "place_entry data_base payload e p =
     (if e_doff e > payload \<or> e_dsize e > payload - e_doff e then Inl (DataOutOfRange (e_name e))
      else if e_ssize e \<noteq> 0 \<and> (e_soff e > payload \<or> e_ssize e > payload - e_soff e) then
        Inl (ScalesOutOfRange (e_name e))
      else if p_index p (e_name e) \<noteq> None then Inl (DuplicateTensor (e_name e))
      else Inr \<lparr>p_tensors = p_tensors p @ [tensor_of data_base e],
                p_ranges = p_ranges p @ ranges_of e,
                p_index = (p_index p)(e_name e \<mapsto> length (p_tensors p))\<rparr>)"

fun check_overlap :: "blob_range list \<Rightarrow> unit load" where
  "check_overlap (a # b # rs) =
     (if fst b < fst (snd a) then Inl (OverlappingBlobs (snd (snd a)) (snd (snd b)))
      else check_overlap (b # rs))"
| "check_overlap _ = Inr ()"

definition data_section :: "64 word \<Rightarrow> 64 word load" where
  "data_section table_end =
     (let r = table_end mod ALIGN
      in if r \<noteq> 0 then
           let padding = ALIGN - r
           in if table_end > (-1) - padding then Inl DataOffsetOverflow else Inr (table_end + padding)
         else Inr table_end)"

section \<open>Opening a model\<close>

record model =
  meta_json :: bytes
  tensors :: "tensor list"
  index :: "bytes \<Rightarrow> nat option"

definition read_header :: "bytes \<Rightarrow> (int \<times> bytes \<times> bytes) load" where
  "read_header b =
     rbind (read_uint 4 b) (\<lambda>(magic, c1). if magic \<noteq> MAGIC then Inl BadMagic
     else rbind (read_uint 4 c1) (\<lambda>(version, c2). if version \<noteq> VERSION then Inl UnsupportedVersion
     else rbind (read_uint 4 c2) (\<lambda>(n_tensors, c3). rbind (read_uint 4 c3) (\<lambda>(meta_len, c4).
       if n_tensors = 0 \<or> n_tensors > MAX_TENSORS then Inl InvalidTensorCount
       else if meta_len > MAX_META_BYTES then Inl MetadataTooLarge
       else rbind (read_bytes (nat meta_len) c4) (\<lambda>(meta, c5).
         if n_tensors > int (length c5) div 36 then Inl InvalidTensorCount
         else Inr (n_tensors, meta, c5))))))"

definition load_model :: "bytes \<Rightarrow> model load" where
  "load_model b =
     (if b = [] \<or> int (length b) \<ge> 2 ^ 63 then Inl InvalidFileSize
      else rbind (read_header b) (\<lambda>(n_tensors, meta, c).
        rbind (read_entries (nat n_tensors) c) (\<lambda>(es, c').
        rbind (data_section (of_nat (length b - length c'))) (\<lambda>data_base.
          if data_base > of_nat (length b) then Inl TruncatedData
          else rbind (rfold (place_entry data_base (of_nat (length b) - data_base)) es
                 \<lparr>p_tensors = [], p_ranges = [], p_index = Map.empty\<rparr>) (\<lambda>p.
            rbind (check_overlap (sort_key fst (p_ranges p))) (\<lambda>_.
              Inr \<lparr>meta_json = meta, tensors = p_tensors p, index = p_index p\<rparr>))))))"

definition find_tensor :: "model \<Rightarrow> bytes \<Rightarrow> tensor option" where
  "find_tensor m nm = map_option (\<lambda>i. tensors m ! i) (index m nm)"

definition get_tensor :: "model \<Rightarrow> bytes \<Rightarrow> tensor load" where
  "get_tensor m nm = (case find_tensor m nm of None \<Rightarrow> Inl (MissingTensor nm) | Some t \<Rightarrow> Inr t)"

section \<open>Checked arithmetic\<close>

lemma unat_max64: "unat (-1 :: 64 word) = 2 ^ 64 - 1"
  by (simp add: unsigned_minus_1_eq_mask mask_eq_exp_minus_1)

lemma checked_mul_exact:
  assumes "checked_mul nm a b = Inr c"
  shows "unat c = unat a * unat b"
proof (cases "a = 0")
  case True
  with assms show ?thesis by (simp add: checked_mul_def)
next
  case False
  then have c: "c = a * b" and le: "b \<le> (-1) div a"
    using assms by (auto simp: checked_mul_def split: if_splits)
  have "unat b \<le> unat ((-1 :: 64 word) div a)" using le by (simp add: word_le_nat_alt)
  also have "\<dots> = (2 ^ 64 - 1) div unat a" by (simp add: unat_div unat_max64)
  finally have "unat a * unat b \<le> 2 ^ 64 - 1"
    by (metis div_le_mono le_trans mult.commute mult_le_mono1 times_div_less_eq_dividend)
  then have "unat a * unat b < 2 ^ 64" by simp
  then show ?thesis unfolding c by (simp add: unat_mult_lem [THEN iffD1])
qed

lemma count_elements_step:
  "rfold (\<lambda>d e. if d = 0 then Inl (ZeroDimension nm) else checked_mul nm e d) dims e0 = Inr n \<Longrightarrow>
     unat n = unat e0 * prod_list (map unat dims) \<and> 0 \<notin> set dims"
proof (induction dims arbitrary: e0)
  case (Cons d ds)
  then obtain e1 where e1: "d \<noteq> 0" "checked_mul nm e0 d = Inr e1"
    "rfold (\<lambda>d e. if d = 0 then Inl (ZeroDimension nm) else checked_mul nm e d) ds e1 = Inr n"
    by (auto split: if_splits)
  from Cons.IH [OF e1(3)] checked_mul_exact [OF e1(2)] e1(1) show ?case by simp
qed simp

lemma prod_pos: "(0 :: 64 word) \<notin> set dims \<Longrightarrow> 0 < prod_list (map unat dims)"
  by (induction dims) (auto simp: unat_gt_0)

lemma last_dvd: "dims \<noteq> [] \<Longrightarrow> unat (last dims) dvd prod_list (map unat dims)"
  by (induction dims) auto

text \<open>The exact byte sizes of a tensor of \<open>n\<close> elements, over the natural numbers.\<close>

definition group_of :: "dtype \<Rightarrow> nat" where
  "group_of ty = (case ty of Q4_G64 \<Rightarrow> 64 | _ \<Rightarrow> 128)"

definition true_data :: "dtype \<Rightarrow> nat \<Rightarrow> nat" where
  "true_data ty n = (case ty of F32 \<Rightarrow> 4 * n | F16 \<Rightarrow> 2 * n | Q8_G128 \<Rightarrow> n | Q4_G64 \<Rightarrow> n div 2
     | T2_G128 \<Rightarrow> n div 4 | T3_G128 \<Rightarrow> n div 128 * 26 | B1_G128 \<Rightarrow> n div 8)"

definition true_scales :: "dtype \<Rightarrow> nat \<Rightarrow> nat" where
  "true_scales ty n = (case ty of F32 \<Rightarrow> 0 | F16 \<Rightarrow> 0 | _ \<Rightarrow> n div group_of ty * 2)"

lemma group_scales_exact:
  assumes "group_scales nm r c k = Inr s"
  shows "unat s = unat r * unat (c div k) * 2"
  using assms checked_mul_exact by (fastforce simp: group_scales_def)

lemma div_group:
  assumes "n > 0" "c dvd n" "k dvd c"
  shows "n div c * (c div k) = n div (k :: nat)"
  using assms by (metis div_mult_swap dvd_div_mult_self)

lemma mod_zero_dvd: "c mod k = 0 \<Longrightarrow> unat k dvd unat c" for c k :: "64 word"
  by (metis dvd_eq_mod_eq_0 unat_0 unat_mod)

lemma grouped_exact:
  assumes g: "grouped nm (el div c) c k data = Inr (d, s)"
    and el: "unat c dvd unat el" "0 < unat el"
  shows "unat s = unat el div unat k * 2 \<and> unat k dvd unat el \<and> data = Inr d \<and>
    unat (el div c) * unat (c div k) = unat el div unat k"
proof -
  have "c mod k = 0" and s: "group_scales nm (el div c) c k = Inr s" and d: "data = Inr d"
    using g by (auto simp: grouped_def split: if_splits)
  then have k: "unat k dvd unat c" by (simp add: mod_zero_dvd)
  have "unat el div unat c * (unat c div unat k) = unat el div unat k"
    by (rule div_group [OF el(2,1) k])
  then show ?thesis using group_scales_exact [OF s] k el(1) d
    by (auto simp: unat_div dest: dvd_trans)
qed

lemma count_elements_exact:
  assumes "count_elements nm dims = Inr el" "dims \<noteq> []"
  shows "unat el = prod_list (map unat dims)" "0 < unat el" "unat (last dims) dvd unat el" "0 \<notin> set dims"
  using count_elements_step [OF assms(1) [unfolded count_elements_def]] prod_pos last_dvd [OF assms(2)]
  by auto

text \<open>Every successful size computation is exact, per storage class.\<close>

lemma grouped_case:
  assumes "grouped nm (el div c) c k (Inr (el div q)) = Inr (d, s)" "unat c dvd unat el" "0 < unat el"
    and "unat q dvd unat k"
  shows "unat d = unat el div unat q \<and> unat s = unat el div unat k * 2 \<and> 0 < unat d"
proof -
  note g = grouped_exact [OF assms(1-3)]
  have "unat q dvd unat el" using g assms(4) dvd_trans by blast
  then have "0 < unat el div unat q" using assms(3) by (auto elim!: dvdE)
  with g show ?thesis by (auto simp: unat_div)
qed

lemma expected_sizes_exact_aux:
  assumes "expected_sizes nm ty dims = Inr (d, s)"
  shows "unat d = true_data ty (prod_list (map unat dims)) \<and>
    unat s = true_scales ty (prod_list (map unat dims)) \<and> 0 < unat d \<and> dims \<noteq> [] \<and> 0 \<notin> set dims"
proof -
  from assms obtain el where ne: "dims \<noteq> []" and el: "count_elements nm dims = Inr el"
    by (auto simp: expected_sizes_def split: if_splits)
  note n = count_elements_exact [OF el ne]
  note r = assms [unfolded expected_sizes_def, simplified ne el if_False rbind_simps Let_def]
  have "unat d = true_data ty (unat el) \<and> unat s = true_scales ty (unat el) \<and> 0 < unat d"
  proof (cases ty)
    case F32
    with r ne el checked_mul_exact [of nm el 4 d] n(2) show ?thesis
      by (auto simp: true_data_def true_scales_def)
  next
    case F16
    with r ne el checked_mul_exact [of nm el 2 d] n(2) show ?thesis
      by (auto simp: true_data_def true_scales_def)
  next
    case Q8_G128
    with r ne el have "grouped nm (el div last dims) (last dims) 128 (Inr el) = Inr (d, s)" by simp
    from grouped_exact [OF this n(3,2)] n(2) Q8_G128 show ?thesis
      by (auto simp: true_data_def true_scales_def group_of_def)
  next
    case Q4_G64
    with r ne el have "grouped nm (el div last dims) (last dims) 64 (Inr (el div 2)) = Inr (d, s)" by simp
    from grouped_case [OF this n(3,2)] Q4_G64 show ?thesis
      by (auto simp: true_data_def true_scales_def group_of_def)
  next
    case T2_G128
    with r ne el have "grouped nm (el div last dims) (last dims) 128 (Inr (el div 4)) = Inr (d, s)" by simp
    from grouped_case [OF this n(3,2)] T2_G128 show ?thesis
      by (auto simp: true_data_def true_scales_def group_of_def)
  next
    case T3_G128
    with r ne el have g: "grouped nm (el div last dims) (last dims) 128
        (rbind (checked_mul nm (el div last dims) (last dims div 128)) (\<lambda>g. checked_mul nm g 26)) = Inr (d, s)"
      by simp
    note ge = grouped_exact [OF g n(3,2)]
    then obtain q where "checked_mul nm (el div last dims) (last dims div 128) = Inr q" "checked_mul nm q 26 = Inr d"
      by auto
    then have "unat d = unat el div 128 * 26"
      using checked_mul_exact ge by fastforce
    moreover have "0 < unat el div 128" using ge n(2) by (auto elim!: dvdE)
    ultimately show ?thesis using ge T3_G128 by (simp add: true_data_def true_scales_def group_of_def)
  next
    case B1_G128
    with r ne el have "grouped nm (el div last dims) (last dims) 128 (Inr (el div 8)) = Inr (d, s)" by simp
    from grouped_case [OF this n(3,2)] B1_G128 show ?thesis
      by (auto simp: true_data_def true_scales_def group_of_def)
  qed
  then show ?thesis using n ne by simp
qed

section \<open>Entries and their placement\<close>

definition entry_ok :: "entry \<Rightarrow> bool" where
  "entry_ok e \<longleftrightarrow>
     expected_sizes (e_name e) (e_dtype e) (e_shape e) = Inr (e_dsize e, e_ssize e) \<and>
     256 dvd unat (e_doff e) \<and> (e_ssize e \<noteq> 0 \<longrightarrow> 256 dvd unat (e_soff e)) \<and> e_name e \<noteq> []"

lemma aligned_dvd: "w mod ALIGN = 0 \<Longrightarrow> 256 dvd unat w"
  using mod_zero_dvd [of w ALIGN] by (simp add: ALIGN_def)



lemma check_entry_ok: "check_entry e = Inr e' \<Longrightarrow> e_name e \<noteq> [] \<Longrightarrow> e' = e \<and> entry_ok e"
  by (auto simp: check_entry_def entry_ok_def aligned_dvd split: if_splits del: mod_0_imp_dvd)

lemma read_bytes_len: "read_bytes n c = Inr (bs, c') \<Longrightarrow> length bs = n \<and> c = bs @ c'"
  by (auto simp: read_bytes_def split: if_splits)

lemma read_uint_nonneg: "read_uint n c = Inr (v, c') \<Longrightarrow> 0 \<le> v"
  by (auto simp: read_uint_def le_val_nonneg)

lemma read_name_ok: "read_name c = Inr (nm, c') \<Longrightarrow> nm \<noteq> [] \<and> 0 \<notin> set nm"
  by (auto simp: read_name_def split: if_splits prod.splits dest!: read_bytes_len read_uint_nonneg)

lemma read_entry_ok: "read_entry c = Inr (e, c') \<Longrightarrow> entry_ok e"
  unfolding read_entry_def
  by (auto split: option.splits if_splits prod.splits dest!: read_name_ok check_entry_ok)

lemma read_entries_ok: "read_entries n c = Inr (es, c') \<Longrightarrow> length es = n \<and> list_all entry_ok es"
proof (induction n arbitrary: c es)
  case (Suc n)
  then obtain e c1 es' where "read_entry c = Inr (e, c1)" "read_entries n c1 = Inr (es', c')" "es = e # es'"
    by auto
  with Suc.IH read_entry_ok show ?case by auto
qed simp

lemma entry_sizes: "entry_ok e \<Longrightarrow> 0 < unat (e_dsize e)"
  using expected_sizes_exact_aux [of "e_name e" "e_dtype e" "e_shape e"] by (simp add: entry_ok_def)

definition in_payload :: "64 word \<Rightarrow> entry \<Rightarrow> bool" where
  "in_payload pl e \<longleftrightarrow> unat (e_doff e) + unat (e_dsize e) \<le> unat pl \<and>
     (e_ssize e \<noteq> 0 \<longrightarrow> unat (e_soff e) + unat (e_ssize e) \<le> unat pl)"

lemma fits: "\<not> off > pl \<Longrightarrow> \<not> size > pl - off \<Longrightarrow> unat off + unat size \<le> unat pl" for off pl size :: "64 word"
  by (simp add: word_less_nat_alt unat_sub word_le_nat_alt not_less)

lemma place_entries:
  assumes "rfold (place_entry db pl) es p0 = Inr p"
  shows "p_tensors p = p_tensors p0 @ map (tensor_of db) es"
    "p_ranges p = p_ranges p0 @ concat (map ranges_of es)" "list_all (in_payload pl) es"
  using assms
proof (induction es arbitrary: p0)
  case (Cons e es)
  {
    case 1
    with Cons.IH(1) show ?case by (auto simp: place_entry_def split: if_splits)
  next
    case 2
    with Cons.IH(2) show ?case by (auto simp: place_entry_def split: if_splits)
  next
    case 3
    then have "in_payload pl e" by (auto simp: place_entry_def in_payload_def fits split: if_splits)
    with 3 Cons.IH(3) show ?case by (auto simp: place_entry_def split: if_splits)
  }
qed simp_all

definition index_ok :: "placing \<Rightarrow> bool" where
  "index_ok p \<longleftrightarrow> distinct (map t_name (p_tensors p)) \<and>
     (\<forall>nm i. p_index p nm = Some i \<longleftrightarrow> i < length (p_tensors p) \<and> t_name (p_tensors p ! i) = nm)"

lemma place_entry_index:
  assumes "place_entry db pl e p = Inr p'" "index_ok p"
  shows "index_ok p'"
proof -
  have ix: "p_index p nm = Some i \<longleftrightarrow> i < length (p_tensors p) \<and> t_name (p_tensors p ! i) = nm" for nm i
    using assms(2) by (simp add: index_ok_def)
  have none: "p_index p (e_name e) = None"
    and p': "p' = \<lparr>p_tensors = p_tensors p @ [tensor_of db e], p_ranges = p_ranges p @ ranges_of e,
                p_index = (p_index p)(e_name e \<mapsto> length (p_tensors p))\<rparr>"
    using assms(1) by (auto simp: place_entry_def split: if_splits)
  have fresh: "t_name (p_tensors p ! i) \<noteq> e_name e" if "i < length (p_tensors p)" for i
    using ix [of "e_name e" i] none that by auto
  then have "e_name e \<notin> t_name ` set (p_tensors p)" by (metis (no_types, lifting) imageE in_set_conv_nth)
  moreover have nm: "t_name (tensor_of db e) = e_name e" by (simp add: tensor_of_def)
  ultimately show ?thesis using assms(2) ix fresh unfolding p'
    by (auto simp: index_ok_def nth_append less_Suc_eq)
qed

lemma place_entries_index: "rfold (place_entry db pl) es p0 = Inr p \<Longrightarrow> index_ok p0 \<Longrightarrow> index_ok p"
  by (induction es arbitrary: p0) (auto dest: place_entry_index)

section \<open>No two blobs overlap\<close>

definition covers :: "nat \<Rightarrow> blob_range \<Rightarrow> bool" where
  "covers x r \<longleftrightarrow> unat (fst r) \<le> x \<and> x < unat (fst (snd r))"

lemma check_overlap_hd:
  assumes "check_overlap (a # rs) = Inr ()" "list_all (\<lambda>r. fst r \<le> fst (snd r)) (a # rs)" "r \<in> set rs"
  shows "fst (snd a) \<le> fst r"
  using assms
proof (induction rs arbitrary: a)
  case (Cons b rs)
  then have ab: "fst (snd a) \<le> fst b" "check_overlap (b # rs) = Inr ()" by (auto split: if_splits)
  show ?case
  proof (cases "r = b")
    case False
    then have "fst (snd b) \<le> fst r" using Cons ab(2) by auto
    moreover have "fst b \<le> fst (snd b)" using Cons.prems(2) by simp
    ultimately show ?thesis using ab(1) by (meson order_trans)
  qed (use ab in simp)
qed simp

lemma check_overlap_covers:
  "check_overlap rs = Inr () \<Longrightarrow> list_all (\<lambda>r. fst r \<le> fst (snd r)) rs \<Longrightarrow>
     length (filter (covers x) rs) \<le> 1"
proof (induction rs)
  case (Cons a rs)
  have tl: "check_overlap rs = Inr ()" using Cons.prems(1) by (cases rs) (auto split: if_splits)
  show ?case
  proof (cases "covers x a")
    case True
    then have "\<not> covers x r" if "r \<in> set rs" for r
      using check_overlap_hd [OF Cons.prems that] by (auto simp: covers_def word_le_nat_alt)
    then have "filter (covers x) rs = []" by (simp add: filter_empty_conv)
    with True show ?thesis by simp
  qed (use Cons tl in auto)
qed simp

lemma filter_sort_length: "length (filter P (sort_key f xs)) = length (filter P xs)"
  by (metis mset_filter mset_sort size_mset)

section \<open>A loaded model\<close>

text \<open>The byte intervals of the file that a tensor points at.\<close>

definition blobs :: "tensor \<Rightarrow> (nat \<times> nat) list" where
  "blobs t = (data_at t, data_at t + unat (data_size t)) #
     (case scales_at t of None \<Rightarrow> [] | Some s \<Rightarrow> [(s, s + unat (scales_size t))])"

definition in_blob :: "nat \<Rightarrow> nat \<times> nat \<Rightarrow> bool" where
  "in_blob x r \<longleftrightarrow> fst r \<le> x \<and> x < snd r"

lemma in_payload_unat:
  assumes "in_payload pl e"
  shows "unat (e_doff e + e_dsize e) = unat (e_doff e) + unat (e_dsize e)"
    "e_ssize e \<noteq> 0 \<Longrightarrow> unat (e_soff e + e_ssize e) = unat (e_soff e) + unat (e_ssize e)"
proof -
  have "unat pl < 2 ^ 64" using unsigned_less [of pl] by simp
  then show "unat (e_doff e + e_dsize e) = unat (e_doff e) + unat (e_dsize e)"
    "e_ssize e \<noteq> 0 \<Longrightarrow> unat (e_soff e + e_ssize e) = unat (e_soff e) + unat (e_ssize e)"
    using assms by (auto simp: in_payload_def simp flip: unat_add_lem)
qed

lemma ranges_ordered:
  assumes "in_payload pl e"
  shows "list_all (\<lambda>r. fst r \<le> fst (snd r)) (ranges_of e)"
  using in_payload_unat [OF assms] by (auto simp: ranges_of_def word_le_nat_alt)

lemma blob_covers:
  assumes "in_payload pl e"
  shows "length (filter (in_blob x) (blobs (tensor_of db e))) \<le>
    length (filter (covers (x - unat db)) (ranges_of e))"
  using in_payload_unat [OF assms]
  by (auto simp: blobs_def tensor_of_def ranges_of_def in_blob_def covers_def)

lemma blobs_covers:
  "list_all (in_payload pl) es \<Longrightarrow>
     length (filter (in_blob x) (concat (map blobs (map (tensor_of db) es)))) \<le>
     length (filter (covers (x - unat db)) (concat (map ranges_of es)))"
  using blob_covers by (induction es) (auto intro: add_mono)

lemma pad_up: "q * 256 + r = n \<Longrightarrow> r < 256 \<Longrightarrow> n + (256 - r) = 256 * (q + 1)" for n q r :: nat
  by auto

lemma data_section_aligned:
  assumes "data_section w = Inr db"
  shows "256 dvd unat db"
proof (cases "w mod ALIGN = 0")
  case True
  with assms have "db = w" by (simp add: data_section_def Let_def)
  with aligned_dvd [OF True] show ?thesis by simp
next
  case False
  let ?r = "w mod ALIGN"
  have r: "unat ?r = unat w mod 256" "unat ?r < 256" by (simp_all add: unat_mod ALIGN_def)
  have pad: "unat (ALIGN - ?r) = 256 - unat ?r"
    using r(2) by (subst unat_sub) (simp_all add: ALIGN_def word_le_nat_alt)
  have db: "db = w + (ALIGN - ?r)" and le: "w \<le> (-1) - (ALIGN - ?r)"
    using assms False by (auto simp: data_section_def Let_def split: if_splits)
  have "unat w \<le> 2 ^ 64 - 1 - unat (ALIGN - ?r)"
    using le [unfolded word_le_nat_alt] unat_sub [OF max_word_max, of "ALIGN - ?r"] unat_max64 by simp
  then have "unat w + unat (ALIGN - ?r) < 2 ^ 64" using pad by simp
  then have "unat db = unat w + (256 - unat w mod 256)"
    unfolding db using pad r by (simp add: unat_add_lem [THEN iffD1])
  also have "\<dots> = 256 * (unat w div 256 + 1)"
    by (rule pad_up [OF div_mult_mod_eq]) simp
  finally show ?thesis by simp
qed

lemma load_model_parts:
  assumes "load_model b = Inr m"
  obtains es c' db p where "list_all entry_ok es" "es \<noteq> []" "256 dvd unat db" "unat db \<le> length b"
    "list_all (in_payload (of_nat (length b) - db)) es" "tensors m = map (tensor_of db) es"
    "check_overlap (sort_key fst (concat (map ranges_of es))) = Inr ()"
    "index_ok p" "p_tensors p = tensors m" "index m = p_index p"
    "unat (of_nat (length b) - db) = length b - unat db"
proof -
  from assms have "int (length b) < 2 ^ 63" by (auto simp: load_model_def split: if_splits)
  then have "nat (int (length b)) < nat (2 ^ 63)" by (subst nat_less_eq_zless) simp_all
  then have len: "length b < 2 ^ 63" by (simp add: nat_power_eq)
  from assms obtain n meta c es c' db p where h: "read_header b = Inr (n, meta, c)"
    "read_entries (nat n) c = Inr (es, c')" "data_section (of_nat (length b - length c')) = Inr db"
    "\<not> db > of_nat (length b)"
    and pl: "rfold (place_entry db (of_nat (length b) - db)) es \<lparr>p_tensors = [], p_ranges = [], p_index = Map.empty\<rparr> = Inr p"
    and ov: "check_overlap (sort_key fst (p_ranges p)) = Inr ()"
    and m: "m = \<lparr>meta_json = meta, tensors = p_tensors p, index = p_index p\<rparr>"
    by (auto simp: load_model_def split: if_splits)
  have "n \<noteq> 0" using h(1) by (auto simp: read_header_def split: if_splits)
  moreover have "0 \<le> n" using h(1) by (auto simp: read_header_def read_uint_nonneg split: if_splits)
  ultimately have "es \<noteq> []" using read_entries_ok [OF h(2)] by auto
  have ulen: "unat (of_nat (length b) :: 64 word) = length b"
    using len by (simp add: unsigned_of_nat take_bit_nat_eq_self)
  have le: "db \<le> of_nat (length b)" using h(4) by simp
  have db: "unat db \<le> length b" using le ulen by (simp add: word_le_nat_alt)
  have "unat (of_nat (length b) - db) = length b - unat db"
    using unat_sub [OF le] ulen by simp
  moreover have "index_ok p" by (rule place_entries_index [OF pl]) (simp add: index_ok_def)
  ultimately show thesis
    using that [of es db p] read_entries_ok [OF h(2)] \<open>es \<noteq> []\<close> data_section_aligned [OF h(3)] db
      place_entries [OF pl] ov m by simp
qed

lemma tensor_blob_ok:
  assumes "entry_ok e" "in_payload pl e" "256 dvd unat db" "unat db + unat pl \<le> n" "r \<in> set (blobs (tensor_of db e))"
  shows "256 dvd fst r \<and> fst r < snd r \<and> snd r \<le> n"
  using assms entry_sizes [OF assms(1)]
  by (auto simp: blobs_def tensor_of_def entry_ok_def in_payload_def unat_gt_0 split: if_splits)

section \<open>Properties\<close>

text \<open>
  C17: the size arithmetic is exact.  Whenever the size computation of a tensor succeeds, no
  64-bit product has wrapped: the byte sizes are the true sizes of a tensor with that element
  count and storage class, and the data is not empty.
\<close>

theorem expected_sizes_exact:
  assumes "expected_sizes nm ty dims = Inr (d, s)"
  shows "unat d = true_data ty (prod_list (map unat dims)) \<and>
    unat s = true_scales ty (prod_list (map unat dims)) \<and> 0 < unat d"
  using expected_sizes_exact_aux [OF assms] by blast

theorem expected_sizes_exact_witness:
  "unat (768 :: 64 word) = true_data Q4_G64 (prod_list (map unat [12 :: 64 word, 128])) \<and>
   unat (48 :: 64 word) = true_scales Q4_G64 (prod_list (map unat [12 :: 64 word, 128])) \<and> 0 < unat (768 :: 64 word)"
proof -
  have "expected_sizes [97] Q4_G64 [12, 128] = Inr (768, 48)" by code_simp
  from expected_sizes_exact [OF this] show ?thesis by simp
qed


text \<open>A minimal file: one F32 tensor of shape [1] named \<open>a\<close>.\<close>

definition demo_file :: bytes where
  "demo_file = [0x51, 0x32, 0x37, 0x46, 1, 0, 0, 0, 1, 0, 0, 0, 0, 0, 0, 0] @
     [1, 0, 97, 0, 1, 1, 0, 0, 0, 0, 0, 0, 0] @ replicate 8 0 @ [4] @ replicate 7 0 @ replicate 16 0 @
     replicate 195 0 @ [1, 2, 3, 4]"


end
