(* ===== verification/Prefix_Cache.thy ===== *)
theory Prefix_Cache
  imports Byte_Codec "HOL-Library.Multiset"
begin

text \<open>
  The persistent prefix cache, \<^verbatim>\<open>src/src/prefix_cache.h\<close>: one file per entry (a 64-byte header, the
  token prefix, the state), an index in memory, a byte budget.  The directory is a map from paths
  to contents and modification times.  What the operating system decides is the record \<open>env\<close>:
  whether a file opens for reading, whether the writes and the rename of an entry succeed, whether
  an unlink works, and the time.  The background prefetch only warms the page cache and is left out.

  \<^verbatim>\<open>std::sort\<close> does not fix the order of equal keys; the model's sort is stable.
\<close>

section \<open>Keys and headers\<close>

text \<open>\<^verbatim>\<open>pfx_compat_hash\<close>: the path bytes and then nine 64-bit integers.\<close>

definition pfx_compat_hash :: "bytes \<Rightarrow> 64 word \<Rightarrow> 64 word list \<Rightarrow> 64 word" where
  "pfx_compat_hash model_path model_bytes geometry =
     fnv1a64 (concat (map enc64 (model_bytes # geometry))) (fnv1a64 model_path FNV_INIT)"

definition tok_key :: "32 word list \<Rightarrow> 64 word" where
  "tok_key ts = fnv1a64 (enc_toks ts) FNV_INIT"

record pfx_hdr =
  h_magic :: "32 word"
  h_version :: "32 word"
  h_compat :: "64 word"
  h_tok_hash :: "64 word"
  h_L :: "32 word"
  h_pad :: "32 word"
  h_gdn_bytes :: "64 word"
  h_kv_bytes :: "64 word"
  h_res0 :: "64 word"
  h_res1 :: "64 word"

definition PFX_MAGIC :: "32 word" where "PFX_MAGIC = 0x50373251"
definition PFX_VERSION :: "32 word" where "PFX_VERSION = 1"

definition enc_hdr :: "pfx_hdr \<Rightarrow> bytes" where
  "enc_hdr h = enc32 (h_magic h) @ enc32 (h_version h) @ enc64 (h_compat h) @ enc64 (h_tok_hash h) @
     enc32 (h_L h) @ enc32 (h_pad h) @ enc64 (h_gdn_bytes h) @ enc64 (h_kv_bytes h) @
     enc64 (h_res0 h) @ enc64 (h_res1 h)"

text \<open>\<^verbatim>\<open>pread\<close> of the header: \<open>None\<close> when the file is shorter than the struct.\<close>

definition slice :: "nat \<Rightarrow> nat \<Rightarrow> bytes \<Rightarrow> bytes" where
  "slice off n f = take n (drop off f)"

definition dec_hdr :: "bytes \<Rightarrow> pfx_hdr option" where
  "dec_hdr f =
     (if length f < 64 then None
      else Some \<lparr>h_magic = dec32 (slice 0 4 f), h_version = dec32 (slice 4 4 f),
             h_compat = dec64 (slice 8 8 f), h_tok_hash = dec64 (slice 16 8 f),
             h_L = dec32 (slice 24 4 f), h_pad = dec32 (slice 28 4 f),
             h_gdn_bytes = dec64 (slice 32 8 f), h_kv_bytes = dec64 (slice 40 8 f),
             h_res0 = dec64 (slice 48 8 f), h_res1 = dec64 (slice 56 8 f)\<rparr>)"

section \<open>State\<close>

record pfx_cfg =
  root :: string
  max_bytes :: nat
  min_tokens :: int

record pfx_entry =
  path :: string
  eL :: int
  key :: "64 word"
  ebytes :: nat
  emtime :: int

record prefix_cache =
  cfg :: pfx_cfg
  compat :: "64 word"
  enabled :: bool
  pindex :: "pfx_entry list"

type_synonym disk = "string \<Rightarrow> (bytes \<times> int) option"

record env =
  can_read :: "string \<Rightarrow> bool"
  tmp_opens :: bool
  writes_ok :: bool
  rename_ok :: bool
  unlink_ok :: "string \<Rightarrow> bool"
  now :: int

definition open_file :: "env \<Rightarrow> disk \<Rightarrow> string \<Rightarrow> bytes option" where
  "open_file io d p = (if can_read io p then map_option fst (d p) else None)"

definition unlink :: "env \<Rightarrow> disk \<Rightarrow> string \<Rightarrow> disk" where
  "unlink io d p = (if unlink_ok io p then d(p := None) else d)"

text \<open>\<^verbatim>\<open>read_full\<close>: \<^verbatim>\<open>pread\<close> in chunks of at most 1 GiB until all bytes are there.\<close>

function read_full :: "bytes \<Rightarrow> nat \<Rightarrow> nat \<Rightarrow> bytes option" where
  "read_full f n off =
     (if n = 0 then Some []
      else let want = (if int n > 2 ^ 30 then 2 ^ 30 else n);
               got = slice off want f
           in if got = [] then None
              else map_option (\<lambda>rest. got @ rest) (read_full f (n - length got) (off + length got)))"
  by pat_completeness auto
termination
  by (relation "measure (\<lambda>(f, n, off). n)") (auto simp: slice_def)

declare read_full.simps [simp del]

section \<open>Lookup\<close>

definition verify :: "env \<Rightarrow> disk \<Rightarrow> pfx_entry \<Rightarrow> 32 word list \<Rightarrow> bool" where
  "verify io d e prompt =
     (case open_file io d (path e) of
        None \<Rightarrow> False
      | Some f \<Rightarrow>
          (case read_full f (nat (eL e) * 4) 64 of
             None \<Rightarrow> False
           | Some bs \<Rightarrow> dec_toks (nat (eL e)) bs = take (nat (eL e)) prompt))"

definition eligible :: "prefix_cache \<Rightarrow> env \<Rightarrow> disk \<Rightarrow> 32 word list \<Rightarrow> pfx_entry \<Rightarrow> bool" where
  "eligible c io d prompt e \<longleftrightarrow>
     \<not> eL e < min_tokens (cfg c) \<and> \<not> nat (eL e) + 1 > length prompt \<and>
     tok_key (take (nat (eL e)) prompt) = key e \<and> verify io d e prompt"

definition pfx_find :: "prefix_cache \<Rightarrow> env \<Rightarrow> disk \<Rightarrow> 32 word list \<Rightarrow> pfx_entry option" where
  "pfx_find c io d prompt =
     (if \<not> enabled c \<or> prompt = [] then None
      else find (eligible c io d prompt) (sort_key (\<lambda>e. - eL e) (pindex c)))"

definition read_state :: "prefix_cache \<Rightarrow> env \<Rightarrow> disk \<Rightarrow> pfx_entry \<Rightarrow> nat \<Rightarrow> bytes option" where
  "read_state c io d e dst_n =
     (case open_file io d (path e) of
        None \<Rightarrow> None
      | Some f \<Rightarrow>
          (case dec_hdr f of
             None \<Rightarrow> None
           | Some h \<Rightarrow>
               if h_magic h = PFX_MAGIC \<and> h_version h = PFX_VERSION \<and> h_compat h = compat c \<and>
                  sint (h_L h) = eL e \<and> h_gdn_bytes h + h_kv_bytes h = of_nat dst_n
               then read_full f dst_n (64 + nat (eL e) * 4) else None))"

definition has_entry :: "prefix_cache \<Rightarrow> 32 word list \<Rightarrow> int \<Rightarrow> bool" where
  "has_entry c toks L =
     (if \<not> enabled c \<or> L \<le> 0 \<or> nat L > length toks then False
      else list_ex (\<lambda>e. eL e = L \<and> key e = tok_key (take (nat L) toks)) (pindex c))"

section \<open>Writing and eviction\<close>

definition total_bytes :: "pfx_entry list \<Rightarrow> nat" where
  "total_bytes es = sum_list (map ebytes es)"

fun evict_loop :: "nat \<Rightarrow> nat \<Rightarrow> pfx_entry list \<Rightarrow> pfx_entry list \<times> pfx_entry list" where
  "evict_loop budget tot [] = ([], [])"
| "evict_loop budget tot (e # es) =
     (if tot > budget then
        (case evict_loop budget (tot - ebytes e) es of (doomed, kept) \<Rightarrow> (e # doomed, kept))
      else ([], e # es))"

definition evict_to_budget :: "prefix_cache \<Rightarrow> env \<Rightarrow> disk \<Rightarrow> prefix_cache \<times> disk" where
  "evict_to_budget c io d =
     (if \<not> enabled c then (c, d)
      else
        let tot = total_bytes (pindex c)
        in if tot \<le> max_bytes (cfg c) then (c, d)
           else
             let (doomed, kept) = evict_loop (max_bytes (cfg c)) tot (sort_key emtime (pindex c))
             in (c\<lparr>pindex := kept\<rparr>, foldl (\<lambda>d e. unlink io d (path e)) d doomed))"

text \<open>The file name: sixteen hex digits of the key, the length (\<^verbatim>\<open>%016llx-%d.q27pc\<close>).\<close>

definition hex_digit :: "nat \<Rightarrow> char" where
  "hex_digit n = ''0123456789abcdef'' ! n"

definition hex16 :: "64 word \<Rightarrow> string" where
  "hex16 w = map (\<lambda>i. hex_digit (nat (uint (drop_bit (4 * i) w) mod 16))) (rev [0..<16])"

definition entry_path :: "prefix_cache \<Rightarrow> 64 word \<Rightarrow> nat \<Rightarrow> string" where
  "entry_path c k L = root (cfg c) @ ''/'' @ hex16 k @ ''-'' @ to_string L @ ''.q27pc''"

definition entry_file :: "prefix_cache \<Rightarrow> 32 word list \<Rightarrow> nat \<Rightarrow> bytes \<Rightarrow> bytes \<Rightarrow> bytes" where
  "entry_file c toks L gdn kv =
     enc_hdr \<lparr>h_magic = PFX_MAGIC, h_version = PFX_VERSION, h_compat = compat c,
       h_tok_hash = tok_key (take L toks), h_L = of_nat L, h_pad = 0,
       h_gdn_bytes = of_nat (length gdn), h_kv_bytes = of_nat (length kv), h_res0 = 0, h_res1 = 0\<rparr> @
     enc_toks (take L toks) @ gdn @ kv"

definition new_entry :: "prefix_cache \<Rightarrow> env \<Rightarrow> 32 word list \<Rightarrow> nat \<Rightarrow> bytes \<Rightarrow> bytes \<Rightarrow> pfx_entry" where
  "new_entry c io toks L gdn kv =
     \<lparr>path = entry_path c (tok_key (take L toks)) L, eL = int L, key = tok_key (take L toks),
      ebytes = 64 + L * 4 + length gdn + length kv, emtime = now io\<rparr>"

definition pfx_write ::
    "prefix_cache \<Rightarrow> env \<Rightarrow> disk \<Rightarrow> 32 word list \<Rightarrow> int \<Rightarrow> bytes \<Rightarrow> bytes \<Rightarrow> bool \<times> prefix_cache \<times> disk" where
  "pfx_write c io d toks L gdn kv =
     (if \<not> enabled c \<or> L \<le> 0 \<or> nat L > length toks then (False, c, d)
      else
        let e = new_entry c io toks (nat L) gdn kv;
            tmp = path e @ ''.tmp''
        in if \<not> tmp_opens io then (False, c, d)
           else
             let d1 = d(tmp \<mapsto> (entry_file c toks (nat L) gdn kv, now io))
             in if \<not> writes_ok io \<or> \<not> rename_ok io then (False, c, unlink io d1 tmp)
                else
                  let d2 = d1(path e := d1 tmp, tmp := None);
                      c2 = c\<lparr>pindex := filter (\<lambda>x. path x \<noteq> path e) (pindex c) @ [e]\<rparr>;
                      (c3, d3) = evict_to_budget c2 io d2
                  in (True, c3, d3))"

section \<open>Indexing a directory\<close>

definition ends_with :: "string \<Rightarrow> string \<Rightarrow> bool" where
  "ends_with s n \<longleftrightarrow> length s \<le> length n \<and> drop (length n - length s) n = s"

definition scan_file :: "prefix_cache \<Rightarrow> env \<Rightarrow> disk \<Rightarrow> string \<Rightarrow> pfx_entry option" where
  "scan_file c io d p =
     (case open_file io d p of
        None \<Rightarrow> None
      | Some f \<Rightarrow>
          (case dec_hdr f of
             None \<Rightarrow> None
           | Some h \<Rightarrow>
               if h_magic h = PFX_MAGIC \<and> h_version h = PFX_VERSION \<and> h_compat h = compat c \<and>
                  sint (h_L h) > 0 \<and>
                  (of_nat (length f) :: 64 word) = 64 + word_of_int (sint (h_L h)) * 4 + h_gdn_bytes h + h_kv_bytes h
               then Some \<lparr>path = p, eL = sint (h_L h), key = h_tok_hash h, ebytes = length f,
                          emtime = snd (the (d p))\<rparr>
               else None))"

fun rescan_loop ::
    "prefix_cache \<Rightarrow> env \<Rightarrow> string list \<Rightarrow> disk \<Rightarrow> pfx_entry list \<Rightarrow> pfx_entry list \<times> disk" where
  "rescan_loop c io [] d found = (found, d)"
| "rescan_loop c io (n # ns) d found =
     (let p = root (cfg c) @ ''/'' @ n
      in if length n > 10 \<and> ends_with ''.q27pc.tmp'' n then rescan_loop c io ns (unlink io d p) found
         else if length n < 7 \<or> \<not> ends_with ''.q27pc'' n then rescan_loop c io ns d found
         else case scan_file c io d p of
                None \<Rightarrow> rescan_loop c io ns d found
              | Some e \<Rightarrow> rescan_loop c io ns d (found @ [e]))"

definition rescan :: "prefix_cache \<Rightarrow> env \<Rightarrow> disk \<Rightarrow> string list \<Rightarrow> prefix_cache \<times> disk" where
  "rescan c io d names =
     (case rescan_loop c io names d [] of (found, d') \<Rightarrow> (c\<lparr>pindex := found\<rparr>, d'))"

definition pfx_init :: "pfx_cfg \<Rightarrow> 64 word \<Rightarrow> bool \<Rightarrow> env \<Rightarrow> disk \<Rightarrow> string list \<Rightarrow> bool \<times> prefix_cache \<times> disk" where
  "pfx_init cf ch usable io d names =
     (let c = \<lparr>cfg = cf, compat = ch, enabled = False, pindex = []\<rparr>
      in if root cf = [] \<or> \<not> usable then (False, c, d)
         else let (c', d') = rescan (c\<lparr>enabled := True\<rparr>) io d names in (True, c', d'))"

section \<open>Reading back what was written\<close>

lemma read_full_eq:
  "read_full f n off = (if n = 0 \<or> off + n \<le> length f then Some (slice off n f) else None)"
proof (induction f n off rule: read_full.induct)
  case (1 f n off)
  show ?case
  proof (cases "n = 0")
    case True
    then show ?thesis by (simp add: read_full.simps slice_def)
  next
    case False
    define want where "want = (if int n > 2 ^ 30 then 2 ^ 30 else n)"
    define got where "got = slice off want f"
    have w: "0 < want" "want \<le> n" using False by (auto simp: want_def)
    have len: "length got = min want (length f - off)" by (simp add: got_def slice_def)
    have eq: "read_full f n off = (if got = [] then None
        else map_option (\<lambda>rest. got @ rest) (read_full f (n - length got) (off + length got)))"
      using False by (simp add: read_full.simps [of f n] Let_def want_def got_def)
    show ?thesis
    proof (cases "got = []")
      case True
      then have "length f \<le> off" using len w by auto
      with True eq False show ?thesis by auto
    next
      case ne: False
      have ih: "read_full f (n - length got) (off + length got) =
          (if n - length got = 0 \<or> off + length got + (n - length got) \<le> length f
           then Some (slice (off + length got) (n - length got) f) else None)"
        by (rule 1 [OF False want_def got_def ne])
      have le: "length got \<le> n" using len w by simp
      have split: "slice off n f = got @ slice (off + length got) (n - length got) f"
      proof -
        have "got = take (length got) (drop off f)"
          by (cases "want \<le> length f - off") (simp_all add: got_def slice_def min_def)
        then show ?thesis using le
          by (metis add.commute drop_drop le_add_diff_inverse slice_def take_add)
      qed
      show ?thesis
      proof (cases "off + n \<le> length f")
        case True
        then show ?thesis using eq ne ih le split by auto
      next
        case F: False
        then have "n - length got \<noteq> 0" using ne len w by auto
        then show ?thesis using eq ne ih le F False by auto
      qed
    qed
  qed
qed

lemma length_enc_hdr [simp, q27_len]: "length (enc_hdr h) = 64"
  by (simp add: enc_hdr_def)

lemma slice_here: "length a = n \<Longrightarrow> slice 0 n (a @ r) = a"
  by (simp add: slice_def)

lemma slice_skip: "length a \<le> off \<Longrightarrow> slice off n (a @ r) = slice (off - length a) n r"
  by (simp add: slice_def)

lemma dec_enc_hdr [simp]: "dec_hdr (enc_hdr h @ r) = Some h"
proof -
  have "\<not> length (enc_hdr h @ r) < 64" by simp
  then show ?thesis unfolding dec_hdr_def
    by (simp add: enc_hdr_def slice_skip slice_here)
qed

lemma length_entry_file: "L \<le> length toks \<Longrightarrow> length (entry_file c toks L gdn kv) = 64 + 4 * L + length gdn + length kv"
  by (simp add: entry_file_def)

lemma slice_tokens:
  assumes "L \<le> length toks"
  shows "slice 64 (L * 4) (entry_file c toks L gdn kv) = enc_toks (take L toks)"
  using assms by (simp add: entry_file_def slice_skip slice_here)

lemma slice_state:
  assumes "L \<le> length toks"
  shows "slice (64 + L * 4) (length gdn + length kv) (entry_file c toks L gdn kv) = gdn @ kv"
proof -
  have "slice (64 + L * 4) (length gdn + length kv) (entry_file c toks L gdn kv) =
      slice 0 (length (gdn @ kv)) (gdn @ kv)"
    using assms by (simp add: entry_file_def slice_skip)
  then show ?thesis by (simp add: slice_def)
qed

lemma verify_new:
  assumes L: "L \<le> length toks" and f: "open_file io d (path e) = Some (entry_file c toks L gdn kv)"
    and e: "eL e = int L" and p: "take L prompt = take L toks"
  shows "verify io d e prompt"
proof -
  have "read_full (entry_file c toks L gdn kv) (L * 4) 64 = Some (enc_toks (take L toks))"
    using length_entry_file [OF L] slice_tokens [OF L] by (simp add: read_full_eq)
  moreover have "dec_toks L (enc_toks (take L toks)) = take L toks"
    using dec_enc_toks [of "take L toks" "[]"] L by simp
  ultimately show ?thesis using f e p by (simp add: verify_def)
qed

lemma sint_small:
  assumes "int n < 2 ^ 31"
  shows "sint (of_nat n :: 32 word) = int n"
proof -
  have "signed_take_bit 31 (int n) = int n"
    by (rule signed_take_bit_int_eq_self) (use assms in simp_all)
  then show ?thesis by (simp add: signed_of_nat)
qed

section \<open>Longest verified entry\<close>

lemma find_sorted_longest:
  assumes "find P (sort_key (\<lambda>e. - f e) xs) = Some x"
  shows "x \<in> set xs \<and> P x \<and> (\<forall>y\<in>set xs. P y \<longrightarrow> f y \<le> (f x :: int))"
proof -
  let ?ys = "sort_key (\<lambda>e. - f e) xs"
  obtain i where i: "i < length ?ys" "P (?ys ! i)" "x = ?ys ! i" "\<forall>j<i. \<not> P (?ys ! j)"
    using assms by (auto simp: find_Some_iff)
  have "f y \<le> f x" if y: "y \<in> set xs" "P y" for y
  proof -
    obtain j where j: "j < length ?ys" "?ys ! j = y" using y(1) by (metis in_set_conv_nth set_sort)
    then have "\<not> j < i" using i(4) y(2) by auto
    moreover have "sorted (map (\<lambda>e. - f e) ?ys)" by simp
    ultimately have "- f (?ys ! i) \<le> - f (?ys ! j)"
      using j(1) sorted_nth_mono [of "map (\<lambda>e. - f e) ?ys" i j] by simp
    with i(3) j(2) show ?thesis by simp
  qed
  moreover have "x \<in> set xs" using i(1,3) by (metis nth_mem set_sort)
  ultimately show ?thesis using i by blast
qed

lemma find_exists: "x \<in> set xs \<Longrightarrow> P x \<Longrightarrow> \<exists>y. find P xs = Some y"
  by (metis find_None_iff option.exhaust)

section \<open>Eviction\<close>

lemma evict_loop_split:
  "evict_loop budget tot es = (doomed, kept) \<Longrightarrow> tot = total_bytes es \<Longrightarrow>
     es = doomed @ kept \<and> total_bytes kept \<le> budget \<and>
     (doomed \<noteq> [] \<longrightarrow> total_bytes (last doomed # kept) > budget)"
proof (induction es arbitrary: tot doomed)
  case (Cons e es)
  show ?case
  proof (cases "tot > budget")
    case True
    then obtain ds where ds: "evict_loop budget (tot - ebytes e) es = (ds, kept)" "doomed = e # ds"
      using Cons.prems(1) by (auto split: prod.splits)
    have "es = ds @ kept \<and> total_bytes kept \<le> budget \<and> (ds \<noteq> [] \<longrightarrow> total_bytes (last ds # kept) > budget)"
      using Cons.prems(2) by (intro Cons.IH [OF ds(1)]) (simp add: total_bytes_def)
    then show ?thesis using ds True Cons.prems(2) by (auto simp: total_bytes_def)
  next
    case False
    then show ?thesis using Cons.prems by (auto simp: total_bytes_def)
  qed
qed (auto simp: total_bytes_def)

section \<open>Properties\<close>

text \<open>
  C18: a hit is never trusted by its hash.  The entry a lookup returns is in the index, leaves at
  least one token to decode, holds in its file exactly the first tokens of the prompt, and is the
  longest entry for which all of this is true.
\<close>

theorem pfx_find_sound:
  assumes "pfx_find c io d prompt = Some e"
  shows "e \<in> set (pindex c) \<and> min_tokens (cfg c) \<le> eL e \<and> nat (eL e) < length prompt \<and>
    (\<exists>f. open_file io d (path e) = Some f \<and>
       dec_toks (nat (eL e)) (slice 64 (nat (eL e) * 4) f) = take (nat (eL e)) prompt) \<and>
    list_all (\<lambda>e'. eL e' \<le> eL e) (filter (eligible c io d prompt) (pindex c))"
proof -
  from assms have "find (eligible c io d prompt) (sort_key (\<lambda>e. - eL e) (pindex c)) = Some e"
    by (auto simp: pfx_find_def split: if_splits)
  note s = find_sorted_longest [OF this]
  then have "eligible c io d prompt e" by blast
  then have e: "min_tokens (cfg c) \<le> eL e" "nat (eL e) < length prompt" "verify io d e prompt"
    by (auto simp: eligible_def)
  from e(3) obtain f bs where "open_file io d (path e) = Some f"
    "read_full f (nat (eL e) * 4) 64 = Some bs" "dec_toks (nat (eL e)) bs = take (nat (eL e)) prompt"
    by (auto simp: verify_def split: option.splits)
  then have "\<exists>f. open_file io d (path e) = Some f \<and>
      dec_toks (nat (eL e)) (slice 64 (nat (eL e) * 4) f) = take (nat (eL e)) prompt"
    by (auto simp: read_full_eq split: if_splits)
  with e s show ?thesis by (auto simp: list_all_iff)
qed


text \<open>
  Eviction enforces the budget, oldest entries first, and removes no more than it has to.
\<close>

theorem evict_to_budget_lru:
  assumes "enabled c"
  shows "\<exists>doomed. mset (pindex c) = mset (doomed @ pindex (fst (evict_to_budget c io d))) \<and>
    total_bytes (pindex (fst (evict_to_budget c io d))) \<le> max_bytes (cfg c) \<and>
    (\<forall>x\<in>set doomed. \<forall>y\<in>set (pindex (fst (evict_to_budget c io d))). emtime x \<le> emtime y) \<and>
    (doomed = [] \<or> max_bytes (cfg c) < total_bytes (last doomed # pindex (fst (evict_to_budget c io d))))"
proof (cases "total_bytes (pindex c) \<le> max_bytes (cfg c)")
  case True
  then show ?thesis by (auto simp: evict_to_budget_def intro!: exI [of _ "[]"])
next
  case False
  let ?s = "sort_key emtime (pindex c)"
  obtain doomed kept where e: "evict_loop (max_bytes (cfg c)) (total_bytes (pindex c)) ?s = (doomed, kept)"
    by fastforce
  have "total_bytes ?s = total_bytes (pindex c)"
    unfolding total_bytes_def by (metis mset_map mset_sort sum_mset_sum_list)
  then have sp: "?s = doomed @ kept" "total_bytes kept \<le> max_bytes (cfg c)"
    "doomed \<noteq> [] \<longrightarrow> total_bytes (last doomed # kept) > max_bytes (cfg c)"
    using evict_loop_split [OF e] by auto
  have "sorted (map emtime (doomed @ kept))" unfolding sp(1) [symmetric] by simp
  then have "\<forall>x\<in>set doomed. \<forall>y\<in>set kept. emtime x \<le> emtime y" by (auto simp: sorted_append)
  moreover have "mset (pindex c) = mset (doomed @ kept)" unfolding sp(1) [symmetric] by simp
  moreover have "pindex (fst (evict_to_budget c io d)) = kept"
    using False e assms by (simp add: evict_to_budget_def Let_def)
  ultimately show ?thesis using sp by (intro exI [of _ doomed]) auto
qed

text \<open>A cache on an empty directory, and one written entry of two tokens.\<close>

definition demo_cache :: prefix_cache where
  "demo_cache = \<lparr>cfg = \<lparr>root = ''r'', max_bytes = 100, min_tokens = 1\<rparr>, compat = 5, enabled = True, pindex = []\<rparr>"

definition demo_env :: env where
  "demo_env = \<lparr>can_read = (\<lambda>_. True), tmp_opens = True, writes_ok = True, rename_ok = True,
     unlink_ok = (\<lambda>_. True), now = 9\<rparr>"

abbreviation demo_written :: "bool \<times> prefix_cache \<times> disk" where
  "demo_written \<equiv> pfx_write demo_cache demo_env Map.empty [7, 8, 9] 2 [1, 2] [3]"


theorem pfx_find_sound_witness:
  "\<exists>e. pfx_find (fst (snd demo_written)) demo_env (snd (snd demo_written)) [7, 8, 10] = Some e \<and>
     nat (eL e) < length [7 :: 32 word, 8, 10] \<and>
     (\<exists>f. open_file demo_env (snd (snd demo_written)) (path e) = Some f \<and>
        dec_toks (nat (eL e)) (slice 64 (nat (eL e) * 4) f) = take (nat (eL e)) [7, 8, 10])"
proof -
  have "\<not> Option.is_none (pfx_find (fst (snd demo_written)) demo_env (snd (snd demo_written)) [7, 8, 10])" by code_simp
  then obtain e where e: "pfx_find (fst (snd demo_written)) demo_env (snd (snd demo_written)) [7, 8, 10] = Some e"
    by (auto simp: Option.is_none_def)
  from pfx_find_sound [OF e] e show ?thesis by blast
qed

theorem evict_to_budget_lru_witness:
  "\<exists>doomed. mset (pindex demo_cache) = mset (doomed @ pindex (fst (evict_to_budget demo_cache demo_env Map.empty))) \<and>
    total_bytes (pindex (fst (evict_to_budget demo_cache demo_env Map.empty))) \<le> max_bytes (cfg demo_cache)"
  using evict_to_budget_lru [of demo_cache demo_env Map.empty] by (auto simp: demo_cache_def)

end
