(* ===== verification/Prefix_Ram.thy ===== *)
theory Prefix_Ram
  imports Q27_Prelude
begin

text \<open>
  The host-RAM tier of the prefix cache, \<^verbatim>\<open>src/src/prefix_ram.h\<close>.  A slot is identified by a
  number (the identity of its \<^verbatim>\<open>shared_ptr\<close>); the blobs are a map from slots; \<open>lru\<close> is the vector of
  slots, least recently used first.  \<open>busy\<close> says which slots are referenced outside the vector
  (\<^verbatim>\<open>use_count() > 1\<close>), \<open>alloc\<close> whether the next pinned allocation succeeds.  Each operation runs
  under the mutex, so it is one atomic step.
\<close>

section \<open>State\<close>

record ram_blob =
  rb_toks :: "int list"
  rb_cap :: nat
  rb_bytes :: nat

record prefix_ram =
  lru :: "nat list"
  blob :: "nat \<Rightarrow> ram_blob"
  slot_bytes :: nat
  max_slots :: nat
  allocated :: nat

text \<open>\<open>allocated\<close> counts the pinned allocations and is the name of the next slot.\<close>

definition ram_init :: "nat \<Rightarrow> nat \<Rightarrow> prefix_ram" where
  "ram_init budget slot =
     \<lparr>lru = [], blob = (\<lambda>_. \<lparr>rb_toks = [], rb_cap = 0, rb_bytes = 0\<rparr>), slot_bytes = slot,
      max_slots = (if slot \<noteq> 0 then budget div slot else 0), allocated = 0\<rparr>"

definition ram_enabled :: "prefix_ram \<Rightarrow> bool" where
  "ram_enabled r \<longleftrightarrow> max_slots r > 0"

definition fresh_slot :: "prefix_ram \<Rightarrow> nat \<Rightarrow> prefix_ram" where
  "fresh_slot r need =
     r\<lparr>blob := (blob r)(allocated r := \<lparr>rb_toks = [], rb_cap = slot_bytes r, rb_bytes = need\<rparr>),
       allocated := allocated r + 1\<rparr>"

text \<open>\<open>prealloc\<close>: \<open>oks\<close> are the outcomes of the successive allocations.\<close>

fun prealloc_loop :: "bool list \<Rightarrow> prefix_ram \<Rightarrow> prefix_ram" where
  "prealloc_loop [] r = r"
| "prealloc_loop (ok # oks) r =
     (if \<not> length (lru r) < max_slots r then r
      else if \<not> ok then r\<lparr>max_slots := length (lru r)\<rparr>
      else let r' = fresh_slot r 0 in prealloc_loop oks (r'\<lparr>lru := lru r @ [allocated r]\<rparr>))"

definition prealloc :: "bool list \<Rightarrow> prefix_ram \<Rightarrow> prefix_ram" where
  "prealloc oks r = (if \<not> ram_enabled r then r else prealloc_loop oks r)"

definition touch :: "nat \<Rightarrow> nat list \<Rightarrow> nat list" where
  "touch b l = (if b \<in> set l then remove1 b l @ [b] else l)"

text \<open>The scan of \<open>find\<close> keeps the best slot so far.\<close>

fun find_best :: "(nat \<Rightarrow> int list) \<Rightarrow> int list \<Rightarrow> nat list \<Rightarrow> nat option \<Rightarrow> nat option" where
  "find_best toks prompt [] best = best"
| "find_best toks prompt (b # bs) best =
     (if toks b = [] \<or> length (toks b) + 1 > length prompt then find_best toks prompt bs best
      else if (case best of Some b' \<Rightarrow> length (toks b) \<le> length (toks b') | None \<Rightarrow> False) then
        find_best toks prompt bs best
      else if toks b = take (length (toks b)) prompt then find_best toks prompt bs (Some b)
      else find_best toks prompt bs best)"

definition slot_toks :: "prefix_ram \<Rightarrow> nat \<Rightarrow> int list" where
  "slot_toks r b = rb_toks (blob r b)"

definition ram_find :: "prefix_ram \<Rightarrow> int list \<Rightarrow> nat option \<times> prefix_ram" where
  "ram_find r prompt =
     (if \<not> ram_enabled r \<or> prompt = [] then (None, r)
      else case find_best (slot_toks r) prompt (lru r) None of
             None \<Rightarrow> (None, r)
           | Some b \<Rightarrow> (Some b, r\<lparr>lru := touch b (lru r)\<rparr>))"

definition acquire :: "(nat \<Rightarrow> bool) \<Rightarrow> bool \<Rightarrow> prefix_ram \<Rightarrow> nat \<Rightarrow> nat option \<times> prefix_ram" where
  "acquire busy alloc r need =
     (if \<not> ram_enabled r \<or> need > slot_bytes r then (None, r)
      else if length (lru r) \<ge> max_slots r then
        (case find (\<lambda>b. \<not> busy b) (lru r) of
           None \<Rightarrow> (None, r)
         | Some b \<Rightarrow>
             (Some b, r\<lparr>lru := remove1 b (lru r),
                        blob := (blob r)(b := (blob r b)\<lparr>rb_toks := [], rb_bytes := need\<rparr>)\<rparr>))
      else if \<not> alloc then (None, r\<lparr>max_slots := 0\<rparr>)
      else (Some (allocated r), fresh_slot r need))"

definition publish :: "prefix_ram \<Rightarrow> nat option \<Rightarrow> int list \<Rightarrow> int \<Rightarrow> prefix_ram" where
  "publish r b prompt L =
     (case b of
        None \<Rightarrow> r
      | Some b \<Rightarrow>
          if \<not> ram_enabled r \<or> L \<le> 0 \<or> nat L > length prompt then r
          else
            let r1 = r\<lparr>blob := (blob r)(b := (blob r b)\<lparr>rb_toks := take (nat L) prompt\<rparr>)\<rparr>
            in r1\<lparr>lru := filter (\<lambda>x. x \<noteq> b)
                     (filter (\<lambda>x. \<not> (x \<noteq> b \<and> slot_toks r1 x = slot_toks r1 b)) (lru r)) @ [b]\<rparr>)"

section \<open>Lookup\<close>

text \<open>The slots a prompt may use: published, a prefix of the prompt, and a token left to decode.\<close>

definition usable :: "(nat \<Rightarrow> int list) \<Rightarrow> int list \<Rightarrow> nat \<Rightarrow> bool" where
  "usable toks prompt b \<longleftrightarrow>
     toks b \<noteq> [] \<and> length (toks b) < length prompt \<and> toks b = take (length (toks b)) prompt"

interpretation ram_scan: longest_scan "usable toks prompt" "\<lambda>b. length (toks b)" "find_best toks prompt"
  for toks prompt
  by unfold_locales (auto simp: usable_def split: option.splits)

section \<open>Properties\<close>

text \<open>
  The RAM tier returns the longest usable slot.  A returned slot holds a published prefix of
  the prompt, compared token by token, that leaves a token to decode, and no usable slot is
  longer; when nothing is returned, no slot is usable.
\<close>

theorem ram_find_longest:
  assumes "ram_enabled r" "prompt \<noteq> []"
  shows "case fst (ram_find r prompt) of
      None \<Rightarrow> list_all (\<lambda>b. \<not> usable (slot_toks r) prompt b) (lru r)
    | Some b \<Rightarrow> b \<in> set (lru r) \<and> usable (slot_toks r) prompt b \<and>
        list_all (\<lambda>b'. length (slot_toks r b') \<le> length (slot_toks r b))
          (filter (usable (slot_toks r) prompt) (lru r))"
  using ram_scan.scan_longest [of "slot_toks r" prompt "lru r"] assms
  by (auto simp: ram_find_def split: option.splits)

definition demo_ram :: prefix_ram where
  "demo_ram = publish (prealloc [True, True] (ram_init 20 10)) (Some 0) [1, 2, 3] 2"

theorem ram_find_longest_witness:
  "case fst (ram_find demo_ram [1, 2, 4]) of
      None \<Rightarrow> list_all (\<lambda>b. \<not> usable (slot_toks demo_ram) [1, 2, 4] b) (lru demo_ram)
    | Some b \<Rightarrow> b \<in> set (lru demo_ram) \<and> usable (slot_toks demo_ram) [1, 2, 4] b \<and>
        list_all (\<lambda>b'. length (slot_toks demo_ram b') \<le> length (slot_toks demo_ram b))
          (filter (usable (slot_toks demo_ram) [1, 2, 4]) (lru demo_ram))"
proof (rule ram_find_longest)
  show "ram_enabled demo_ram" by code_simp
qed simp

text \<open>
  The slot budget is not an invariant.  With one preallocated slot, a second \<open>acquire\<close> that
  runs while the first slot is being filled finds the vector empty and allocates another slot;
  after both are published the tier holds two slots and has allocated twice.
\<close>

theorem ram_slots_exceed_budget:
  "let r0 = prealloc [True] (ram_init 10 10);
       (a, r1) = acquire (\<lambda>_. False) True r0 5;
       (b, r2) = acquire (\<lambda>_. False) True r1 5;
       r3 = publish (publish r2 a [1, 2] 1) b [3, 4] 1
   in max_slots r3 = 1 \<and> length (lru r3) = 2 \<and> allocated r3 = 2"
  by code_simp

end
