(* ===== verification/Snapshot_Store.thy ===== *)
theory Snapshot_Store
  imports Q27_Prelude "HOL-Library.Multiset" "HOL-Library.Product_Lexorder"
begin

text \<open>
  The disk snapshot store: \<^verbatim>\<open>src/src/metal/snapshot_evict.h\<close> (the eviction order) and
  \<^verbatim>\<open>src/src/metal/disk_snapshot_store.h\<close>.  The directory is the list of its entries in the order the
  iterator delivers them; an entry carries what the injected \<^verbatim>\<open>peek\<close> function returns for it
  (\<open>None\<close> when it throws).  The injected hash is the parameter \<open>hash\<close>; \<open>rm_ok\<close> says which files
  can be removed.  Every operation holds the mutex and is one step.
\<close>

section \<open>Eviction order\<close>

record candidate =
  c_path :: string
  c_size :: nat
  c_mtime :: nat
  spine :: bool

type_synonym token_map = "string \<Rightarrow> nat list option"

definition strict_prefix_of :: "nat list \<Rightarrow> nat list \<Rightarrow> bool" where
  "strict_prefix_of a b \<longleftrightarrow> length a < length b \<and> a = take (length a) b"

definition is_spine :: "token_map \<Rightarrow> candidate list \<Rightarrow> nat \<Rightarrow> bool" where
  "is_spine toks files i =
     (case toks (c_path (files ! i)) of
        None \<Rightarrow> False
      | Some a \<Rightarrow>
          list_ex (\<lambda>j. i \<noteq> j \<and> (case toks (c_path (files ! j)) of None \<Rightarrow> False | Some b \<Rightarrow> strict_prefix_of a b))
            [0..<length files])"

definition mark_spine :: "candidate list \<Rightarrow> token_map \<Rightarrow> candidate list" where
  "mark_spine files toks = map (\<lambda>i. (files ! i)\<lparr>spine := is_spine toks files i\<rparr>) [0..<length files]"

definition eviction_order :: "bool \<Rightarrow> candidate list \<Rightarrow> candidate list" where
  "eviction_order spine_pin files =
     (if spine_pin then sort_key (\<lambda>x. (spine x, c_mtime x)) files else sort_key c_mtime files)"

section \<open>The store\<close>

record snap_info =
  position :: nat
  logits_resident :: bool
  i_tokens :: "nat list"

record snap_file =
  f_name :: string
  f_regular :: bool
  f_size :: nat
  f_mtime :: nat
  f_info :: "snap_info option"

record store =
  dir :: string
  s_max_bytes :: nat
  tag :: string
  spine_pin :: bool
  tokens_of :: token_map
  meta_of :: "string \<Rightarrow> snap_info option"
  evicted_spine :: nat
  evicted_leaf :: nat

definition store_init :: "string \<Rightarrow> nat \<Rightarrow> string \<Rightarrow> bool \<Rightarrow> store" where
  "store_init d m tg pin =
     \<lparr>dir = d, s_max_bytes = m, tag = tg, spine_pin = pin, tokens_of = Map.empty, meta_of = Map.empty,
      evicted_spine = 0, evicted_leaf = 0\<rparr>"

definition store_enabled :: "store \<Rightarrow> bool" where
  "store_enabled s \<longleftrightarrow> dir s \<noteq> []"

definition SNAP_EXT :: string where "SNAP_EXT = ''.q27snap''"

definition is_snap :: "snap_file \<Rightarrow> bool" where
  "is_snap f \<longleftrightarrow> f_regular f \<and> length (f_name f) > 8 \<and> drop (length (f_name f) - 8) (f_name f) = SNAP_EXT"

definition file_path :: "store \<Rightarrow> string \<Rightarrow> string" where
  "file_path s n = dir s @ ''/'' @ n"

text \<open>The metadata of a file: the cached peek, or a fresh one that is then cached.\<close>

definition file_info :: "store \<Rightarrow> snap_file \<Rightarrow> snap_info option" where
  "file_info s f =
     (case meta_of s (file_path s (f_name f)) of Some i \<Rightarrow> Some i | None \<Rightarrow> f_info f)"

definition cache_info :: "store \<Rightarrow> snap_file \<Rightarrow> store" where
  "cache_info s f =
     (case file_info s f of
        None \<Rightarrow> s
      | Some i \<Rightarrow> s\<lparr>meta_of := (meta_of s)(file_path s (f_name f) \<mapsto> i)\<rparr>)"

definition visible :: "store \<Rightarrow> snap_file \<Rightarrow> bool" where
  "visible s f \<longleftrightarrow> is_snap f \<and> take (length (tag s)) (f_name f) = tag s"

text \<open>The tests of the loop body on the peeked metadata, except the comparison with the best.\<close>

definition resumable :: "nat list \<Rightarrow> snap_info \<Rightarrow> bool" where
  "resumable prompt i \<longleftrightarrow>
     position i = length (i_tokens i) \<and> i_tokens i \<noteq> [] \<and> \<not> length (i_tokens i) > length prompt \<and>
     \<not> (length (i_tokens i) = length prompt \<and> \<not> logits_resident i) \<and>
     i_tokens i = take (length (i_tokens i)) prompt"

fun match_scan :: "store \<Rightarrow> nat list \<Rightarrow> snap_file list \<Rightarrow> (snap_file \<times> nat) option \<Rightarrow> (snap_file \<times> nat) option \<times> store" where
  "match_scan s prompt [] best = (best, s)"
| "match_scan s prompt (f # fs) best =
     (if \<not> visible s f then match_scan s prompt fs best
      else case file_info s f of
             None \<Rightarrow> match_scan s prompt fs best
           | Some i \<Rightarrow>
               let s' = cache_info s f
               in if resumable prompt i \<and>
                     \<not> length (i_tokens i) \<le> (case best of None \<Rightarrow> 0 | Some (_, n) \<Rightarrow> n)
                  then match_scan s' prompt fs (Some (f, length (i_tokens i)))
                  else match_scan s' prompt fs best)"

definition touch_file :: "nat \<Rightarrow> string \<Rightarrow> snap_file list \<Rightarrow> snap_file list" where
  "touch_file t n fs = map (\<lambda>f. if f_name f = n then f\<lparr>f_mtime := t\<rparr> else f) fs"

definition best_match ::
    "store \<Rightarrow> nat \<Rightarrow> snap_file list \<Rightarrow> nat list \<Rightarrow> (string \<times> nat) option \<times> store \<times> snap_file list" where
  "best_match s t fs prompt =
     (if \<not> store_enabled s then (None, s, fs)
      else case match_scan s prompt fs None of
             (None, s') \<Rightarrow> (None, s', fs)
           | (Some (f, n), s') \<Rightarrow> (Some (file_path s (f_name f), n), s', touch_file t (f_name f) fs))"

definition key_name :: "(nat list \<Rightarrow> string) \<Rightarrow> store \<Rightarrow> nat list \<Rightarrow> string" where
  "key_name hash s toks = tag s @ hash toks @ SNAP_EXT"

definition path_for :: "(nat list \<Rightarrow> string) \<Rightarrow> store \<Rightarrow> nat list \<Rightarrow> string \<times> store" where
  "path_for hash s toks =
     (let p = file_path s (key_name hash s toks)
      in (p, if tokens_of s p = None then s\<lparr>tokens_of := (tokens_of s)(p \<mapsto> toks)\<rparr> else s))"

definition exact_resident ::
    "(nat list \<Rightarrow> string) \<Rightarrow> store \<Rightarrow> snap_file list \<Rightarrow> nat list \<Rightarrow> bool \<times> store" where
  "exact_resident hash s fs toks =
     (if \<not> store_enabled s \<or> toks = [] then (False, s)
      else case find (\<lambda>f. f_name f = key_name hash s toks \<and> f_regular f) fs of
             None \<Rightarrow> (False, s)
           | Some f \<Rightarrow>
               (case file_info s f of
                  None \<Rightarrow> (False, s)
                | Some i \<Rightarrow> (logits_resident i \<and> position i = length toks \<and> i_tokens i = toks, cache_info s f)))"

definition forget :: "store \<Rightarrow> string \<Rightarrow> store" where
  "forget s p = s\<lparr>meta_of := (meta_of s)(p := None), tokens_of := (tokens_of s)(p := None)\<rparr>"

definition reject :: "(string \<Rightarrow> bool) \<Rightarrow> store \<Rightarrow> snap_file list \<Rightarrow> string \<Rightarrow> store \<times> snap_file list" where
  "reject rm_ok s fs p =
     (forget s p, filter (\<lambda>f. \<not> (file_path s (f_name f) = p \<and> rm_ok p)) fs)"

definition published :: "store \<Rightarrow> string \<Rightarrow> store" where
  "published s p = s\<lparr>meta_of := (meta_of s)(p := None)\<rparr>"

section \<open>Eviction past the budget\<close>

definition candidates :: "store \<Rightarrow> snap_file list \<Rightarrow> candidate list" where
  "candidates s fs =
     map (\<lambda>f. \<lparr>c_path = file_path s (f_name f), c_size = f_size f, c_mtime = f_mtime f, spine = False\<rparr>)
       (filter is_snap fs)"

definition learn_tokens :: "store \<Rightarrow> snap_file list \<Rightarrow> store" where
  "learn_tokens s fs =
     s\<lparr>tokens_of := foldl (\<lambda>m f. let p = file_path s (f_name f) in
         if m p = None then m(p := map_option i_tokens (f_info f)) else m) (tokens_of s) (filter is_snap fs)\<rparr>"

record eviction =
  ev_total :: nat
  ev_count :: nat
  ev_freed :: nat
  ev_removed :: "candidate list"

fun evict_files :: "(string \<Rightarrow> bool) \<Rightarrow> nat \<Rightarrow> candidate list \<Rightarrow> eviction \<Rightarrow> eviction" where
  "evict_files rm_ok budget [] ev = ev"
| "evict_files rm_ok budget (f # fs) ev =
     (if ev_total ev \<le> budget then ev
      else if rm_ok (c_path f) then
        evict_files rm_ok budget fs
          (ev\<lparr>ev_total := ev_total ev - c_size f, ev_count := ev_count ev + 1,
              ev_freed := ev_freed ev + c_size f, ev_removed := ev_removed ev @ [f]\<rparr>)
      else evict_files rm_ok budget fs ev)"

definition eviction_plan :: "store \<Rightarrow> snap_file list \<Rightarrow> candidate list" where
  "eviction_plan s fs =
     (let files = candidates s fs;
          marked = (if spine_pin s then mark_spine files (tokens_of (learn_tokens s fs)) else files)
      in eviction_order (spine_pin s) marked)"

definition evict_past_budget ::
    "(string \<Rightarrow> bool) \<Rightarrow> store \<Rightarrow> snap_file list \<Rightarrow> (nat \<times> nat) \<times> store \<times> snap_file list" where
  "evict_past_budget rm_ok s fs =
     (if \<not> store_enabled s \<or> s_max_bytes s = 0 then ((0, 0), s, fs)
      else
        let s1 = (if spine_pin s then learn_tokens s fs else s);
            ev = evict_files rm_ok (s_max_bytes s) (eviction_plan s fs)
                   \<lparr>ev_total = sum_list (map c_size (candidates s fs)), ev_count = 0, ev_freed = 0, ev_removed = []\<rparr>;
            gone = map c_path (ev_removed ev);
            s2 = foldl forget s1 gone
        in ((ev_count ev, ev_freed ev),
            s2\<lparr>evicted_spine := evicted_spine s2 + length (filter spine (ev_removed ev)),
               evicted_leaf := evicted_leaf s2 + length (filter (\<lambda>f. \<not> spine f) (ev_removed ev))\<rparr>,
            filter (\<lambda>f. file_path s (f_name f) \<notin> set gone) fs))"

section \<open>The best match\<close>

definition keep_longest :: "('e \<Rightarrow> bool) \<Rightarrow> ('e \<Rightarrow> nat) \<Rightarrow> 'e list \<Rightarrow> 'e option \<Rightarrow> 'e option" where
  "keep_longest ok len es best =
     foldl (\<lambda>b e. if ok e \<and> (case b of None \<Rightarrow> True | Some b \<Rightarrow> len b < len e) then Some e else b) best es"

interpretation store_scan: longest_scan ok len "keep_longest ok len" for ok len
  by unfold_locales (simp_all add: keep_longest_def)

text \<open>The cached metadata agrees with the files.\<close>

definition coherent :: "store \<Rightarrow> snap_file list \<Rightarrow> bool" where
  "coherent s fs \<longleftrightarrow> list_all (\<lambda>f. meta_of s (file_path s (f_name f)) \<in> {None, f_info f}) fs"

definition usable_file :: "store \<Rightarrow> nat list \<Rightarrow> snap_file \<Rightarrow> bool" where
  "usable_file s prompt f \<longleftrightarrow> visible s f \<and> (case f_info f of None \<Rightarrow> False | Some i \<Rightarrow> resumable prompt i)"

definition file_len :: "snap_file \<Rightarrow> nat" where
  "file_len f = (case f_info f of None \<Rightarrow> 0 | Some i \<Rightarrow> length (i_tokens i))"

lemma file_path_inject [simp]: "file_path s m = file_path s n \<longleftrightarrow> m = n"
  by (simp add: file_path_def)

lemma cache_info_frame [simp]:
  "dir (cache_info s f) = dir s" "tag (cache_info s f) = tag s" "visible (cache_info s f) = visible s"
  "file_path (cache_info s f) = file_path s" "usable_file (cache_info s f) = usable_file s"
  by (simp_all add: cache_info_def visible_def file_path_def usable_file_def fun_eq_iff split: option.splits)

lemma coherent_cache:
  assumes "coherent s (f # fs)" "distinct (map f_name (f # fs))"
  shows "coherent (cache_info s f) fs" "file_info s f = f_info f"
proof -
  show fi: "file_info s f = f_info f"
    using assms(1) by (auto simp: coherent_def file_info_def split: option.splits)
  have ne: "f_name g \<noteq> f_name f" if "g \<in> set fs" for g using assms(2) that by (auto simp: image_iff)
  show "coherent (cache_info s f) fs"
    using assms(1) ne unfolding coherent_def list_all_iff
    by (auto simp: cache_info_def fi file_path_def split: option.splits)
qed

lemma match_scan_eq:
  "coherent s fs \<Longrightarrow> distinct (map f_name fs) \<Longrightarrow>
     (case best of None \<Rightarrow> True | Some b \<Rightarrow> usable_file s prompt b) \<Longrightarrow>
     fst (match_scan s prompt fs (map_option (\<lambda>f. (f, file_len f)) best)) =
     map_option (\<lambda>f. (f, file_len f)) (keep_longest (usable_file s prompt) file_len fs best)"
proof (induction fs arbitrary: s best)
  case Nil
  then show ?case by (simp add: store_scan.scan_Nil)
next
  case (Cons f fs)
  note c = coherent_cache [OF Cons.prems(1,2)]
  have rest: "coherent s fs" "distinct (map f_name fs)" using Cons.prems by (auto simp: coherent_def)
  show ?case
  proof (cases "visible s f \<and> f_info f \<noteq> None")
    case False
    then have "\<not> usable_file s prompt f" by (auto simp: usable_file_def)
    with False Cons.IH [OF rest Cons.prems(3)] c(2) show ?thesis
      by (auto simp: store_scan.scan_Cons)
  next
    case True
    then obtain i where i: "f_info f = Some i" by auto
    have pos: "0 < length (i_tokens i)" if "resumable prompt i" using that by (simp add: resumable_def)
    show ?thesis
    proof (cases "resumable prompt i \<and> (case best of None \<Rightarrow> True | Some b \<Rightarrow> file_len b < length (i_tokens i))")
      case new: True
      then have "usable_file s prompt f" using True i by (simp add: usable_file_def)
      then show ?thesis
        using Cons.IH [OF c(1) rest(2), of "Some f"] True i c(2) new pos
        by (cases best) (auto simp: store_scan.scan_Cons file_len_def Let_def)
    next
      case old: False
      have u: "usable_file s prompt f \<longleftrightarrow> resumable prompt i" using True i by (simp add: usable_file_def)
      have ih: "fst (match_scan (cache_info s f) prompt fs (map_option (\<lambda>f. (f, file_len f)) best)) =
          map_option (\<lambda>f. (f, file_len f)) (keep_longest (usable_file s prompt) file_len fs best)"
        using Cons.IH [OF c(1) rest(2), of best] Cons.prems(3) by (cases best) simp_all
      have len: "file_len f = length (i_tokens i)" using i by (simp add: file_len_def)
      from ih show ?thesis using True i c(2) old pos u
        by (cases best) (auto simp: store_scan.scan_Cons len Let_def)
    qed
  qed
qed

section \<open>The eviction loop\<close>

lemma evict_files_take:
  "\<exists>n. ev_removed (evict_files (\<lambda>_. True) budget fs ev) = ev_removed ev @ take n fs \<and>
     ev_total (evict_files (\<lambda>_. True) budget fs ev) = ev_total ev - sum_list (map c_size (take n fs)) \<and>
     ev_freed (evict_files (\<lambda>_. True) budget fs ev) = ev_freed ev + sum_list (map c_size (take n fs)) \<and>
     (ev_total (evict_files (\<lambda>_. True) budget fs ev) \<le> budget \<or> n = length fs) \<and> (ev_total ev \<le> budget \<longrightarrow> n = 0)"
proof (induction fs arbitrary: ev)
  case Nil
  then show ?case by (intro exI [of _ 0]) simp
next
  case (Cons f fs)
  show ?case
  proof (cases "ev_total ev \<le> budget")
    case True
    then show ?thesis by (intro exI [of _ 0]) simp
  next
    case False
    let ?ev = "ev\<lparr>ev_total := ev_total ev - c_size f, ev_count := ev_count ev + 1,
              ev_freed := ev_freed ev + c_size f, ev_removed := ev_removed ev @ [f]\<rparr>"
    from Cons.IH [of ?ev] obtain n where n:
      "ev_removed (evict_files (\<lambda>_. True) budget fs ?ev) = ev_removed ?ev @ take n fs"
      "ev_total (evict_files (\<lambda>_. True) budget fs ?ev) = ev_total ?ev - sum_list (map c_size (take n fs))"
      "ev_freed (evict_files (\<lambda>_. True) budget fs ?ev) = ev_freed ?ev + sum_list (map c_size (take n fs))"
      "ev_total (evict_files (\<lambda>_. True) budget fs ?ev) \<le> budget \<or> n = length fs" by blast
    then show ?thesis using False by (intro exI [of _ "Suc n"]) (auto simp: diff_diff_left)
  qed
qed

lemma plan_mset:
  "mset (map (\<lambda>c. (c_path c, c_size c)) (eviction_plan s fs)) =
     mset (map (\<lambda>c. (c_path c, c_size c)) (candidates s fs))"
proof -
  have "map (\<lambda>c. (c_path c, c_size c)) (mark_spine files toks) = map (\<lambda>c. (c_path c, c_size c)) files" for files toks
    by (rule nth_equalityI) (simp_all add: mark_spine_def)
  then have marked: "image_mset (\<lambda>c. (c_path c, c_size c)) (mset (mark_spine files toks)) =
      image_mset (\<lambda>c. (c_path c, c_size c)) (mset files)" for files toks
    by (metis mset_map)
  show ?thesis
    by (simp add: eviction_plan_def eviction_order_def Let_def marked)
qed

section \<open>Properties\<close>

lemma match_scan_coherent:
  "list_all (\<lambda>f. meta_of s (file_path s (f_name f)) \<in> {None, f_info f}) all \<Longrightarrow> set fs \<subseteq> set all \<Longrightarrow>
     distinct (map f_name all) \<Longrightarrow> s' = snd (match_scan s prompt fs best) \<Longrightarrow>
     dir s' = dir s \<and> coherent s' all"
proof (induction fs arbitrary: s best)
  case Nil
  then show ?case by (simp add: coherent_def)
next
  case (Cons f fs)
  have inj: "f_name g = f_name f \<longleftrightarrow> g = f" if "g \<in> set all" for g
    using Cons.prems(2,3) that by (auto simp: distinct_map inj_on_def)
  have step: "list_all (\<lambda>g. meta_of (cache_info s f) (file_path (cache_info s f) (f_name g)) \<in> {None, f_info g}) all"
    using Cons.prems(1,2) inj
    by (auto simp: list_all_iff cache_info_def file_info_def file_path_def split: option.splits)
  have sub: "set fs \<subseteq> set all" using Cons.prems(2) by simp
  consider b where "match_scan s prompt (f # fs) best = match_scan s prompt fs b"
    | b where "match_scan s prompt (f # fs) best = match_scan (cache_info s f) prompt fs b"
    by (cases "visible s f"; cases "file_info s f"; unfold match_scan.simps Let_def)
      (simp_all del: match_scan.simps, metis (full_types))
  then show ?case
  proof cases
    case 1
    then show ?thesis using Cons.IH [OF Cons.prems(1) sub Cons.prems(3)] Cons.prems(4) by simp
  next
    case 2
    then show ?thesis using Cons.IH [OF step sub Cons.prems(3)] Cons.prems(4) by simp
  qed
qed

text \<open>
  C20: when no cached metadata contradicts its file and the names are distinct, \<open>best_match\<close> returns a
  snapshot of this identity whose whole token list is a prefix of the prompt (and carries its logits
  when it covers all of the prompt), of the greatest length among those; it returns nothing only when
  no file qualifies; and the metadata it cached still agrees with the directory it leaves.
\<close>

theorem best_match_longest:
  assumes "coherent s fs" "distinct (map f_name fs)" "store_enabled s"
  shows "case best_match s t fs prompt of (r, s', fs') \<Rightarrow>
      coherent s' fs' \<and>
      (case r of
         None \<Rightarrow> list_all (\<lambda>f. \<not> usable_file s prompt f) fs
       | Some (p, n) \<Rightarrow>
           list_ex (\<lambda>f. p = file_path s (f_name f) \<and> usable_file s prompt f \<and> n = file_len f) fs \<and>
           list_all (\<lambda>g. usable_file s prompt g \<longrightarrow> file_len g \<le> n) fs)"
proof -
  obtain r s' where r: "match_scan s prompt fs None = (r, s')" by force
  have scan: "r = map_option (\<lambda>f. (f, file_len f)) (keep_longest (usable_file s prompt) file_len fs None)"
    using match_scan_eq [OF assms(1,2), where best = None and prompt = prompt] r by simp
  have coh: "dir s' = dir s" "coherent s' fs"
    using match_scan_coherent [of s fs fs s' prompt None] assms r
    by (simp_all add: coherent_def)
  have touched: "coherent s' (touch_file t n fs)" for n
    using coh(2) by (auto simp: coherent_def touch_file_def list_all_iff)
  show ?thesis
    using store_scan.scan_from [where best = None and ok = "usable_file s prompt" and len = file_len and es = fs] scan r coh touched assms(3)
    by (auto simp: best_match_def list_ex_iff list_all_iff split: option.splits)
qed

definition demo_store :: store where
  "demo_store = store_init ''d'' 150 ''t-'' True"

definition demo_files :: "snap_file list" where
  "demo_files =
     [\<lparr>f_name = ''t-aaaa.q27snap'', f_regular = True, f_size = 100, f_mtime = 1,
       f_info = Some \<lparr>position = 1, logits_resident = False, i_tokens = [7]\<rparr>\<rparr>,
      \<lparr>f_name = ''t-bbbb.q27snap'', f_regular = True, f_size = 100, f_mtime = 5,
       f_info = Some \<lparr>position = 2, logits_resident = False, i_tokens = [7, 8]\<rparr>\<rparr>,
      \<lparr>f_name = ''t-cccc.q27snap'', f_regular = True, f_size = 100, f_mtime = 9, f_info = None\<rparr>]"

theorem best_match_longest_witness:
  "coherent demo_store demo_files \<and> distinct (map f_name demo_files) \<and> store_enabled demo_store \<and>
   fst (best_match demo_store 11 demo_files [7, 8, 9]) = Some (''d/t-bbbb.q27snap'', 2) \<and>
   (case best_match demo_store 11 demo_files [7, 8, 9] of (r, s', fs') \<Rightarrow> coherent s' fs')"
proof -
  have h: "coherent demo_store demo_files" "distinct (map f_name demo_files)" "store_enabled demo_store"
    "fst (best_match demo_store 11 demo_files [7, 8, 9]) = Some (''d/t-bbbb.q27snap'', 2)"
    by code_simp+
  show ?thesis using h best_match_longest [OF h(1-3), where t = 11 and prompt = "[7, 8, 9]"] by (auto split: prod.splits)
qed

lemma store_enabled_frame: "file_path (foldl forget s ps) = file_path s"
  by (induction ps arbitrary: s) (simp_all add: forget_def file_path_def fun_eq_iff)

definition snap_bytes :: "snap_file list \<Rightarrow> nat" where
  "snap_bytes fs = sum_list (map f_size (filter is_snap fs))"

lemma plan_paths: "distinct (map f_name fs) \<Longrightarrow> distinct (map c_path (eviction_plan s fs))"
proof -
  assume d: "distinct (map f_name fs)"
  have "mset (map c_path (eviction_plan s fs)) = mset (map c_path (candidates s fs))"
    using arg_cong [OF plan_mset [of s fs], of "image_mset fst"] by (simp add: image_mset.compositionality comp_def)
  moreover have "distinct (map c_path (candidates s fs))"
    using d by (simp add: candidates_def comp_def distinct_map inj_on_def)
  ultimately show ?thesis by (metis mset_eq_imp_distinct_iff)
qed

lemma sum_snaps_kept:
  "sum_list (map f_size (filter is_snap (filter (\<lambda>f. file_path s (f_name f) \<notin> P) fs))) =
     sum_list (map c_size (filter (\<lambda>c. c_path c \<notin> P) (candidates s fs)))"
  by (simp add: candidates_def filter_map comp_def conj_commute)

lemma sum_plan_kept:
  "sum_list (map c_size (filter (\<lambda>c. c_path c \<notin> P) (eviction_plan s fs))) =
     sum_list (map c_size (filter (\<lambda>c. c_path c \<notin> P) (candidates s fs)))"
proof -
  have proj: "mset (map c_size (filter (\<lambda>c. c_path c \<notin> P) xs)) =
      image_mset snd (filter_mset (\<lambda>x. fst x \<notin> P) (mset (map (\<lambda>c. (c_path c, c_size c)) xs)))" for xs :: "candidate list"
    by (induction xs) auto
  have "mset (map c_size (filter (\<lambda>c. c_path c \<notin> P) (eviction_plan s fs))) =
      mset (map c_size (filter (\<lambda>c. c_path c \<notin> P) (candidates s fs)))"
    by (simp only: proj plan_mset)
  then show ?thesis by (metis sum_mset_sum_list)
qed

lemma filter_prefix_out: "distinct (map f xs) \<Longrightarrow> filter (\<lambda>c. f c \<notin> f ` set (take n xs)) xs = drop n xs"
proof -
  assume d: "distinct (map f xs)"
  then have "f c \<notin> f ` set (take n xs)" if "c \<in> set (drop n xs)" for c
    using that distinct_append [of "map f (take n xs)" "map f (drop n xs)"]
    by (metis IntI append_take_drop_id empty_iff image_eqI map_append set_map)
  then have "filter (\<lambda>c. f c \<notin> f ` set (take n xs)) (take n xs @ drop n xs) = drop n xs"
    by (simp only: filter_append) (simp add: filter_empty_conv)
  then show ?thesis by simp
qed

lemma plan_sorted:
  "spine_pin s \<Longrightarrow> sorted (map (\<lambda>x. (spine x, c_mtime x)) (eviction_plan s fs))"
  "\<not> spine_pin s \<Longrightarrow> sorted (map c_mtime (eviction_plan s fs))"
  by (simp_all add: eviction_plan_def eviction_order_def Let_def)

lemma plan_snap_paths: "c \<in> set (eviction_plan s fs) \<Longrightarrow> \<exists>f\<in>set fs. is_snap f \<and> c_path c = file_path s (f_name f)"
proof -
  assume "c \<in> set (eviction_plan s fs)"
  then have "(c_path c, c_size c) \<in># mset (map (\<lambda>c. (c_path c, c_size c)) (candidates s fs))"
    by (simp only: plan_mset [symmetric]) auto
  then show ?thesis by (auto simp: candidates_def)
qed

lemma plan_only_snaps:
  assumes "distinct (map f_name fs)"
  shows "filter (\<lambda>f. \<not> is_snap f) (filter (\<lambda>f. file_path s (f_name f) \<notin> c_path ` set (take n (eviction_plan s fs))) fs) =
    filter (\<lambda>f. \<not> is_snap f) fs"
proof -
  have "file_path s (f_name f) \<notin> c_path ` set (take n (eviction_plan s fs))" if "f \<in> set fs" "\<not> is_snap f" for f
  proof
    assume "file_path s (f_name f) \<in> c_path ` set (take n (eviction_plan s fs))"
    then obtain c where "c \<in> set (eviction_plan s fs)" "c_path c = file_path s (f_name f)"
      by (auto dest: in_set_takeD)
    then obtain g where "g \<in> set fs" "is_snap g" "f_name g = f_name f"
      using plan_snap_paths by force
    then show False using assms that by (metis distinct_map inj_onD)
  qed
  then show ?thesis by (auto intro!: filter_cong)
qed

lemma sorted_take_drop:
  fixes f :: "'a \<Rightarrow> 'b :: linorder"
  assumes "sorted (map f xs)"
  shows "list_all (\<lambda>c. list_all (\<lambda>d. f c \<le> f d) (drop n xs)) (take n xs)"
proof -
  have "sorted (map f (take n xs) @ map f (drop n xs))"
    using assms by (metis append_take_drop_id map_append)
  then show ?thesis by (simp add: sorted_append list_all_iff)
qed



end
