(* ===== verification/Suffix_Draft.thy ===== *)
theory Suffix_Draft
  imports Q27_Prelude "HOL-Library.Word" "HOL-Library.Sublist"
begin

text \<open>
  The echo drafter of \<^verbatim>\<open>src/src/suffixdraft.h\<close>: the committed token stream with an index from
  the hash of a 4-gram to the most recent positions of its last token, and the longest-suffix-match
  proposer.  Tokens are \<open>int\<close> values, reduced to 32 bits by the hash as in the code; positions are
  naturals.  The index is specified by the positions it should hold, and the proposer by the
  occurrence it copies.
\<close>

unbundle bit_operations_syntax

section \<open>Model\<close>

definition NG :: nat where "NG = 4"
definition MAXCAND :: nat where "MAXCAND = 64"
definition MAXEXT :: nat where "MAXEXT = 256"

type_synonym gram_index = "64 word \<Rightarrow> nat list option"

record suffix_draft =
  t :: "int list"
  idx :: gram_index

fun key4_loop :: "64 word \<Rightarrow> int list \<Rightarrow> 64 word" where
  "key4_loop h [] = h"
| "key4_loop h (x # xs) = key4_loop ((h XOR ucast (word_of_int x :: 32 word)) * 1099511628211) xs"

definition key4 :: "int list \<Rightarrow> 64 word" where
  "key4 p = key4_loop 1469598103934665603 (take NG p)"

definition trim_front :: "nat list \<Rightarrow> nat list" where
  "trim_front v = (if length v > MAXCAND then List.tl v else v)"

definition index_pos :: "suffix_draft \<Rightarrow> nat \<Rightarrow> suffix_draft" where
  "index_pos d i =
     (let key = key4 (drop (i + 1 - NG) (t d));
          v = (case idx d key of None \<Rightarrow> [] | Some v \<Rightarrow> v) @ [i]
      in d\<lparr>idx := (idx d)(key \<mapsto> trim_front v)\<rparr>)"

definition reset_draft :: "int list \<Rightarrow> suffix_draft" where
  "reset_draft prompt = foldl index_pos \<lparr>t = prompt, idx = Map.empty\<rparr> [NG - 1..<length prompt]"

definition append_tok :: "suffix_draft \<Rightarrow> int \<Rightarrow> suffix_draft" where
  "append_tok d tok =
     (let d' = d\<lparr>t := t d @ [tok]\<rparr>
      in if length (t d') \<ge> NG then index_pos d' (length (t d') - 1) else d')"

text \<open>The lambda \<open>s\<close> of \<open>propose_with\<close>: the stream with the pending token behind it.\<close>

definition stream_at :: "suffix_draft \<Rightarrow> int \<Rightarrow> nat \<Rightarrow> int" where
  "stream_at d pending i = (if i < length (t d) then t d ! i else pending)"

function extend_match :: "suffix_draft \<Rightarrow> int \<Rightarrow> nat \<Rightarrow> nat \<Rightarrow> nat" where
  "extend_match d pending p m =
     (if m < MAXEXT \<and> m \<le> p \<and> m \<le> length (t d) \<and> t d ! (p - m) = stream_at d pending (length (t d) - m)
      then extend_match d pending p (m + 1) else m)"
  by pat_completeness auto
termination by (relation "measure (\<lambda>(d, pending, p, m). MAXEXT - m)") auto

declare extend_match.simps [simp del]

definition key_matches :: "suffix_draft \<Rightarrow> int \<Rightarrow> nat \<Rightarrow> bool" where
  "key_matches d pending p = list_all (\<lambda>j. t d ! (p - j) = stream_at d pending (length (t d) - j)) [0..<NG]"

fun best_occurrence :: "suffix_draft \<Rightarrow> int \<Rightarrow> nat list \<Rightarrow> nat \<times> nat option \<Rightarrow> nat \<times> nat option" where
  "best_occurrence d pending [] best = best"
| "best_occurrence d pending (p # ps) (best_m, best_p) =
     (if p \<ge> length (t d) then best_occurrence d pending ps (best_m, best_p)
      else if \<not> key_matches d pending p then best_occurrence d pending ps (best_m, best_p)
      else let m = extend_match d pending p NG
           in if m \<ge> best_m then best_occurrence d pending ps (m, Some p)
              else best_occurrence d pending ps (best_m, best_p))"

fun fill_out :: "suffix_draft \<Rightarrow> int \<Rightarrow> nat \<Rightarrow> nat \<Rightarrow> int list \<Rightarrow> int list" where
  "fill_out d pending best_p 0 out = out"
| "fill_out d pending best_p (Suc k) out =
     (let src = best_p + 1 + length out; N = length (t d) + 1
      in fill_out d pending best_p k (out @ [if src < N then stream_at d pending src else out ! (src - N)]))"

definition propose_with :: "suffix_draft \<Rightarrow> int \<Rightarrow> nat \<Rightarrow> nat \<times> int list" where
  "propose_with d pending k =
     (if length (t d) < NG - 1 then (0, [])
      else let N = length (t d) + 1
           in case idx d (key4 (map (\<lambda>j. stream_at d pending (N - NG + j)) [0..<NG])) of
                None \<Rightarrow> (0, [])
              | Some ps \<Rightarrow>
                  (case best_occurrence d pending ps (0, None) of
                     (_, None) \<Rightarrow> (0, [])
                   | (best_m, Some best_p) \<Rightarrow> (best_m, fill_out d pending best_p k [])))"

section \<open>The index\<close>

text \<open>The positions at which a 4-gram with this key ends, and the ones the index keeps.\<close>

definition occurrences :: "int list \<Rightarrow> 64 word \<Rightarrow> nat list" where
  "occurrences xs key = filter (\<lambda>i. key4 (drop (i + 1 - NG) xs) = key) [NG - 1..<length xs]"

definition recent :: "nat list \<Rightarrow> nat list" where
  "recent v = drop (length v - MAXCAND) v"

definition index_of :: "int list \<Rightarrow> gram_index" where
  "index_of xs key = (if occurrences xs key = [] then None else Some (recent (occurrences xs key)))"

lemma trim_recent: "trim_front (recent v @ [i]) = recent (v @ [i])"
proof (cases "length v < MAXCAND")
  case False
  then have "List.tl (drop (length v - MAXCAND) v @ [i]) = drop (Suc (length v - MAXCAND)) v @ [i]"
    by (subst tl_append2) (auto simp: MAXCAND_def tl_drop drop_Suc)
  moreover have "Suc (length v - MAXCAND) = Suc (length v) - MAXCAND" using False by simp
  ultimately show ?thesis
    using False by (simp add: trim_front_def recent_def MAXCAND_def)
qed (simp add: trim_front_def recent_def)

lemma key4_prefix: "NG \<le> length ys \<Longrightarrow> key4 (ys @ zs) = key4 ys"
  by (simp add: key4_def)

lemma occurrences_snoc_stream:
  "occurrences (xs @ [x]) key = occurrences xs key @
     (if NG \<le> Suc (length xs) \<and> key4 (drop (Suc (length xs) - NG) (xs @ [x])) = key then [length xs] else [])"
proof -
  have same: "key4 (drop (i + 1 - NG) (xs @ [x])) = key4 (drop (i + 1 - NG) xs)" if "i \<in> {NG - 1..<length xs}" for i
    using that key4_prefix [of "drop (i + 1 - NG) xs" "[x]"] by (auto simp: NG_def)
  then have "filter (\<lambda>i. key4 (drop (i + 1 - NG) (xs @ [x])) = key) [NG - 1..<length xs] = occurrences xs key"
    unfolding occurrences_def by (intro filter_cong) auto
  then show ?thesis
    unfolding occurrences_def [of "xs @ [x]"] by (auto simp: NG_def Suc_diff_le numeral_eq_Suc)
qed

lemma index_of_snoc:
  "index_of (xs @ [x]) =
     (if NG \<le> Suc (length xs)
      then (let key = key4 (drop (Suc (length xs) - NG) (xs @ [x]))
            in (index_of xs)(key \<mapsto> trim_front ((case index_of xs key of None \<Rightarrow> [] | Some v \<Rightarrow> v) @ [length xs])))
      else index_of xs)"
proof -
  have "trim_front [length xs] = recent [length xs]" by (simp add: trim_front_def recent_def MAXCAND_def)
  then show ?thesis
    by (auto simp: index_of_def occurrences_snoc_stream trim_recent Let_def fun_eq_iff)
qed

lemma append_tok_exact: "idx d = index_of (t d) \<Longrightarrow> t (append_tok d x) = t d @ [x] \<and> idx (append_tok d x) = index_of (t d @ [x])"
  by (auto simp: append_tok_def index_pos_def Let_def index_of_snoc NG_def)

lemma index_pos_prefix:
  assumes "idx d = index_of (take i (t d))" "NG \<le> Suc i" "i < length (t d)"
  shows "idx (index_pos d i) = index_of (take (Suc i) (t d))"
proof -
  have key: "key4 (drop (i + 1 - NG) (t d)) = key4 (drop (Suc i - NG) (take i (t d) @ [t d ! i]))"
    using assms(2,3) by (simp add: key4_def take_drop flip: take_Suc_conv_app_nth) 
  show ?thesis
    using assms index_of_snoc [of "take i (t d)" "t d ! i"]
    unfolding index_pos_def Let_def key by (simp add: take_Suc_conv_app_nth)
qed

lemma index_fold:
  "n \<le> length prompt \<Longrightarrow>
     foldl index_pos \<lparr>t = prompt, idx = Map.empty\<rparr> [NG - 1..<n] = \<lparr>t = prompt, idx = index_of (take n prompt)\<rparr>"
proof (induction n)
  case 0
  then show ?case by (simp add: index_of_def occurrences_def fun_eq_iff)
next
  case (Suc n)
  let ?d = "\<lparr>t = prompt, idx = index_of (take n prompt)\<rparr>"
  show ?case
  proof (cases "NG - 1 \<le> n")
    case True
    have "t (index_pos ?d n) = prompt" by (simp add: index_pos_def Let_def)
    moreover have "idx (index_pos ?d n) = index_of (take (Suc n) prompt)"
      using index_pos_prefix [of ?d n] True Suc.prems by (simp add: NG_def)
    ultimately show ?thesis using Suc True by (simp add: suffix_draft.equality)
  next
    case False
    then show ?thesis using Suc.prems by (auto simp: index_of_def occurrences_def fun_eq_iff)
  qed
qed

lemma reset_draft_exact: "reset_draft prompt = \<lparr>t = prompt, idx = index_of prompt\<rparr>"
  using index_fold [of "length prompt" prompt] by (simp add: reset_draft_def)

lemma append_toks_exact:
  "foldl append_tok \<lparr>t = xs, idx = index_of xs\<rparr> ys = \<lparr>t = xs @ ys, idx = index_of (xs @ ys)\<rparr>"
proof (induction ys arbitrary: xs)
  case (Cons y ys)
  have "append_tok \<lparr>t = xs, idx = index_of xs\<rparr> y = \<lparr>t = xs @ [y], idx = index_of (xs @ [y])\<rparr>"
    using append_tok_exact [of "\<lparr>t = xs, idx = index_of xs\<rparr>" y] by (simp add: suffix_draft.equality)
  then show ?case using Cons.IH [of "xs @ [y]"] by simp
qed simp

lemma suffix_index_aux:
  "t (foldl append_tok (reset_draft prompt) toks) = prompt @ toks"
  "idx (foldl append_tok (reset_draft prompt) toks) = index_of (prompt @ toks)"
  by (simp_all add: reset_draft_exact append_toks_exact)

text \<open>
  However the stream is split into a prompt and appended tokens, the drafter holds the whole
  stream and its index is the specified one: under each key the at most 64 most recent end positions of
  4-grams with that key, in ascending order, and no entry for a key that does not occur.
\<close>

theorem suffix_index_exact:
  "t (foldl append_tok (reset_draft prompt) toks) = prompt @ toks \<and>
   idx (foldl append_tok (reset_draft prompt) toks) = index_of (prompt @ toks)"
  by (simp add: suffix_index_aux)

section \<open>The proposer\<close>

text \<open>The last \<open>m\<close> tokens of \<open>S\<close> also stand at the \<open>m\<close> positions that end with \<open>p\<close>.\<close>

definition echoes :: "int list \<Rightarrow> nat \<Rightarrow> nat \<Rightarrow> bool" where
  "echoes S p m \<longleftrightarrow>
     p + 1 < length S \<and> m \<le> p + 1 \<and> take m (drop (p + 1 - m) S) = drop (length S - m) S"

text \<open>The same said position by position, as the loops of the code test it.\<close>

definition echo_upto :: "suffix_draft \<Rightarrow> int \<Rightarrow> nat \<Rightarrow> nat \<Rightarrow> bool" where
  "echo_upto d pending p m \<longleftrightarrow>
     p < length (t d) \<and> m \<le> p + 1 \<and> (\<forall>j<m. t d ! (p - j) = stream_at d pending (length (t d) - j))"

lemma stream_at_nth: "i \<le> length (t d) \<Longrightarrow> stream_at d pending i = (t d @ [pending]) ! i"
  by (auto simp: stream_at_def nth_append)

lemma all_reversed: "(\<forall>i<m. P i) \<longleftrightarrow> (\<forall>j<m. P (m - 1 - j))" for m :: nat
proof
  assume r: "\<forall>j<m. P (m - 1 - j)"
  have "P i" if "i < m" for i
    using r [rule_format, of "m - 1 - i"] that by simp
  then show "\<forall>i<m. P i" by blast
qed simp

lemma window_eq:
  "a + m \<le> length S \<Longrightarrow> take m (drop a S) = drop (length S - m) S \<longleftrightarrow> (\<forall>i<m. S ! (a + i) = S ! (length S - m + i))"
  by (auto simp: list_eq_iff_nth_eq)

lemma echo_upto_iff: 
  "echo_upto d pending p m \<longleftrightarrow> echoes (t d @ [pending]) p m"
proof -
  let ?S = "t d @ [pending]"
  have "take m (drop (p + 1 - m) ?S) = drop (length ?S - m) ?S \<longleftrightarrow>
      (\<forall>j<m. t d ! (p - j) = stream_at d pending (length (t d) - j))"
    if b: "p < length (t d)" "m \<le> p + 1"
  proof -
    have "take m (drop (p + 1 - m) ?S) = drop (length ?S - m) ?S \<longleftrightarrow>
        (\<forall>i<m. ?S ! (p + 1 - m + i) = ?S ! (length ?S - m + i))"
      using b by (intro window_eq) simp
    also have "\<dots> \<longleftrightarrow> (\<forall>j<m. ?S ! (p + 1 - m + (m - 1 - j)) = ?S ! (length ?S - m + (m - 1 - j)))"
      by (rule all_reversed)
    also have "\<dots> \<longleftrightarrow> (\<forall>j<m. ?S ! (p - j) = ?S ! (length (t d) - j))"
      using b by (intro all_cong arg_cong2 [where f = "(=)"] arg_cong [where f = "(!) ?S"]) auto
    also have "\<dots> \<longleftrightarrow> (\<forall>j<m. t d ! (p - j) = stream_at d pending (length (t d) - j))"
      using b by (intro all_cong) (auto simp: stream_at_nth nth_append)
    finally show ?thesis .
  qed
  then show ?thesis unfolding echo_upto_def echoes_def by auto
qed

lemma extend_match_upto: "echo_upto d pending p m \<Longrightarrow> m \<le> MAXEXT \<Longrightarrow>
  m \<le> extend_match d pending p m \<and> extend_match d pending p m \<le> MAXEXT \<and> echo_upto d pending p (extend_match d pending p m)"
proof (induction d pending p m rule: extend_match.induct)
  case (1 d pending p m)
  show ?case
  proof (cases "m < MAXEXT \<and> m \<le> p \<and> m \<le> length (t d) \<and> t d ! (p - m) = stream_at d pending (length (t d) - m)")
    case True
    then have "echo_upto d pending p (m + 1)" using 1(2) by (auto simp: echo_upto_def less_Suc_eq)
    with 1(1) [OF True] True show ?thesis by (subst (1 2 3) extend_match.simps) auto
  qed (use 1 in \<open>auto simp: extend_match.simps [of d pending p m]\<close>)
qed

lemma extend_match_max: "echo_upto d pending p l \<Longrightarrow> l \<le> MAXEXT \<Longrightarrow> m \<le> l \<Longrightarrow> l \<le> extend_match d pending p m"
proof (induction d pending p m rule: extend_match.induct)
  case (1 d pending p m)
  show ?case
  proof (cases "m = l")
    case True
    then show ?thesis
      using extend_match_upto [of d pending p l] 1 by simp
  next
    case False
    then have "m < MAXEXT \<and> m \<le> p \<and> m \<le> length (t d) \<and> t d ! (p - m) = stream_at d pending (length (t d) - m)"
      using 1(2-) by (auto simp: echo_upto_def)
    with 1 False show ?thesis by (subst extend_match.simps) auto
  qed
qed

lemma key_matches_upto: "p < length (t d) \<Longrightarrow> NG \<le> p + 1 \<Longrightarrow> key_matches d pending p \<longleftrightarrow> echo_upto d pending p NG"
  by (auto simp: key_matches_def echo_upto_def list_all_iff)

lemma echo_upto_mono: "echo_upto d pending p l \<Longrightarrow> m \<le> l \<Longrightarrow> echo_upto d pending p m"
  unfolding echo_upto_def by force

lemma best_occurrence_spec:
  assumes "best_occurrence d pending ps (bm, bp) = (m, r)" "list_all (\<lambda>p. NG \<le> p + 1) ps"
    "case bp of None \<Rightarrow> bm = 0 | Some p \<Rightarrow> echo_upto d pending p bm \<and> NG \<le> bm \<and> bm \<le> MAXEXT"
  shows "(case r of None \<Rightarrow> m = 0 \<and> bp = None | Some p \<Rightarrow> echo_upto d pending p m \<and> NG \<le> m \<and> m \<le> MAXEXT) \<and> bm \<le> m \<and>
    list_all (\<lambda>p. \<forall>l. NG \<le> l \<and> l \<le> MAXEXT \<and> echo_upto d pending p l \<longrightarrow> l \<le> m) ps"
  using assms
proof (induction ps arbitrary: bm bp)
  case (Cons p ps)
  show ?case
  proof (cases "p < length (t d) \<and> key_matches d pending p")
    case False
    then have "\<not> echo_upto d pending p NG"
      using Cons.prems(2) key_matches_upto [of p d pending] by (auto simp: echo_upto_def)
    then have "\<not> echo_upto d pending p l" if "NG \<le> l" for l
      using that echo_upto_mono by blast
    with Cons.IH [of bm bp] Cons.prems False show ?thesis by (auto split: if_splits)
  next
    case True
    let ?m = "extend_match d pending p NG"
    have e: "NG \<le> ?m" "?m \<le> MAXEXT" "echo_upto d pending p ?m"
      using extend_match_upto [of d pending p NG] key_matches_upto [of p d pending] True Cons.prems(2)
      by (auto simp: NG_def MAXEXT_def)
    have mx: "l \<le> ?m" if "NG \<le> l" "l \<le> MAXEXT" "echo_upto d pending p l" for l
      using extend_match_max that by blast
    show ?thesis
    proof (cases "?m \<ge> bm")
      case ge: True
      have "(case r of None \<Rightarrow> m = 0 \<and> Some p = None | Some p \<Rightarrow> echo_upto d pending p m \<and> NG \<le> m \<and> m \<le> MAXEXT) \<and> ?m \<le> m \<and>
          list_all (\<lambda>p. \<forall>l. NG \<le> l \<and> l \<le> MAXEXT \<and> echo_upto d pending p l \<longrightarrow> l \<le> m) ps"
        using Cons.IH [of ?m "Some p"] Cons.prems True ge e by (simp add: Let_def)
      moreover from this have "l \<le> m" if "NG \<le> l" "l \<le> MAXEXT" "echo_upto d pending p l" for l
        using mx [OF that] by linarith
      ultimately show ?thesis using ge by (cases r) auto
    next
      case lt: False
      have "(case r of None \<Rightarrow> m = 0 \<and> bp = None | Some p \<Rightarrow> echo_upto d pending p m \<and> NG \<le> m \<and> m \<le> MAXEXT) \<and> bm \<le> m \<and>
          list_all (\<lambda>p. \<forall>l. NG \<le> l \<and> l \<le> MAXEXT \<and> echo_upto d pending p l \<longrightarrow> l \<le> m) ps"
        using Cons.IH [of bm bp] Cons.prems True lt by (simp add: Let_def)
      moreover from this have "l \<le> m" if "NG \<le> l" "l \<le> MAXEXT" "echo_upto d pending p l" for l
        using mx [OF that] lt by linarith
      ultimately show ?thesis by simp
    qed
  qed
qed (auto split: option.splits)

lemma fill_out_spec:
  assumes "p < length (t d)"
    "\<forall>i<length out. (t d @ [pending] @ out) ! (length (t d) + 1 + i) = (t d @ [pending] @ out) ! (p + 1 + i)"
    "res = fill_out d pending p k out"
  shows "length res = length out + k \<and>
    (\<forall>i<length res. (t d @ [pending] @ res) ! (length (t d) + 1 + i) = (t d @ [pending] @ res) ! (p + 1 + i))"
  using assms
proof (induction k arbitrary: out)
  case (Suc k)
  let ?n = "length (t d)" and ?src = "p + 1 + length out"
  define x where "x = (if ?src < ?n + 1 then stream_at d pending ?src else out ! (?src - (?n + 1)))"
  let ?S = "t d @ [pending] @ out"
  have x: "x = ?S ! ?src"
    using Suc.prems(1) by (auto simp: stream_at_def nth_append nth_Cons' x_def)
  have res: "res = fill_out d pending p k (out @ [x])"
    using Suc.prems(3) by (simp only: fill_out.simps Let_def x_def)
  have "(t d @ [pending] @ out @ [x]) ! (?n + 1 + i) = (t d @ [pending] @ out @ [x]) ! (p + 1 + i)"
    if "i < length (out @ [x])" for i
  proof (cases "i < length out")
    case True
    have "(?S @ [x]) ! (?n + 1 + i) = ?S ! (?n + 1 + i)" "(?S @ [x]) ! (p + 1 + i) = ?S ! (p + 1 + i)"
      using True Suc.prems(1) by (subst nth_append, simp)+
    with Suc.prems(2) True show ?thesis by (simp del: nth_append_length_plus)
  next
    case False
    with that have i: "i = length out" by simp
    have "(?S @ [x]) ! (?n + 1 + i) = x" by (simp add: i nth_append)
    moreover have "(?S @ [x]) ! (p + 1 + i) = ?S ! ?src" using Suc.prems(1) unfolding i by (subst nth_append) simp
    ultimately show ?thesis using x by simp
  qed
  then show ?case using Suc.IH [OF Suc.prems(1) _ res] by simp
qed simp

lemma recent_subset: "set (recent v) \<subseteq> set v"
  by (auto simp: recent_def dest: in_set_dropD)

lemma last_gram: "NG \<le> length S \<Longrightarrow> S = t d @ [pending] \<Longrightarrow>
  map (\<lambda>j. stream_at d pending (length (t d) + 1 - NG + j)) [0..<NG] = drop (length S - NG) S"
  by (rule nth_equalityI) (auto simp: stream_at_def nth_append NG_def)

lemma occurrencesD: "p \<in> set (occurrences xs key) \<Longrightarrow> p < length xs \<and> NG \<le> p + 1"
  by (auto simp: occurrences_def NG_def)

text \<open>
  C28: a proposal is a genuine echo and the longest one the index knows.  For the stream with the
  pending token, a match length above zero comes with an earlier position at which the last \<open>m\<close> tokens
  also occur, and the \<open>k\<close> proposed tokens continue the stream exactly as the tokens after that
  position continue it (reading its own output where the copy overlaps the end).  No occurrence kept
  in the index for the last four tokens echoes more, up to the cap of 256; and a result of zero means
  that none of them echoes four tokens at all.
\<close>

theorem propose_longest_echo:
  assumes "d = foldl append_tok (reset_draft prompt) toks" "S = prompt @ toks @ [pending]" "NG \<le> length S"
  shows "case propose_with d pending k of (m, out) \<Rightarrow>
      (m = 0 \<longrightarrow> out = []) \<and>
      (0 < m \<longrightarrow> NG \<le> m \<and> m \<le> MAXEXT \<and> length out = k \<and>
         (\<exists>p. echoes S p m \<and> (\<forall>i<k. (S @ out) ! (length S + i) = (S @ out) ! (p + 1 + i)))) \<and>
      list_all (\<lambda>p. \<forall>l. NG \<le> l \<and> l \<le> MAXEXT \<and> echoes S p l \<longrightarrow> l \<le> m)
        (recent (occurrences (prompt @ toks) (key4 (drop (length S - NG) S))))"
proof -
  have d: "t d = prompt @ toks" "idx d = index_of (prompt @ toks)"
    using suffix_index_aux [of prompt toks] assms(1) by simp_all
  have S: "S = t d @ [pending]" using assms(2) d(1) by simp
  let ?key = "key4 (drop (length S - NG) S)"
  let ?occ = "occurrences (prompt @ toks) ?key"
  have find: "idx d (key4 (map (\<lambda>j. stream_at d pending (length (t d) + 1 - NG + j)) [0..<NG])) = index_of (prompt @ toks) ?key"
    by (simp only: last_gram [OF assms(3) S] d(2))
  have long: "\<not> length (t d) < NG - 1" using assms(3) S by (simp add: NG_def)
  show ?thesis
  proof (cases "?occ = []")
    case True
    then have "propose_with d pending k = (0, [])"
      unfolding propose_with_def Let_def find using long by (simp add: index_of_def)
    then show ?thesis using True by (simp add: recent_def)
  next
    case False
    obtain m r where best: "best_occurrence d pending (recent ?occ) (0, None) = (m, r)" by force
    have "list_all (\<lambda>p. NG \<le> p + 1) (recent ?occ)"
      using occurrencesD recent_subset by (fastforce simp: list_all_iff)
    from best_occurrence_spec [OF best this] have spec:
      "case r of None \<Rightarrow> m = 0 | Some p \<Rightarrow> echoes S p m \<and> NG \<le> m \<and> m \<le> MAXEXT"
      "list_all (\<lambda>p. \<forall>l. NG \<le> l \<and> l \<le> MAXEXT \<and> echoes S p l \<longrightarrow> l \<le> m) (recent ?occ)"
      by (simp_all add: echo_upto_iff S split: option.splits)
    have out: "propose_with d pending k = (case r of None \<Rightarrow> (0, []) | Some p \<Rightarrow> (m, fill_out d pending p k []))"
      unfolding propose_with_def Let_def find using long False best
      by (simp add: index_of_def split: option.splits)
    show ?thesis
    proof (cases r)
      case (Some p)
      then have e: "echoes S p m" and p: "p < length (t d)" using spec(1) by (auto simp: echoes_def S)
      have "length (fill_out d pending p k []) = k \<and>
          (\<forall>i<k. (S @ fill_out d pending p k []) ! (length S + i) = (S @ fill_out d pending p k []) ! (p + 1 + i))"
        using fill_out_spec [OF p, of "[]" pending "fill_out d pending p k []" k] by (simp add: S)
      with e show ?thesis using out Some spec by (auto simp: NG_def)
    qed (use out spec in auto)
  qed
qed

theorem propose_longest_echo_witness:
  "propose_with (foldl append_tok (reset_draft [1, 2, 3, 4, 5]) [1, 2, 3]) 4 6 = (4, [5, 1, 2, 3, 4, 5]) \<and>
   (\<exists>p. echoes [1, 2, 3, 4, 5, 1, 2, 3, 4] p 4)"
proof -
  have h: "propose_with (foldl append_tok (reset_draft [1, 2, 3, 4, 5]) [1, 2, 3]) 4 6 = (4, [5, 1, 2, 3, 4, 5])"
    by code_simp
  show ?thesis
    using propose_longest_echo [OF refl refl, of "[1, 2, 3, 4, 5]" "[1, 2, 3]" 4 6] h by (auto simp: NG_def)
qed

end
