(* ===== verification/Depth_Ctl.thy ===== *)
theory Depth_Ctl
  imports Q27_Prelude Complex_Main
begin

text \<open>
  The adaptive draft-depth controller of \<^verbatim>\<open>src/src/depthctl.h\<close>.  The controller computes
  exponential averages in single precision; the model is generic in the float type and takes the
  operations the code uses as a record, so that nothing about rounding is assumed.  The arrays of
  eight levels are lists, and the level counters are naturals.
\<close>

section \<open>Model\<close>

record 'f float_ops =
  f_zero :: 'f
  f_one :: 'f
  f_two :: 'f
  f_add :: "'f \<Rightarrow> 'f \<Rightarrow> 'f"
  f_sub :: "'f \<Rightarrow> 'f \<Rightarrow> 'f"
  f_mul :: "'f \<Rightarrow> 'f \<Rightarrow> 'f"
  f_less :: "'f \<Rightarrow> 'f \<Rightarrow> bool"
  f_geq :: "'f \<Rightarrow> 'f \<Rightarrow> bool"

text \<open>The tunables, which \<open>reset\<close> keeps, and the learned state.\<close>

record 'f depth_cfg =
  k_min :: int
  k_max :: int
  ema_a :: 'f
  hi :: 'f
  hi6 :: 'f
  hi7 :: 'f
  lo :: 'f
  flo6 :: 'f
  flo7 :: 'f

record 'f depth_ctl =
  dcfg :: "'f depth_cfg"
  cur :: int
  sat :: "'f list"
  yld :: "'f list"
  fired_ema :: 'f
  rounds :: "nat list"
  promotes :: nat
  demotes :: nat

definition entry_bar :: "'f float_ops \<Rightarrow> 'f \<Rightarrow> 'f" where
  "entry_bar F x = (if f_less F (f_one F) (f_mul F (f_two F) x) then f_one F else f_mul F (f_two F) x)"

definition enter :: "'f float_ops \<Rightarrow> 'f depth_ctl \<Rightarrow> int \<Rightarrow> 'f depth_ctl" where
  "enter F d k =
     (let d1 = d\<lparr>sat := (sat d)[nat k := f_zero F], yld := (yld d)[nat k := entry_bar F (lo (dcfg d))]\<rparr>
      in if k \<ge> 6 then d1\<lparr>fired_ema := entry_bar F (if k = 6 then flo6 (dcfg d) else flo7 (dcfg d))\<rparr> else d1)"

definition reset_ctl :: "'f float_ops \<Rightarrow> 'f depth_ctl \<Rightarrow> 'f depth_ctl" where
  "reset_ctl F d =
     (let d1 = d\<lparr>cur := k_min (dcfg d), sat := replicate 8 (f_zero F), yld := replicate 8 (f_one F),
                 rounds := replicate 8 0, fired_ema := f_zero F, promotes := 0, demotes := 0\<rparr>
      in enter F d1 (cur d1))"

definition ema :: "'f float_ops \<Rightarrow> 'f depth_ctl \<Rightarrow> 'f \<Rightarrow> 'f \<Rightarrow> 'f" where
  "ema F d x hit = f_add F x (f_mul F (ema_a (dcfg d)) (f_sub F hit x))"

definition promote :: "'f float_ops \<Rightarrow> 'f depth_ctl \<Rightarrow> int \<Rightarrow> 'f depth_ctl" where
  "promote F d md = (let d1 = enter F (d\<lparr>cur := md + 1\<rparr>) (md + 1) in d1\<lparr>promotes := promotes d1 + 1\<rparr>)"

definition demote :: "'f float_ops \<Rightarrow> 'f depth_ctl \<Rightarrow> int \<Rightarrow> 'f depth_ctl" where
  "demote F d md = (let d1 = enter F (d\<lparr>cur := md - 1\<rparr>) (md - 1) in d1\<lparr>demotes := demotes d1 + 1\<rparr>)"

definition yield_step :: "'f float_ops \<Rightarrow> 'f depth_ctl \<Rightarrow> int \<Rightarrow> int \<Rightarrow> 'f \<Rightarrow> 'f depth_ctl" where
  "yield_step F d md cap hit =
     (if md > k_min (dcfg d) \<and> cap \<ge> md then
        let d1 = d\<lparr>yld := (yld d)[nat md := ema F d (yld d ! nat md) hit]\<rparr>
        in if f_less F (yld d1 ! nat md) (lo (dcfg d)) then demote F d1 md else d1
      else d)"

definition update :: "'f float_ops \<Rightarrow> 'f depth_ctl \<Rightarrow> int \<Rightarrow> int \<Rightarrow> int \<Rightarrow> 'f depth_ctl" where
  "update F d md0 cap n =
     (if md0 < 0 then d
      else
        let md = (if md0 > 7 then 7 else md0);
            hit = (if n \<ge> md + 1 then f_one F else f_zero F);
            d1 = d\<lparr>rounds := (rounds d)[nat md := rounds d ! nat md + 1],
                   sat := (sat d)[nat md := ema F d (sat d ! nat md) hit]\<rparr>;
            c = dcfg d
        in if md < k_max c \<and> f_geq F (sat d1 ! nat md) (if md \<ge> 6 then hi7 c else if md \<ge> 5 then hi6 c else hi c)
           then promote F d1 md
           else if md \<ge> 6 then
             let d2 = d1\<lparr>fired_ema := ema F d1 (fired_ema d1) (if cap \<ge> md then f_one F else f_zero F)\<rparr>
             in if f_less F (fired_ema d2) (if md = 6 then flo6 c else flo7 c) then demote F d2 md
                else yield_step F d2 md cap hit
           else yield_step F d1 md cap hit)"

text \<open>
  The rounds of the engine: a gated round drafts under the live ceiling; a suffix round counts only
  when it committed past the ceiling; a round that is neither passes a negative ceiling.
\<close>

datatype depth_round = Gated int int | Suffix_Round int | Ungated

definition depth_step :: "'f float_ops \<Rightarrow> 'f depth_ctl \<Rightarrow> depth_round \<Rightarrow> 'f depth_ctl" where
  "depth_step F d r =
     (case r of
        Gated cap n \<Rightarrow> update F d (cur d) cap n
      | Suffix_Round n \<Rightarrow> if n \<ge> cur d + 1 then update F d (cur d) (cur d) n else d
      | Ungated \<Rightarrow> update F d (- 1) 0 0)"

section \<open>Invariant\<close>

definition cfg_ok :: "'f depth_cfg \<Rightarrow> bool" where
  "cfg_ok c \<longleftrightarrow> 0 \<le> k_min c \<and> k_min c \<le> 5 \<and> k_min c \<le> k_max c \<and> k_max c \<le> 7"

definition ctl_ok :: "'f depth_ctl \<Rightarrow> bool" where
  "ctl_ok d \<longleftrightarrow> cfg_ok (dcfg d) \<and> k_min (dcfg d) \<le> cur d \<and> cur d \<le> k_max (dcfg d) \<and>
     length (sat d) = 8 \<and> length (yld d) = 8 \<and> length (rounds d) = 8 \<and>
     cur d = k_min (dcfg d) + int (promotes d) - int (demotes d)"

lemma enter_frame [simp]:
  "dcfg (enter F d k) = dcfg d" "cur (enter F d k) = cur d" "rounds (enter F d k) = rounds d"
  "promotes (enter F d k) = promotes d" "demotes (enter F d k) = demotes d"
  "length (sat (enter F d k)) = length (sat d)" "length (yld (enter F d k)) = length (yld d)"
  by (simp_all add: enter_def Let_def)

lemma promote_demote_simps [simp]:
  "dcfg (promote F d md) = dcfg d" "cur (promote F d md) = md + 1" "rounds (promote F d md) = rounds d"
  "promotes (promote F d md) = promotes d + 1" "demotes (promote F d md) = demotes d"
  "length (sat (promote F d md)) = length (sat d)" "length (yld (promote F d md)) = length (yld d)"
  "dcfg (demote F d md) = dcfg d" "cur (demote F d md) = md - 1" "rounds (demote F d md) = rounds d"
  "promotes (demote F d md) = promotes d" "demotes (demote F d md) = demotes d + 1"
  "length (sat (demote F d md)) = length (sat d)" "length (yld (demote F d md)) = length (yld d)"
  by (simp_all add: promote_def demote_def Let_def)

lemma yield_step_ok:
  assumes "ctl_ok d" "cur d = md"
  shows "ctl_ok (yield_step F d md cap hit)"
  using assms by (auto simp: yield_step_def ctl_ok_def Let_def)

lemma yield_step_frame [simp]:
  "dcfg (yield_step F d md cap hit) = dcfg d" "rounds (yield_step F d md cap hit) = rounds d"
  by (simp_all add: yield_step_def Let_def)

lemma promote_ok: "ctl_ok d \<Longrightarrow> cur d = md \<Longrightarrow> md < k_max (dcfg d) \<Longrightarrow> ctl_ok (promote F d md)"
  by (simp add: ctl_ok_def)

lemma demote_ok: "ctl_ok d \<Longrightarrow> cur d = md \<Longrightarrow> 6 \<le> md \<Longrightarrow> ctl_ok (demote F d md)"
  by (simp add: ctl_ok_def cfg_ok_def)

lemma ctl_ok_update:
  "ctl_ok (d\<lparr>fired_ema := x\<rparr>) = ctl_ok d"
  "ctl_ok (d\<lparr>rounds := (rounds d)[i := r], sat := (sat d)[j := y]\<rparr>) = ctl_ok d"
  by (simp_all add: ctl_ok_def)

lemma update_ok: "ctl_ok d \<Longrightarrow> ctl_ok (update F d (cur d) cap n)"
proof -
  assume ok: "ctl_ok d"
  then have md: "(if cur d > 7 then 7 else cur d) = cur d" "\<not> cur d < 0"
    by (auto simp: ctl_ok_def cfg_ok_def)
  show ?thesis
    unfolding update_def Let_def md(1) using md(2) ok
    by (simp add: promote_ok demote_ok yield_step_ok ctl_ok_update)
qed

lemma update_ungated: "md < 0 \<Longrightarrow> update F d md cap n = d"
  by (simp add: update_def)

lemma depth_step_ok: "ctl_ok d \<Longrightarrow> ctl_ok (depth_step F d r)"
  by (simp add: depth_step_def update_ok update_ungated split: depth_round.split)

lemma depth_steps_ok: "ctl_ok d \<Longrightarrow> ctl_ok (foldl (depth_step F) d rs)"
  by (induction rs arbitrary: d) (simp_all add: depth_step_ok)

lemma reset_ok: "cfg_ok (dcfg d) \<Longrightarrow> ctl_ok (reset_ctl F d)"
  by (simp add: reset_ctl_def ctl_ok_def cfg_ok_def Let_def)

lemma update_frame: "dcfg (update F d md cap n) = dcfg d"
  by (simp add: update_def Let_def)

lemma depth_steps_frame: "dcfg (foldl (depth_step F) d rs) = dcfg d"
  by (induction rs arbitrary: d) (simp_all add: depth_step_def update_frame split: depth_round.split)

lemma yield_step_cur: "cur d = md \<Longrightarrow> \<bar>cur (yield_step F d md cap hit) - md\<bar> \<le> 1"
  by (simp add: yield_step_def Let_def)

lemma update_cur:
  assumes "ctl_ok d"
  shows "\<bar>cur (update F d (cur d) cap n) - cur d\<bar> \<le> 1"
proof -
  from assms have md: "(if cur d > 7 then 7 else cur d) = cur d" "\<not> cur d < 0"
    by (auto simp: ctl_ok_def cfg_ok_def)
  show ?thesis
    unfolding update_def Let_def md(1) using md(2) by (simp add: yield_step_cur)
qed

lemma depth_step_cur: "ctl_ok d \<Longrightarrow> \<bar>cur (depth_step F d r) - cur d\<bar> \<le> 1"
  by (simp add: depth_step_def update_cur update_ungated split: depth_round.split)

lemma reset_frame: "dcfg (reset_ctl F d) = dcfg d"
  by (simp add: reset_ctl_def Let_def)

section \<open>Properties\<close>

text \<open>
  C29: for any floating-point arithmetic whatsoever, after a reset and any sequence of rounds the
  ceiling stays on the ladder between \<open>k_min\<close> and \<open>k_max\<close>, a round moves it by at most one level, the
  array accesses are in range, and the ceiling is exactly \<open>k_min\<close> plus the promotions less the
  demotions.
\<close>

theorem depth_ladder_invariant:
  assumes "cfg_ok (dcfg d0)" "d = foldl (depth_step F) (reset_ctl F d0) rs"
  shows "k_min (dcfg d0) \<le> cur d \<and> cur d \<le> k_max (dcfg d0) \<and> 0 \<le> cur d \<and> cur d < int (length (sat d)) \<and>
    length (yld d) = length (sat d) \<and> length (rounds d) = length (sat d) \<and>
    cur d = k_min (dcfg d0) + int (promotes d) - int (demotes d) \<and>
    \<bar>cur (depth_step F d r) - cur d\<bar> \<le> 1"
proof -
  have ok: "ctl_ok d" unfolding assms(2) by (intro depth_steps_ok reset_ok assms(1))
  have "dcfg d = dcfg d0" by (simp add: assms(2) depth_steps_frame reset_frame)
  with ok depth_step_cur [OF ok, of F r] show ?thesis by (simp add: ctl_ok_def cfg_ok_def)
qed

text \<open>Rational arithmetic as one instance of the operations, and the default tunables.\<close>

definition rat_ops :: "rat float_ops" where
  "rat_ops = \<lparr>f_zero = 0, f_one = 1, f_two = 2, f_add = (+), f_sub = (-), f_mul = (*), f_less = (<), f_geq = (\<ge>)\<rparr>"

definition demo_ctl :: "rat depth_ctl" where
  "demo_ctl = \<lparr>dcfg = \<lparr>k_min = 4, k_max = 6, ema_a = 1 / 2, hi = 1 / 2, hi6 = 3 / 5, hi7 = 3 / 5, lo = 7 / 20,
      flo6 = 9 / 20, flo7 = 9 / 20\<rparr>, cur = 6, sat = [], yld = [], fired_ema = 0, rounds = [], promotes = 9, demotes = 2\<rparr>"

theorem depth_ladder_invariant_witness:
  "cfg_ok (dcfg demo_ctl) \<and>
   cur (foldl (depth_step rat_ops) (reset_ctl rat_ops demo_ctl) [Gated 4 5]) = 5 \<and>
   \<bar>cur (depth_step rat_ops (foldl (depth_step rat_ops) (reset_ctl rat_ops demo_ctl) [Gated 4 5]) (Gated 5 1)) -
    cur (foldl (depth_step rat_ops) (reset_ctl rat_ops demo_ctl) [Gated 4 5])\<bar> \<le> 1"
proof -
  have h: "cfg_ok (dcfg demo_ctl)"
    "cur (foldl (depth_step rat_ops) (reset_ctl rat_ops demo_ctl) [Gated 4 5]) = 5"
    by code_simp+
  show ?thesis using h depth_ladder_invariant [OF h(1) refl, of rat_ops "[Gated 4 5]" "Gated 5 1"] by blast
qed

text \<open>
  A reset isolates requests.  Two controllers with the same tunables, whatever they learned
  before, go through the same states after a reset on the same rounds.
\<close>

theorem depth_reset_isolates:
  assumes "dcfg d1 = dcfg d2"
  shows "foldl (depth_step F) (reset_ctl F d1) rs = foldl (depth_step F) (reset_ctl F d2) rs"
proof -
  have "reset_ctl F d1 = reset_ctl F d2"
    using assms by (simp add: reset_ctl_def enter_def Let_def)
  then show ?thesis by simp
qed

theorem depth_reset_isolates_witness:
  "dcfg demo_ctl = dcfg (demo_ctl\<lparr>cur := 5, promotes := 3\<rparr>) \<and>
   foldl (depth_step rat_ops) (reset_ctl rat_ops demo_ctl) [Gated 4 5, Ungated] =
   foldl (depth_step rat_ops) (reset_ctl rat_ops (demo_ctl\<lparr>cur := 5, promotes := 3\<rparr>)) [Gated 4 5, Ungated]"
proof -
  have h: "dcfg demo_ctl = dcfg (demo_ctl\<lparr>cur := 5, promotes := 3\<rparr>)" by simp
  show ?thesis using h depth_reset_isolates [OF h, of rat_ops "[Gated 4 5, Ungated]"] by blast
qed

end
