(* ===== verification/Tokenizer.thy ===== *)
theory Tokenizer
  imports Q27_Prelude Byte_Codec Utf8_Gate Chat_Prompt
begin

text \<open>
  The byte-level BPE tokenizer of \<^verbatim>\<open>src/src/tokenizer.cpp\<close> and \<^verbatim>\<open>src/src/tokenizer.h\<close>: the GPT-2
  byte alphabet, the reader of the vocabulary file, the pretokenizer, the merge loop, encoding with
  special tokens, decoding and the chat template.  The character classification functions are those
  of the C locale.  The pretokenizer only looks forward, so it is modelled on the rest of the text;
  a loop over positions becomes a recursion that drops what it consumed.
\<close>

unbundle bit_operations_syntax

section \<open>The byte alphabet\<close>

definition cp_to_utf8 :: "nat \<Rightarrow> string" where
  "cp_to_utf8 cp =
     (if cp < 0x80 then [char_of cp]
      else if cp < 0x800 then [char_of (0xC0 OR drop_bit 6 cp), char_of (0x80 OR (cp AND 0x3F))]
      else [char_of (0xE0 OR drop_bit 12 cp), char_of (0x80 OR (drop_bit 6 cp AND 0x3F)), char_of (0x80 OR (cp AND 0x3F))])"

definition direct :: "nat \<Rightarrow> bool" where
  "direct b \<longleftrightarrow> (b \<ge> 0x21 \<and> b \<le> 0x7E) \<or> (b \<ge> 0xA1 \<and> b \<le> 0xAC) \<or> b \<ge> 0xAE"

fun byte_cps :: "nat \<Rightarrow> nat list \<Rightarrow> nat list" where
  "byte_cps k [] = []"
| "byte_cps k (b # bs) = (if direct b then b # byte_cps k bs else (256 + k) # byte_cps (k + 1) bs)"

definition b2u_table :: "string list" where
  "b2u_table = map cp_to_utf8 (byte_cps 0 [0..<256])"

definition b2u :: "char \<Rightarrow> string" where
  "b2u c = b2u_table ! of_char c"

definition u2b :: "string \<Rightarrow> char option" where
  "u2b s = map_option char_of (map_of (rev (zip b2u_table [0..<256 :: nat])) s)"

definition utf8_len :: "char \<Rightarrow> nat" where
  "utf8_len c =
     (if (of_char c :: nat) AND 0xE0 = 0xC0 then 2
      else if (of_char c :: nat) AND 0xF0 = 0xE0 then 3
      else if (of_char c :: nat) AND 0xF8 = 0xF0 then 4 else 1)"

function utf8_chars :: "string \<Rightarrow> string list" where
  "utf8_chars [] = []"
| "utf8_chars (c # s) = take (utf8_len c) (c # s) # utf8_chars (drop (utf8_len c) (c # s))"
  by pat_completeness auto
termination by (relation "measure length") (auto simp: utf8_len_def)

section \<open>The vocabulary file\<close>

record tokenizer =
  tokens :: "string list"
  types :: "nat list"
  bos :: nat
  eos :: nat
  tok2id :: "string \<Rightarrow> nat option"
  merge_rank :: "string \<Rightarrow> nat option"
  specials :: "(string \<times> nat) list"

datatype tok_error = Truncated | Bad_Magic | Bad_Version | Bad_Token_Count | Special_Out_Of_Range
  | Bad_Merge_Count | Empty_Merge | Duplicate_Merge | Trailing_Data | Duplicate_Token | Empty_Control

definition MAX_TOKENS :: int where "MAX_TOKENS = 4 * 2 ^ 20"
definition MAX_MERGES :: int where "MAX_MERGES = 16 * 2 ^ 20"

text \<open>A reader is the list of the bytes that are left; the file has as many as \<open>fstat\<close> reported.\<close>

definition tok_bytes :: "nat \<Rightarrow> bytes \<Rightarrow> tok_error + (bytes \<times> bytes)" where
  "tok_bytes n r = (if n > length r then Inl Truncated else Inr (take n r, drop n r))"

definition tok_uint :: "nat \<Rightarrow> bytes \<Rightarrow> tok_error + (int \<times> bytes)" where
  "tok_uint n r = rbind (tok_bytes n r) (\<lambda>(b, r'). Inr (le_val b, r'))"

definition tok_lp :: "bytes \<Rightarrow> tok_error + (string \<times> bytes)" where
  "tok_lp r = rbind (tok_uint 2 r) (\<lambda>(n, r1). rbind (tok_bytes (nat n) r1) (\<lambda>(b, r2). Inr (map (\<lambda>x. char_of (unat x)) b, r2)))"

fun read_tokens :: "nat \<Rightarrow> bytes \<Rightarrow> tok_error + (string list \<times> bytes)" where
  "read_tokens 0 r = Inr ([], r)"
| "read_tokens (Suc n) r =
     rbind (tok_lp r) (\<lambda>(s, r1). rbind (read_tokens n r1) (\<lambda>(ss, r2). Inr (s # ss, r2)))"

fun read_merges :: "nat \<Rightarrow> nat \<Rightarrow> bytes \<Rightarrow> (string \<Rightarrow> nat option) \<Rightarrow> tok_error + ((string \<Rightarrow> nat option) \<times> bytes)" where
  "read_merges i 0 r m = Inr (m, r)"
| "read_merges i (Suc n) r m =
     rbind (tok_lp r) (\<lambda>(s, r1).
       if s = [] then Inl Empty_Merge
       else if m s \<noteq> None then Inl Duplicate_Merge
       else read_merges (Suc i) n r1 (m(s \<mapsto> i)))"

fun index_tokens :: "nat \<Rightarrow> (string \<times> nat) list \<Rightarrow> (string \<Rightarrow> nat option) \<Rightarrow> tok_error + (string \<Rightarrow> nat option)" where
  "index_tokens i [] m = Inr m"
| "index_tokens i ((s, ty) # ts) m =
     (if m s \<noteq> None then Inl Duplicate_Token
      else if ty = 3 \<and> s = [] then Inl Empty_Control
      else index_tokens (Suc i) ts (m(s \<mapsto> i)))"

definition controls :: "string list \<Rightarrow> nat list \<Rightarrow> (string \<times> nat) list" where
  "controls toks tys = map (\<lambda>i. (toks ! i, i)) (filter (\<lambda>i. tys ! i = 3) [0..<length toks])"

definition added :: "nat list \<Rightarrow> (string \<Rightarrow> nat option) \<Rightarrow> (string \<times> nat) list" where
  "added tys m =
     concat (map (\<lambda>s. case m s of None \<Rightarrow> [] | Some i \<Rightarrow> if tys ! i \<noteq> 3 then [(s, i)] else []) [''<think>'', ''</think>''])"

text \<open>
  The specials are sorted by descending length.  \<^verbatim>\<open>std::sort\<close> leaves the order of equal lengths
  open; different strings of one length never match at the same place, so that order has no effect.
\<close>

definition longest_first :: "(string \<times> nat) list \<Rightarrow> (string \<times> nat) list" where
  "longest_first sp = rev (sort_key (\<lambda>p. length (fst p)) (rev sp))"

definition load_tokenizer :: "bytes \<Rightarrow> tok_error + tokenizer" where
  "load_tokenizer r0 =
     rbind (tok_uint 4 r0) (\<lambda>(magic, r1). rbind (tok_uint 4 r1) (\<lambda>(ver, r2).
     rbind (tok_uint 4 r2) (\<lambda>(n, r3). rbind (tok_uint 4 r3) (\<lambda>(b, r4). rbind (tok_uint 4 r4) (\<lambda>(e, r5).
       if magic \<noteq> 0x54373251 then Inl Bad_Magic
       else if ver \<noteq> 1 then Inl Bad_Version
       else if n = 0 \<or> n > MAX_TOKENS \<or> n > 2 ^ 31 - 1 \<or> n > int (length r5) div 3 then Inl Bad_Token_Count
       else if b \<ge> n \<or> e \<ge> n then Inl Special_Out_Of_Range
       else
         rbind (read_tokens (nat n) r5) (\<lambda>(toks, r6). rbind (tok_bytes (nat n) r6) (\<lambda>(tyb, r7).
         rbind (tok_uint 4 r7) (\<lambda>(nm, r8).
           if nm > MAX_MERGES \<or> nm > 2 ^ 31 - 1 \<or> nm > int (length r8) div 2 then Inl Bad_Merge_Count
           else
             rbind (read_merges 0 (nat nm) r8 Map.empty) (\<lambda>(mr, r9).
               if r9 \<noteq> [] then Inl Trailing_Data
               else
                 let tys = map unat tyb
                 in rbind (index_tokens 0 (zip toks tys) Map.empty) (\<lambda>m.
                      Inr \<lparr>tokens = toks, types = tys, bos = nat b, eos = nat e, tok2id = m, merge_rank = mr,
                           specials = longest_first (controls toks tys @ added tys m)\<rparr>))))))))))"

section \<open>Byte-pair merging\<close>

definition WORD_CAP :: nat where "WORD_CAP = 1024"

fun best_pair :: "tokenizer \<Rightarrow> string list \<Rightarrow> nat \<Rightarrow> (nat \<times> nat) option \<Rightarrow> (nat \<times> nat) option" where
  "best_pair tk (p # q # ps) i best =
     best_pair tk (q # ps) (Suc i)
       (case merge_rank tk (p @ '' '' @ q) of
          None \<Rightarrow> best
        | Some r \<Rightarrow> (case best of None \<Rightarrow> Some (r, i) | Some (b, _) \<Rightarrow> if r < b then Some (r, i) else best))"
| "best_pair tk _ i best = best"

definition merge_at :: "string list \<Rightarrow> nat \<Rightarrow> string list" where
  "merge_at parts bi = take bi parts @ (parts ! bi @ parts ! (bi + 1)) # drop (bi + 2) parts"

lemma best_pair_index: "best_pair tk parts i best = Some (r, j) \<Longrightarrow> best = Some (r, j) \<or> (i \<le> j \<and> j + 1 < i + length parts)"
  by (induction tk parts i best rule: best_pair.induct) (fastforce split: option.splits if_splits)+

function bpe_loop :: "tokenizer \<Rightarrow> string list \<Rightarrow> string list" where
  "bpe_loop tk parts =
     (case best_pair tk parts 0 None of None \<Rightarrow> parts | Some (_, bi) \<Rightarrow> bpe_loop tk (merge_at parts bi))"
  by pat_completeness auto
termination
  by (relation "measure (\<lambda>(tk, parts). length parts)") (auto simp: merge_at_def dest!: best_pair_index)

declare bpe_loop.simps [simp del]

definition part_ids :: "tokenizer \<Rightarrow> string \<Rightarrow> nat list" where
  "part_ids tk p =
     (case tok2id tk p of
        Some i \<Rightarrow> [i]
      | None \<Rightarrow> List.map_filter (tok2id tk) (utf8_chars p))"

definition bpe_small :: "tokenizer \<Rightarrow> string \<Rightarrow> nat list" where
  "bpe_small tk word = concat (map (part_ids tk) (bpe_loop tk (map b2u word)))"

function bpe_word :: "tokenizer \<Rightarrow> string \<Rightarrow> nat list" where
  "bpe_word tk word =
     (if length word > WORD_CAP then bpe_small tk (take WORD_CAP word) @ bpe_word tk (drop WORD_CAP word)
      else bpe_small tk word)"
  by pat_completeness auto
termination by (relation "measure (\<lambda>(tk, word). length word)") (auto simp: WORD_CAP_def)

declare bpe_word.simps [simp del]

section \<open>The pretokenizer\<close>

definition is_l :: "char \<Rightarrow> bool" where
  "is_l c \<longleftrightarrow> (CHR ''a'' \<le> c \<and> c \<le> CHR ''z'') \<or> (CHR ''A'' \<le> c \<and> c \<le> CHR ''Z'') \<or> (of_char c :: nat) \<ge> 0x80"

definition is_d :: "char \<Rightarrow> bool" where "is_d c \<longleftrightarrow> CHR ''0'' \<le> c \<and> c \<le> CHR ''9''"
definition is_sp :: "char \<Rightarrow> bool" where
  "is_sp c \<longleftrightarrow> c \<in> {CHR '' '', CHR 0x09, CHR 0x0A, CHR 0x0B, CHR 0x0C, CHR 0x0D}"
definition is_nl :: "char \<Rightarrow> bool" where "is_nl c \<longleftrightarrow> c \<in> {CHR 0x0D, CHR 0x0A}"

definition to_lower :: "char \<Rightarrow> char" where
  "to_lower c = (if CHR ''A'' \<le> c \<and> c \<le> CHR ''Z'' then char_of ((of_char c :: nat) + 32) else c)"

text \<open>\<open>char_at P s j\<close> is the test \<^verbatim>\<open>j < n && P(t[j])\<close> of the lambdas.\<close>

definition char_at :: "(char \<Rightarrow> bool) \<Rightarrow> string \<Rightarrow> nat \<Rightarrow> bool" where
  "char_at P s j \<longleftrightarrow> j < length s \<and> P (s ! j)"

definition contraction_len :: "string \<Rightarrow> nat option" where
  "contraction_len s =
     (if char_at (\<lambda>c. c = CHR 0x27) s 0 \<and> 1 < length s then
        let c1 = to_lower (s ! 1); c2 = (if 2 < length s then to_lower (s ! 2) else CHR 0x00)
        in if c1 \<in> {CHR ''s'', CHR ''t'', CHR ''m'', CHR ''d''} then Some 2
           else if (c1 = CHR ''r'' \<and> c2 = CHR ''e'') \<or> (c1 = CHR ''v'' \<and> c2 = CHR ''e'') \<or> (c1 = CHR ''l'' \<and> c2 = CHR ''l'')
           then Some 3 else None
      else None)"

definition run_from :: "(char \<Rightarrow> bool) \<Rightarrow> string \<Rightarrow> nat \<Rightarrow> nat" where
  "run_from P s j = j + length (takeWhile P (drop j s))"

definition letters_len :: "string \<Rightarrow> nat option" where
  "letters_len s =
     (let j = (if \<not> char_at is_nl s 0 \<and> \<not> char_at is_l s 0 \<and> \<not> char_at is_d s 0 \<and> s \<noteq> [] \<and> char_at is_l s 1 then 1 else 0)
      in if char_at is_l s j then Some (run_from is_l s j) else None)"

definition is_punct :: "char \<Rightarrow> bool" where "is_punct c \<longleftrightarrow> \<not> is_sp c \<and> \<not> is_l c \<and> \<not> is_d c"

definition punct_len :: "string \<Rightarrow> nat option" where
  "punct_len s =
     (let j = (if char_at (\<lambda>c. c = CHR '' '') s 0 \<and> char_at is_punct s 1 then 1 else 0)
      in if char_at is_punct s j then Some (run_from is_nl s (run_from is_punct s j)) else None)"

definition newline_len :: "string \<Rightarrow> nat option" where
  "newline_len s =
     (let j = run_from (\<lambda>c. is_sp c \<and> \<not> is_nl c) s 0
      in if char_at is_nl s j then Some (run_from is_nl s j) else None)"

definition space_len :: "string \<Rightarrow> nat option" where
  "space_len s =
     (if char_at is_sp s 0 then
        let k = run_from is_sp s 0 in Some (if k < length s \<and> k > 1 then k - 1 else k)
      else None)"

text \<open>One round of the loop: how many bytes the next word takes.\<close>

definition word_len :: "string \<Rightarrow> nat" where
  "word_len s =
     (case contraction_len s of Some k \<Rightarrow> k | None \<Rightarrow>
      case letters_len s of Some k \<Rightarrow> k | None \<Rightarrow>
      if char_at is_d s 0 then 1
      else case punct_len s of Some k \<Rightarrow> k | None \<Rightarrow>
           case newline_len s of Some k \<Rightarrow> k | None \<Rightarrow>
           case space_len s of Some k \<Rightarrow> k | None \<Rightarrow> 1)"

lemma run_from_bounds: "j \<le> length s \<Longrightarrow> j \<le> run_from P s j \<and> run_from P s j \<le> length s"
  using length_takeWhile_le [of P "drop j s"] by (simp add: run_from_def)

lemma run_from_at: "char_at P s j \<Longrightarrow> j < run_from P s j"
  by (simp add: char_at_def run_from_def Cons_nth_drop_Suc [symmetric])

lemma at_bound: "char_at P s j \<Longrightarrow> j < length s"
  by (simp add: char_at_def)

lemma run_from_ok: "char_at P s j \<Longrightarrow> 0 < run_from P s j \<and> run_from P s j \<le> length s"
  using run_from_at [of P s j] run_from_bounds [of j s P] at_bound [of P s j] by linarith

lemma contraction_bounds: "contraction_len s = Some k \<Longrightarrow> 0 < k \<and> k \<le> length s"
  by (auto simp: contraction_len_def Let_def split: if_splits)

lemma letters_bounds: "letters_len s = Some k \<Longrightarrow> 0 < k \<and> k \<le> length s"
  using run_from_ok by (fastforce simp: letters_len_def Let_def split: if_splits)

lemma punct_bounds: "punct_len s = Some k \<Longrightarrow> 0 < k \<and> k \<le> length s"
proof -
  assume "punct_len s = Some k"
  then obtain j where j: "char_at is_punct s j" "k = run_from is_nl s (run_from is_punct s j)"
    by (auto simp: punct_len_def Let_def split: if_splits)
  then show ?thesis
    using run_from_at [OF j(1)] run_from_bounds [of j s is_punct] run_from_bounds [of "run_from is_punct s j" s is_nl] at_bound [OF j(1)]
    by linarith
qed

lemma newline_bounds: "newline_len s = Some k \<Longrightarrow> 0 < k \<and> k \<le> length s"
  using run_from_ok by (fastforce simp: newline_len_def Let_def split: if_splits)

lemma space_bounds: "space_len s = Some k \<Longrightarrow> 0 < k \<and> k \<le> length s"
  using run_from_bounds [of 0 s is_sp]
  by (auto simp: space_len_def Let_def split: if_splits dest: run_from_at)

lemma word_len_bounds: "s \<noteq> [] \<Longrightarrow> 0 < word_len s \<and> word_len s \<le> length s"
  unfolding word_len_def
  by (auto simp: Suc_le_eq split: option.splits if_splits
      dest: contraction_bounds letters_bounds punct_bounds newline_bounds space_bounds)

function pretokenize :: "string \<Rightarrow> string list" where
  "pretokenize s = (if s = [] then [] else take (word_len s) s # pretokenize (drop (word_len s) s))"
  by pat_completeness auto
termination
proof (relation "measure length")
  fix s :: string
  assume "s \<noteq> []"
  then show "(drop (word_len s) s, s) \<in> measure length" using word_len_bounds [of s] by simp
qed simp

declare pretokenize.simps [simp del]

section \<open>Encoding and decoding\<close>

definition next_special :: "tokenizer \<Rightarrow> string \<Rightarrow> nat option" where
  "next_special tk rest = foldl (\<lambda>best (s, i). npos_min best (find_sub s rest)) None (specials tk)"

definition encode_span :: "tokenizer \<Rightarrow> string \<Rightarrow> nat list" where
  "encode_span tk w = concat (map (bpe_word tk) (pretokenize w))"

partial_function (option) encode_loop :: "tokenizer \<Rightarrow> string \<Rightarrow> nat list \<Rightarrow> nat list option" where
  "encode_loop tk rest out =
     (if rest = [] then Some out
      else case find (\<lambda>(s, i). prefix s rest) (specials tk) of
             Some (s, i) \<Rightarrow> encode_loop tk (drop (length s) rest) (out @ [i])
           | None \<Rightarrow>
               (let span_end = (case next_special tk rest of None \<Rightarrow> length rest | Some p \<Rightarrow> p)
                in encode_loop tk (drop span_end rest) (out @ encode_span tk (take span_end rest))))"

definition encode :: "tokenizer \<Rightarrow> string \<Rightarrow> nat list option" where
  "encode tk txt' = encode_loop tk txt' []"

definition decode_one :: "tokenizer \<Rightarrow> int \<Rightarrow> string" where
  "decode_one tk i =
     (if i < 0 \<or> i \<ge> int (length (tokens tk)) then ''''
      else if types tk ! nat i = 3 then ''''
      else List.map_filter u2b (utf8_chars (tokens tk ! nat i)))"

definition decode :: "tokenizer \<Rightarrow> nat list \<Rightarrow> string" where
  "decode tk ids = concat (map (\<lambda>i. decode_one tk (int i)) ids)"

definition vocab_bytes :: "tokenizer \<Rightarrow> string list" where
  "vocab_bytes tk = map (\<lambda>i. if types tk ! i \<noteq> 3 then decode_one tk (int i) else '''') [0..<length (tokens tk)]"

definition token_id :: "tokenizer \<Rightarrow> string \<Rightarrow> nat option" where
  "token_id tk s = find (\<lambda>i. tokens tk ! i = s) [0..<length (tokens tk)]"

definition chat_text :: "(string \<times> string) list \<Rightarrow> string" where
  "chat_text messages =
     concat (map (\<lambda>(role, content). ''<|im_start|>'' @ strip_ctrl role @ ''\<newline>'' @ strip_ctrl content @ ''<|im_end|>\<newline>'') messages)"

definition apply_chat_prefix :: "tokenizer \<Rightarrow> (string \<times> string) list \<Rightarrow> nat list option" where
  "apply_chat_prefix tk messages = encode tk (chat_text messages)"

definition apply_chat_template :: "tokenizer \<Rightarrow> (string \<times> string) list \<Rightarrow> bool \<Rightarrow> nat list option" where
  "apply_chat_template tk messages think =
     Option.bind (encode tk (chat_text messages @ ''<|im_start|>assistant\<newline>'')) (\<lambda>ids.
       if think then Some ids
       else Option.bind (encode tk ''\<newline>\<newline>'') (\<lambda>nn.
         case (token_id tk ''<think>'', token_id tk ''</think>'') of
           (Some t1, Some t2) \<Rightarrow> Some (ids @ [t1] @ nn @ [t2] @ nn)
         | _ \<Rightarrow> map_option (\<lambda>s. ids @ s) (encode tk ''<think>\<newline>\<newline></think>\<newline>\<newline>'')))"

section \<open>The byte alphabet is a prefix code\<close>

text \<open>The code point of a byte in closed form.\<close>

definition cp_of :: "nat \<Rightarrow> nat" where
  "cp_of b = (if direct b then b else 256 + length (filter (\<lambda>x. \<not> direct x) [0..<b]))"

lemma byte_cps_nth:
  "i < length bs \<Longrightarrow> byte_cps k bs ! i =
     (if direct (bs ! i) then bs ! i else 256 + k + length (filter (\<lambda>x. \<not> direct x) (take i bs)))"
proof (induction bs arbitrary: k i)
  case (Cons b bs)
  then show ?case by (cases i) simp_all
qed simp

lemma length_byte_cps [simp]: "length (byte_cps k bs) = length bs"
  by (induction bs arbitrary: k) simp_all



lemma b2u_cp [code]: "b2u c = cp_to_utf8 (cp_of (of_char c))"
proof -
  have "take (of_char c) [0..<256] = [0..<of_char c]"
    using take_upt [of 0 "of_char c" 256] nat_of_char_less_256 [of c] by (metis add_0 less_imp_le)
  then show ?thesis by (simp add: b2u_def b2u_table_def byte_cps_nth cp_of_def)
qed

lemma cp_of_strict: "\<not> direct a \<Longrightarrow> a < b \<Longrightarrow> length (filter (\<lambda>x. \<not> direct x) [0..<a]) < length (filter (\<lambda>x. \<not> direct x) [0..<b])"
proof -
  assume "\<not> direct a" "a < b"
  then have "[0..<b] = [0..<a] @ a # [Suc a..<b]" using upt_add_eq_append [of 0 a "b - a"] by (simp add: upt_conv_Cons)
  with \<open>\<not> direct a\<close> show ?thesis by simp
qed

lemma cp_of_inj: "a < 256 \<Longrightarrow> b < 256 \<Longrightarrow> cp_of a = cp_of b \<Longrightarrow> a = b"
  using cp_of_strict [of a b] cp_of_strict [of b a]
  by (cases a b rule: linorder_cases) (auto simp: cp_of_def split: if_splits)

lemma cp_of_range: "b < 256 \<Longrightarrow> cp_of b < 512"
  using length_filter_le [of "\<lambda>x. \<not> direct x" "[0..<b]"] by (auto simp: cp_of_def)

lemma or_tables:
  "list_all (\<lambda>m. (0x80 :: nat) OR m = 0x80 + m) [0..<64]"
  "list_all (\<lambda>m. (0xC0 :: nat) OR m = 0xC0 + m \<and> utf8_len (char_of (0xC0 + m)) = 2) [2..<8]"
  by code_simp+

lemma cp_two:
  assumes "0x80 \<le> cp" "cp < 512"
  shows "cp_to_utf8 cp = [char_of (0xC0 + cp div 64), char_of (0x80 + cp mod 64)]" "utf8_len (char_of (0xC0 + cp div 64)) = 2"
proof -
  have d: "cp div 64 < 8" "2 \<le> cp div 64" using assms by auto
  have m: "cp AND 63 = cp mod 64"
    using take_bit_eq_mask [of 6 cp] by (simp add: take_bit_eq_mod mask_eq_exp_minus_1)
  have "(0xC0 :: nat) OR cp div 64 = 0xC0 + cp div 64" "utf8_len (char_of (0xC0 + cp div 64)) = 2"
    using or_tables(2) d by (auto simp only: list_all_iff set_upt atLeastLessThan_iff)
  moreover have "(0x80 :: nat) OR cp mod 64 = 0x80 + cp mod 64"
    using or_tables(1) unfolding list_all_iff by auto
  ultimately show "cp_to_utf8 cp = [char_of (0xC0 + cp div 64), char_of (0x80 + cp mod 64)]"
      "utf8_len (char_of (0xC0 + cp div 64)) = 2"
    using assms by (simp_all add: cp_to_utf8_def m drop_bit_eq_div)
qed

lemma cp_one: "cp < 0x80 \<Longrightarrow> cp_to_utf8 cp = [char_of cp] \<and> utf8_len (char_of cp) = 1"
  using and_nat_le_left [where a = cp and b = "0xE0"] and_nat_le_left [where a = cp and b = "0xF0"]
    and_nat_le_left [where a = cp and b = "0xF8"]
  by (auto simp: cp_to_utf8_def utf8_len_def of_char_of)

lemma char_of_inject: "a < 256 \<Longrightarrow> b < 256 \<Longrightarrow> (char_of a :: char) = char_of b \<longleftrightarrow> a = (b :: nat)"
  by (metis mod_less of_char_of)

lemma cp_to_utf8_inj: "a < 512 \<Longrightarrow> b < 512 \<Longrightarrow> cp_to_utf8 a = cp_to_utf8 b \<Longrightarrow> a = b"
proof -
  assume ab: "a < 512" "b < 512" "cp_to_utf8 a = cp_to_utf8 b"
  consider "a < 0x80" "b < 0x80" | "a \<ge> 0x80" "b \<ge> 0x80"
    using ab cp_one [of a] cp_one [of b] cp_two(1) [of a] cp_two(1) [of b] by fastforce
  then show "a = b"
  proof cases
    case 1
    then show ?thesis using ab(3) cp_one [of a] cp_one [of b] by (simp add: char_of_inject)
  next
    case 2
    have l: "0xC0 + x div 64 < 256" "0x80 + x mod 64 < 256" if "x < 512" for x :: nat using that by auto
    from 2 ab cp_two(1) [of a] cp_two(1) [of b] have
      "char_of (0xC0 + a div 64) = (char_of (0xC0 + b div 64) :: char)"
      "char_of (0x80 + a mod 64) = (char_of (0x80 + b mod 64) :: char)" by auto
    with l ab(1,2) have "a div 64 = b div 64" "a mod 64 = b mod 64" by (simp_all only: char_of_inject)
    then show ?thesis by (metis mult_div_mod_eq)
  qed
qed

lemma b2u_inj: "b2u c = b2u c' \<Longrightarrow> c = c'"
  using cp_to_utf8_inj cp_of_inj cp_of_range unfolding b2u_cp by (metis of_char_eq_iff nat_of_char_less_256)

lemma b2u_shape: "b2u c \<noteq> [] \<and> utf8_len (hd (b2u c)) = length (b2u c)"
  using cp_one [of "cp_of (of_char c)"] cp_two [of "cp_of (of_char c)"] cp_of_range [of "of_char c"]
  by (cases "cp_of (of_char c) < 0x80") (simp_all add: b2u_cp)

lemma b2u_table_nth: "i < 256 \<Longrightarrow> b2u_table ! i = b2u (char_of i)"
  by (simp add: b2u_def)

lemma length_b2u_table [simp]: "length b2u_table = 256"
  by (simp add: b2u_table_def)

lemma distinct_b2u_table: "distinct b2u_table"
proof -
  have "i = j" if "i < 256" "j < 256" "b2u_table ! i = b2u_table ! j" for i j
    using that b2u_inj [of "char_of i" "char_of j"] by (simp add: b2u_table_nth char_of_inject)
  then show ?thesis by (fastforce simp: distinct_conv_nth)
qed

lemma u2b_b2u [simp]: "u2b (b2u c) = Some c"
proof -
  let ?z = "zip b2u_table [0..<256 :: nat]"
  have "(b2u c, of_char c) \<in> set (rev ?z)"
    by (auto simp: in_set_zip b2u_def intro!: exI [of _ "of_char c"])
  moreover have "distinct (map fst (rev ?z))"
    using distinct_b2u_table by (simp add: rev_map [symmetric])
  ultimately have "map_of (rev ?z) (b2u c) = Some (of_char c)" by (metis map_of_is_SomeI)
  then show ?thesis by (simp add: u2b_def)
qed

lemma length_b2u: "length (b2u c) \<le> 2"
  using cp_one [of "cp_of (of_char c)"] cp_two [of "cp_of (of_char c)"] cp_of_range [of "of_char c"]
  by (cases "cp_of (of_char c) < 0x80") (simp_all add: b2u_cp)

lemma utf8_chars_b2u: "utf8_chars (b2u c @ s) = b2u c # utf8_chars s"
proof -
  obtain x xs where x: "b2u c = x # xs" "utf8_len x = length (x # xs)"
    using b2u_shape [of c] by (cases "b2u c") auto
  then show ?thesis by simp
qed

locale byte_alphabet =
  fixes enc :: "char \<Rightarrow> string" and dec :: "string \<Rightarrow> char option" and chars :: "string \<Rightarrow> string list"
  assumes dec_enc: "dec (enc c) = Some c"
    and chars_Nil: "chars [] = []"
    and chars_enc: "chars (enc c @ s) = enc c # chars s"
begin

lemma chars_word: "chars (concat (map enc w)) = map enc w"
  by (induction w) (simp_all add: chars_Nil chars_enc)

lemma decode_word: "List.map_filter dec (chars (concat (map enc w))) = w"
  unfolding chars_word by (induction w) (simp_all add: List.map_filter_simps dec_enc)

end

interpretation gpt2: byte_alphabet b2u u2b utf8_chars
  by unfold_locales (simp_all add: utf8_chars_b2u)

section \<open>The merge loop\<close>

text \<open>The rank of the pair at position \<open>i\<close>, and the reference step: merge the leftmost pair of least rank.\<close>

definition pair_rank :: "tokenizer \<Rightarrow> string list \<Rightarrow> nat \<Rightarrow> nat option" where
  "pair_rank tk parts i =
     (if i + 1 < length parts then merge_rank tk (parts ! i @ '' '' @ parts ! (i + 1)) else None)"

inductive bpe_step :: "tokenizer \<Rightarrow> string list \<Rightarrow> string list \<Rightarrow> bool" for tk where
  merge: "pair_rank tk parts i = Some r \<Longrightarrow>
    (\<And>j r'. pair_rank tk parts j = Some r' \<Longrightarrow> r < r' \<or> (r = r' \<and> i \<le> j)) \<Longrightarrow>
    bpe_step tk parts (merge_at parts i)"

inductive_cases bpe_stepE: "bpe_step tk parts parts'"

lemma pair_rank_Cons: "pair_rank tk (p # q # ps) j =
    (case j of 0 \<Rightarrow> merge_rank tk (p @ '' '' @ q) | Suc k \<Rightarrow> pair_rank tk (q # ps) k)"
  by (cases j) (simp_all add: pair_rank_def)

lemma pair_rank_short: "length parts \<le> 1 \<Longrightarrow> pair_rank tk parts j = None"
  by (simp add: pair_rank_def)

text \<open>\<open>better (r, i) x\<close>: rank and position \<open>(r, i)\<close> win against \<open>x\<close>.\<close>

definition better :: "nat \<times> nat \<Rightarrow> nat \<times> nat \<Rightarrow> bool" where
  "better a b \<longleftrightarrow> fst a < fst b \<or> (fst a = fst b \<and> snd a \<le> snd b)"

lemma best_pair_spec:
  "(\<And>b. best = Some b \<Longrightarrow> snd b < i) \<Longrightarrow>
   (case best_pair tk parts i best of
      None \<Rightarrow> best = None \<and> (\<forall>j. pair_rank tk parts j = None)
    | Some (r, k) \<Rightarrow>
        (best = Some (r, k) \<or> (i \<le> k \<and> pair_rank tk parts (k - i) = Some r)) \<and>
        (\<forall>b. best = Some b \<longrightarrow> better (r, k) b) \<and>
        (\<forall>j r'. pair_rank tk parts j = Some r' \<longrightarrow> better (r, k) (r', i + j)))"
proof (induction tk parts i best rule: best_pair.induct)
  case (1 tk p q ps i best)
  let ?best = "case merge_rank tk (p @ '' '' @ q) of None \<Rightarrow> best
      | Some r \<Rightarrow> (case best of None \<Rightarrow> Some (r, i) | Some (b, _) \<Rightarrow> if r < b then Some (r, i) else best)"
  have pos: "snd b < Suc i" if "?best = Some b" for b
    using that 1(2) by (fastforce split: option.splits if_splits)
  have new: "(best = None \<longrightarrow> ?best = map_option (\<lambda>r. (r, i)) (merge_rank tk (p @ '' '' @ q))) \<and>
      (?best = best \<or> (\<exists>r. merge_rank tk (p @ '' '' @ q) = Some r \<and> ?best = Some (r, i))) \<and>
      (\<forall>b. best = Some b \<longrightarrow> (\<exists>b'. ?best = Some b' \<and> better b' b)) \<and>
      (\<forall>r. merge_rank tk (p @ '' '' @ q) = Some r \<longrightarrow> (\<exists>b'. ?best = Some b' \<and> better b' (r, i)))"
    using 1(2) by (auto simp: better_def split: option.splits if_splits)
  define b1 where "b1 = ?best"
  note ih = 1(1) [OF pos, folded b1_def]
    and n = new [folded b1_def, THEN conjunct1] new [folded b1_def, THEN conjunct2, THEN conjunct1]
      new [folded b1_def, THEN conjunct2, THEN conjunct2, THEN conjunct1]
      new [folded b1_def, THEN conjunct2, THEN conjunct2, THEN conjunct2]
  have trans: "better a c" if "better a b" "better b c" for a b c
    using that by (auto simp: better_def)
  have unfold: "best_pair tk (p # q # ps) i best = best_pair tk (q # ps) (Suc i) b1" by (simp add: b1_def)
  show ?case
  proof (cases "best_pair tk (q # ps) (Suc i) b1")
    case None
    with ih n(1,3) show ?thesis unfolding unfold
      by (cases best) (auto simp: pair_rank_Cons split: nat.splits)
  next
    case (Some x)
    obtain r k where x: "x = (r, k)" by force
    from ih Some x have a: "b1 = Some (r, k) \<or> (Suc i \<le> k \<and> pair_rank tk (q # ps) (k - Suc i) = Some r)"
      "\<And>b. b1 = Some b \<Longrightarrow> better (r, k) b"
      "\<And>j r'. pair_rank tk (q # ps) j = Some r' \<Longrightarrow> better (r, k) (r', Suc i + j)" by auto
    have "best = Some (r, k) \<or> (i \<le> k \<and> pair_rank tk (p # q # ps) (k - i) = Some r)"
    proof (cases "b1 = Some (r, k)")
      case True
      then show ?thesis using n(2) by (auto simp: pair_rank_Cons)
    next
      case False
      then have "k - i = Suc (k - Suc i)" "pair_rank tk (q # ps) (k - Suc i) = Some r" "i \<le> k"
        using a(1) by auto
      then show ?thesis unfolding pair_rank_Cons by simp
    qed
    moreover have "better (r, k) b" if "best = Some b" for b
    proof -
      from that n(3) obtain b' where "b1 = Some b'" "better b' b" by blast
      then show ?thesis using trans [OF a(2)] by simp
    qed
    moreover have "better (r, k) (r', i + j)" if "pair_rank tk (p # q # ps) j = Some r'" for j r'
    proof (cases j)
      case 0
      then have "merge_rank tk (p @ '' '' @ q) = Some r'" using that by (simp add: pair_rank_Cons)
      then obtain b' where "b1 = Some b'" "better b' (r', i)" using n(4) by blast
      then show ?thesis using trans [OF a(2)] 0 by simp
    next
      case (Suc j')
      then show ?thesis using a(3) that by (simp add: pair_rank_Cons)
    qed
    ultimately show ?thesis using unfold Some x by simp
  qed
qed (auto simp: pair_rank_short better_def split: option.splits)

lemma best_pair_step:
  "case best_pair tk parts 0 None of
     None \<Rightarrow> \<nexists>parts'. bpe_step tk parts parts'
   | Some (r, i) \<Rightarrow> pair_rank tk parts i = Some r \<and> bpe_step tk parts (merge_at parts i)"
  using best_pair_spec [of None 0 tk parts]
  by (auto simp: better_def split: option.splits elim!: bpe_stepE intro!: bpe_step.merge)

lemma bpe_step_det: "bpe_step tk p a \<Longrightarrow> bpe_step tk p b \<Longrightarrow> a = b"
  by (elim bpe_stepE) (metis le_antisym less_asym less_irrefl)

lemma bpe_loop_steps: "(bpe_step tk)\<^sup>*\<^sup>* parts (bpe_loop tk parts) \<and> (\<nexists>p. bpe_step tk (bpe_loop tk parts) p)"
proof (induction tk parts rule: bpe_loop.induct)
  case (1 tk parts)
  show ?case
  proof (cases "best_pair tk parts 0 None")
    case None
    then show ?thesis using best_pair_step [of tk parts] by (simp add: bpe_loop.simps [of tk parts])
  next
    case (Some x)
    obtain r i where x: "x = (r, i)" by force
    have "bpe_step tk parts (merge_at parts i)" "bpe_loop tk parts = bpe_loop tk (merge_at parts i)"
      using best_pair_step [of tk parts] Some x by (simp_all add: bpe_loop.simps [of tk parts])
    with 1 [OF Some, OF x [symmetric]] show ?thesis by (auto intro: converse_rtranclp_into_rtranclp)
  qed
qed

lemma bpe_normal_unique:
  assumes "(bpe_step tk)\<^sup>*\<^sup>* parts a" "(bpe_step tk)\<^sup>*\<^sup>* parts b" "\<nexists>p. bpe_step tk a p" "\<nexists>p. bpe_step tk b p"
  shows "a = b"
  using assms
proof (induction parts rule: converse_rtranclp_induct)
  case base
  then show ?case by (metis converse_rtranclpE)
next
  case (step y z)
  then show ?case by (metis bpe_step_det converse_rtranclpE)
qed

text \<open>
  C23: the merge loop computes the byte-pair encoding of the reference semantics.  Its result is
  reached by steps that each merge the leftmost pair of least rank, no further step is possible, and
  every other sequence of such steps that cannot be continued ends in the same parts.
\<close>

theorem bpe_loop_reference:
  "(bpe_step tk)\<^sup>*\<^sup>* parts (bpe_loop tk parts) \<and> (\<nexists>p. bpe_step tk (bpe_loop tk parts) p) \<and>
   (\<forall>q. (bpe_step tk)\<^sup>*\<^sup>* parts q \<and> (\<nexists>p. bpe_step tk q p) \<longrightarrow> q = bpe_loop tk parts)"
  using bpe_loop_steps bpe_normal_unique by blast

definition demo_merges :: tokenizer where
  "demo_merges = \<lparr>tokens = [''a'', ''b'', ''ab''], types = [1, 1, 1], bos = 0, eos = 0,
     tok2id = map_of [(''a'', 0), (''b'', 1), (''ab'', 2)], merge_rank = map_of [(''a b'', 0), (''b a'', 1)], specials = []\<rparr>"

theorem bpe_loop_reference_witness:
  "bpe_loop demo_merges [''a'', ''b'', ''a'', ''b''] = [''ab'', ''ab''] \<and>
   (bpe_step demo_merges)\<^sup>*\<^sup>* [''a'', ''b'', ''a'', ''b''] [''ab'', ''ab''] \<and>
   (\<nexists>q. (bpe_step demo_merges)\<^sup>*\<^sup>* [''a'', ''b'', ''a'', ''b''] q \<and> (\<nexists>p. bpe_step demo_merges q p) \<and> q \<noteq> [''ab'', ''ab''])"
proof -
  have h: "bpe_loop demo_merges [''a'', ''b'', ''a'', ''b''] = [''ab'', ''ab'']" by code_simp
  show ?thesis using bpe_loop_reference [of demo_merges "[''a'', ''b'', ''a'', ''b'']"] unfolding h by blast
qed

end
