(* ===== verification/Tokenizer_Codec.thy ===== *)
theory Tokenizer_Codec
  imports Tokenizer
begin

text \<open>
  Correctness of the tokenizer: what a vocabulary file that loads guarantees, that the pretokenizer
  cuts the text without loss, and that decoding an encoded text gives the text back except for its
  control tokens.
\<close>

section \<open>What the loader establishes\<close>

definition tok_wf :: "tokenizer \<Rightarrow> bool" where
  "tok_wf tk \<longleftrightarrow>
     tokens tk \<noteq> [] \<and> length (types tk) = length (tokens tk) \<and> bos tk < length (tokens tk) \<and> eos tk < length (tokens tk) \<and>
     (\<forall>s i. tok2id tk s = Some i \<longleftrightarrow> i < length (tokens tk) \<and> tokens tk ! i = s) \<and>
     (\<forall>s i. (s, i) \<in> set (specials tk) \<longleftrightarrow>
        tok2id tk s = Some i \<and> (types tk ! i = 3 \<or> s = ''<think>'' \<or> s = ''</think>'')) \<and>
     (\<forall>s i. (s, i) \<in> set (specials tk) \<longrightarrow> s \<noteq> []) \<and>
     sorted_wrt (\<lambda>a b. length (fst b) \<le> length (fst a)) (specials tk)"

lemma tok_bytes_len: "tok_bytes n r = Inr (b, r') \<Longrightarrow> length b = n \<and> r = b @ r'"
  by (auto simp: tok_bytes_def split: if_splits)

lemma read_tokens_len: "read_tokens n r = Inr (ss, r') \<Longrightarrow> length ss = n"
  by (induction n arbitrary: r ss r') auto

lemma index_tokens_spec:
  assumes "index_tokens i ts m = Inr m'" "\<And>s j. m s = Some j \<longleftrightarrow> j < i \<and> pre ! j = s" "length pre = i"
  shows "(\<forall>s j. m' s = Some j \<longleftrightarrow> j < i + length ts \<and> (pre @ map fst ts) ! j = s) \<and>
    (\<forall>(s, ty) \<in> set ts. ty = 3 \<longrightarrow> s \<noteq> [])"
  using assms
proof (induction ts arbitrary: i m pre)
  case Nil
  then show ?case by auto
next
  case (Cons x ts)
  obtain s ty where x: "x = (s, ty)" by force
  from Cons.prems(1) x have c: "m s = None" "\<not> (ty = 3 \<and> s = [])" "index_tokens (Suc i) ts (m(s \<mapsto> i)) = Inr m'"
    by (auto split: if_splits)
  have step: "(m(s \<mapsto> i)) s' = Some j \<longleftrightarrow> j < Suc i \<and> (pre @ [s]) ! j = s'" for s' j
    using Cons.prems(2) [of s' j] Cons.prems(2) [of s j] Cons.prems(3) c(1)
    by (cases "s' = s"; cases "j < i") (auto simp: nth_append less_Suc_eq)
  from Cons.IH [OF c(3) step] Cons.prems(3) c(2) x show ?case by auto
qed

lemma set_longest_first [simp]: "set (longest_first sp) = set sp"
  by (simp add: longest_first_def)

lemma sorted_longest_first: "sorted_wrt (\<lambda>a b. length (fst b) \<le> length (fst a)) (longest_first sp)"
proof -
  have "sorted (map (\<lambda>p. length (fst p)) (sort_key (\<lambda>p. length (fst p)) (rev sp)))" by simp
  then show ?thesis
    unfolding longest_first_def sorted_wrt_rev by (simp add: sorted_wrt_map)
qed

lemma set_controls: "(s, i) \<in> set (controls toks tys) \<longleftrightarrow> i < length toks \<and> toks ! i = s \<and> tys ! i = 3"
  by (auto simp: controls_def)

lemma set_added: "(s, i) \<in> set (added tys m) \<longleftrightarrow> s \<in> {''<think>'', ''</think>''} \<and> m s = Some i \<and> tys ! i \<noteq> 3"
  by (auto simp: added_def split: option.splits if_splits)

lemma tok_uint_nonneg: "tok_uint n r = Inr (v, r') \<Longrightarrow> 0 \<le> v"
  by (auto simp: tok_uint_def le_val_nonneg)

lemma load_parts:
  assumes "load_tokenizer r = Inr tk"
  obtains n b e toks tyb mr r5 r6 m where
    "n \<noteq> 0" "b < n" "e < n" "read_tokens (nat n) r5 = Inr (toks, r6)" "length (tyb :: bytes) = nat n"
    "index_tokens 0 (zip toks (map unat tyb)) Map.empty = Inr m" "0 \<le> n" "0 \<le> b" "0 \<le> e"
    "tk = \<lparr>tokens = toks, types = map unat tyb, bos = nat b, eos = nat e, tok2id = m, merge_rank = mr,
      specials = longest_first (controls toks (map unat tyb) @ added (map unat tyb) m)\<rparr>"
proof -
  from assms obtain magic r1 ver r2 n r3 b r4 e r5 where
    u: "tok_uint 4 r = Inr (magic, r1)" "tok_uint 4 r1 = Inr (ver, r2)" "tok_uint 4 r2 = Inr (n, r3)"
      "tok_uint 4 r3 = Inr (b, r4)" "tok_uint 4 r4 = Inr (e, r5)"
    by (auto simp: load_tokenizer_def)
  note nonneg = u(3-5) [THEN tok_uint_nonneg]
  from assms u have g: "n \<noteq> 0" "b < n" "e < n"
    by (auto simp: load_tokenizer_def split: if_splits)
  from assms u g obtain toks r6 tyb r7 nm r8 mr m where
    v: "read_tokens (nat n) r5 = Inr (toks, r6)" "tok_bytes (nat n) r6 = Inr (tyb, r7)" "tok_uint 4 r7 = Inr (nm, r8)"
      "read_merges 0 (nat nm) r8 Map.empty = Inr (mr, [])" "index_tokens 0 (zip toks (map unat tyb)) Map.empty = Inr m"
      "tk = \<lparr>tokens = toks, types = map unat tyb, bos = nat b, eos = nat e, tok2id = m, merge_rank = mr,
        specials = longest_first (controls toks (map unat tyb) @ added (map unat tyb) m)\<rparr>"
    by (auto simp: load_tokenizer_def Let_def split: if_splits)
  show thesis by (rule that [OF g v(1) _ v(5) nonneg v(6)]) (use tok_bytes_len [OF v(2)] in simp)
qed

text \<open>
  C24: a vocabulary file that loads is consistent.  Whatever the bytes, the tokens are pairwise
  distinct and the lookup table is their exact inverse, every token has a type, the bos and eos ids
  are in range, and the specials are exactly the control tokens and the two think markers, none of
  them empty, longest first.
\<close>

theorem load_tokenizer_wf:
  assumes "load_tokenizer r = Inr tk"
  shows "tok_wf tk"
proof -
  from load_parts [OF assms] obtain n b e toks tyb mr r5 r6 m where parts:
    "n \<noteq> 0" "b < n" "e < n" "read_tokens (nat n) r5 = Inr (toks, r6)" "length (tyb :: bytes) = nat n"
    "index_tokens 0 (zip toks (map unat tyb)) Map.empty = Inr m" "0 \<le> n" "0 \<le> b" "0 \<le> e"
    "tk = \<lparr>tokens = toks, types = map unat tyb, bos = nat b, eos = nat e, tok2id = m, merge_rank = mr,
      specials = longest_first (controls toks (map unat tyb) @ added (map unat tyb) m)\<rparr>" .
  have len: "length toks = nat n" using parts(4) by (rule read_tokens_len)
  note ix = index_tokens_spec [OF parts(6), of "[]"]
  have m: "m s = Some j \<longleftrightarrow> j < length toks \<and> toks ! j = s" for s j
    using ix len parts(5) by (auto simp: zip_map2 split: prod.splits)
  have ne: "toks ! i \<noteq> []" if "i < length toks" "map unat tyb ! i = 3" for i
  proof -
    have "(toks ! i, 3) \<in> set (zip toks (map unat tyb))" using that len parts(5) by (auto simp: set_zip)
    with ix show ?thesis by auto
  qed
  show ?thesis
    unfolding tok_wf_def parts(10)
    using len parts(1-3,5,7-9) m ne sorted_longest_first by (auto simp: set_controls set_added)
qed

definition demo_vocab :: bytes where
  "demo_vocab = [0x51, 0x32, 0x37, 0x54, 1, 0, 0, 0, 2, 0, 0, 0, 0, 0, 0, 0, 1, 0, 0, 0] @
     [1, 0, 97, 2, 0, 60, 62, 1, 3, 0, 0, 0, 0]"

theorem load_tokenizer_wf_witness:
  "\<exists>tk. load_tokenizer demo_vocab = Inr tk \<and> tok_wf tk \<and> tokens tk = [''a'', ''<>'']"
proof -
  have "case load_tokenizer demo_vocab of Inl _ \<Rightarrow> False | Inr tk \<Rightarrow> tokens tk = [''a'', ''<>'']" by code_simp
  then obtain tk where tk: "load_tokenizer demo_vocab = Inr tk" "tokens tk = [''a'', ''<>'']"
    by (auto split: sum.splits)
  from load_tokenizer_wf [OF tk(1)] tk show ?thesis by blast
qed

section \<open>The pretokenizer\<close>

lemma pretokenize_Nil [simp]: "pretokenize [] = []"
  by (simp add: pretokenize.simps)

lemma concat_pretokenize: "concat (pretokenize s) = s"
proof (induction s rule: pretokenize.induct)
  case (1 s)
  then show ?case by (cases "s = []") (auto simp: pretokenize.simps [of s])
qed

lemma pretokenize_nonempty: "[] \<notin> set (pretokenize s)"
proof (induction s rule: pretokenize.induct)
  case (1 s)
  then show ?case using word_len_bounds [of s] by (cases "s = []") (auto simp: pretokenize.simps [of s])
qed


section \<open>Decoding what was encoded\<close>

text \<open>
  What the vocabulary must offer: every byte is a token that is not a control token, and no merge
  produces a control token.
\<close>

definition shown :: "tokenizer \<Rightarrow> string \<Rightarrow> bool" where
  "shown tk p \<longleftrightarrow> (case tok2id tk p of None \<Rightarrow> True | Some i \<Rightarrow> types tk ! i \<noteq> 3)"

definition bytes_covered :: "tokenizer \<Rightarrow> bool" where
  "bytes_covered tk \<longleftrightarrow> (\<forall>c. tok2id tk (b2u c) \<noteq> None \<and> shown tk (b2u c))"

definition merges_shown :: "tokenizer \<Rightarrow> bool" where
  "merges_shown tk \<longleftrightarrow> (\<forall>p q. merge_rank tk (p @ '' '' @ q) \<noteq> None \<longrightarrow> shown tk (p @ q))"

definition spelled :: "string \<Rightarrow> string" where
  "spelled w = concat (map b2u w)"

lemma decode_append: "decode tk (xs @ ys) = decode tk xs @ decode tk ys"
  by (simp add: decode_def)

lemma decode_concat: "decode tk (concat xss) = concat (map (decode tk) xss)"
  by (induction xss) (simp_all add: decode_append decode_def)

lemma decode_token:
  assumes "tok_wf tk" "tok2id tk p = Some i" "shown tk p" "p = spelled w"
  shows "decode tk [i] = w"
proof -
  have "i < length (tokens tk)" "tokens tk ! i = p" using assms(1,2) by (auto simp: tok_wf_def)
  then show ?thesis
    using assms(2-4) gpt2.decode_word [of w] by (simp add: decode_def decode_one_def shown_def spelled_def)
qed

lemma decode_bytes:
  assumes "tok_wf tk" "bytes_covered tk"
  shows "decode tk (List.map_filter (tok2id tk) (map b2u w)) = w"
proof (induction w)
  case (Cons c w)
  obtain i where i: "tok2id tk (b2u c) = Some i" "shown tk (b2u c)"
    using assms(2) by (fastforce simp: bytes_covered_def)
  have "decode tk [i] = [c]"
    using decode_token [OF assms(1) i] by (simp add: spelled_def)
  then have "decode tk (i # xs) = c # decode tk xs" for xs
    by (simp add: decode_def)
  then show ?case using Cons i by (simp add: List.map_filter_simps)
qed (simp add: List.map_filter_simps decode_def)

lemma decode_part:
  assumes "tok_wf tk" "bytes_covered tk" "shown tk (spelled w)"
  shows "decode tk (part_ids tk (spelled w)) = w"
  using decode_token [OF assms(1) _ assms(3) refl] decode_bytes [OF assms(1,2), of w] gpt2.chars_word [of w]
  by (simp add: part_ids_def spelled_def split: option.splits)

text \<open>Every part of the merge loop spells a piece of the word and is not a control token.\<close>

definition parts_of :: "tokenizer \<Rightarrow> string list \<Rightarrow> string \<Rightarrow> bool" where
  "parts_of tk parts w \<longleftrightarrow> (\<exists>ws. parts = map spelled ws \<and> concat ws = w \<and> list_all (\<lambda>v. shown tk (spelled v)) ws)"

lemma merge_at_parts:
  assumes "parts_of tk parts w" "pair_rank tk parts i = Some r" "merges_shown tk"
  shows "parts_of tk (merge_at parts i) w"
proof -
  obtain ws where ws: "parts = map spelled ws" "concat ws = w" "list_all (\<lambda>v. shown tk (spelled v)) ws"
    using assms(1) by (auto simp: parts_of_def)
  have i: "i + 1 < length ws" and m: "merge_rank tk (spelled (ws ! i) @ '' '' @ spelled (ws ! (i + 1))) \<noteq> None"
    using assms(2) ws(1) by (auto simp: pair_rank_def split: if_splits)
  define vs where "vs = take i ws @ (ws ! i @ ws ! (i + 1)) # drop (i + 2) ws"
  have split: "ws = take i ws @ ws ! i # ws ! (i + 1) # drop (i + 2) ws"
    using i by (metis Cons_nth_drop_Suc Suc_eq_plus1 add_2_eq_Suc' append_take_drop_id less_imp_Suc_add lessI less_trans)
  have "merge_at parts i = map spelled vs"
    using i by (simp add: merge_at_def vs_def ws(1) take_map drop_map spelled_def)
  moreover have "concat vs = w"
    unfolding ws(2) [symmetric] vs_def using arg_cong [OF split, of concat] by simp
  moreover have "list_all (\<lambda>v. shown tk (spelled v)) vs"
  proof -
    have "shown tk (spelled (ws ! i @ ws ! (i + 1)))"
      using m assms(3) by (auto simp: merges_shown_def spelled_def)
    with ws(3) show ?thesis by (auto simp: vs_def list_all_iff dest: in_set_takeD in_set_dropD)
  qed
  ultimately show ?thesis unfolding parts_of_def by blast
qed

lemma bpe_loop_parts:
  "parts_of tk parts w \<Longrightarrow> merges_shown tk \<Longrightarrow> parts_of tk (bpe_loop tk parts) w"
proof (induction tk parts rule: bpe_loop.induct)
  case (1 tk parts)
  show ?case
  proof (cases "best_pair tk parts 0 None")
    case None
    then show ?thesis using 1(2) by (simp add: bpe_loop.simps [of tk parts])
  next
    case (Some x)
    obtain r i where x: "x = (r, i)" by force
    have "pair_rank tk parts i = Some r" using best_pair_step [of tk parts] Some x by simp
    with 1(1) [OF Some, OF x [symmetric]] 1(2,3) merge_at_parts show ?thesis
      by (simp add: bpe_loop.simps [of tk parts] Some x)
  qed
qed

lemma decode_bpe_small:
  assumes "tok_wf tk" "bytes_covered tk" "merges_shown tk"
  shows "decode tk (bpe_small tk w) = w"
proof -
  have "parts_of tk (map b2u w) w"
    unfolding parts_of_def
    by (intro exI [of _ "map (\<lambda>c. [c]) w"])
      (use assms(2) in \<open>auto simp: spelled_def list_all_iff bytes_covered_def comp_def concat_map_singleton\<close>)
  from bpe_loop_parts [OF this assms(3)] obtain ws where
    ws: "bpe_loop tk (map b2u w) = map spelled ws" "concat ws = w" "list_all (\<lambda>v. shown tk (spelled v)) ws"
    by (auto simp: parts_of_def)
  have "map (\<lambda>v. decode tk (part_ids tk (spelled v))) ws = ws"
    using decode_part [OF assms(1,2)] ws(3) by (simp add: map_idI list_all_iff)
  then show ?thesis using ws(1,2) by (simp add: bpe_small_def decode_concat comp_def)
qed

lemma decode_bpe_word:
  assumes "tok_wf tk" "bytes_covered tk" "merges_shown tk"
  shows "decode tk (bpe_word tk w) = w"
  using assms
proof (induction tk w rule: bpe_word.induct)
  case (1 tk w)
  then show ?case
    by (cases "length w > WORD_CAP") (simp_all add: bpe_word.simps [of tk w] decode_append decode_bpe_small)
qed

lemma decode_span:
  assumes "tok_wf tk" "bytes_covered tk" "merges_shown tk"
  shows "decode tk (encode_span tk w) = w"
  by (simp add: encode_span_def decode_concat comp_def decode_bpe_word [OF assms] concat_pretokenize)

section \<open>The encoding loop\<close>

text \<open>The pieces encoding cuts a text into.\<close>

datatype piece = Plain string | Marked string nat

fun piece_text :: "piece \<Rightarrow> string" where
  "piece_text (Plain w) = w"
| "piece_text (Marked s i) = s"

fun piece_shown :: "tokenizer \<Rightarrow> piece \<Rightarrow> string" where
  "piece_shown tk (Plain w) = w"
| "piece_shown tk (Marked s i) = (if types tk ! i = 3 then [] else s)"

fun piece_ok :: "tokenizer \<Rightarrow> piece \<Rightarrow> bool" where
  "piece_ok tk (Plain w) = (w \<noteq> [] \<and> list_all (\<lambda>(s, i). \<not> sublist s w) (specials tk))"
| "piece_ok tk (Marked s i) = ((s, i) \<in> set (specials tk))"

lemma next_special_fold:
  "foldl (\<lambda>best (s, i). npos_min best (find_sub s rest)) best sp = None \<Longrightarrow>
     best = None \<and> list_all (\<lambda>(s, i). find_sub s rest = None) sp"
  "foldl (\<lambda>best (s, i). npos_min best (find_sub s rest)) best sp = Some p \<Longrightarrow>
     (best = Some p \<or> list_ex (\<lambda>(s, i). find_sub s rest = Some p) sp) \<and>
     (\<forall>q. best = Some q \<longrightarrow> p \<le> q) \<and> list_all (\<lambda>(s, i). \<forall>q. find_sub s rest = Some q \<longrightarrow> p \<le> q) sp"
proof (induction sp arbitrary: best)
  case (Cons x sp)
  obtain s i where x: "x = (s, i)" by force
  {
    case 1
    from Cons.IH(1) [of "npos_min best (find_sub s rest)"] 1 x show ?case by auto
  next
    case 2
    with Cons.IH(2) [of "npos_min best (find_sub s rest)"] x have
      h: "npos_min best (find_sub s rest) = Some p \<or> list_ex (\<lambda>(s, i). find_sub s rest = Some p) sp"
      "\<forall>q. npos_min best (find_sub s rest) = Some q \<longrightarrow> p \<le> q"
      "list_all (\<lambda>(s, i). \<forall>q. find_sub s rest = Some q \<longrightarrow> p \<le> q) sp" by auto
    have "\<forall>q. best = Some q \<longrightarrow> p \<le> q" "\<forall>q. find_sub s rest = Some q \<longrightarrow> p \<le> q"
      using h(2) by (cases best; cases "find_sub s rest"; force)+
    with h x show ?case by (auto dest: npos_min_SomeD)
  }
qed auto

lemma encode_marked:
  "rest \<noteq> [] \<Longrightarrow> find (\<lambda>(s, i). prefix s rest) (specials tk) = Some (s, i) \<Longrightarrow>
     encode_loop tk rest out = encode_loop tk (drop (length s) rest) (out @ [i])"
  by (subst encode_loop.simps) simp

lemma encode_plain:
  "rest \<noteq> [] \<Longrightarrow> find (\<lambda>(s, i). prefix s rest) (specials tk) = None \<Longrightarrow>
     k = (case next_special tk rest of None \<Rightarrow> length rest | Some p \<Rightarrow> p) \<Longrightarrow>
     encode_loop tk rest out = encode_loop tk (drop k rest) (out @ encode_span tk (take k rest))"
  by (subst encode_loop.simps) (simp add: Let_def)

lemma special_nonempty: "tok_wf tk \<Longrightarrow> (s, i) \<in> set (specials tk) \<Longrightarrow> s \<noteq> []"
  unfolding tok_wf_def by blast

lemma plain_piece:
  assumes "tok_wf tk" "rest \<noteq> []" "find (\<lambda>(s, i). prefix s rest) (specials tk) = None"
    "k = (case next_special tk rest of None \<Rightarrow> length rest | Some p \<Rightarrow> p)"
  shows "0 < k \<and> k \<le> length rest \<and> piece_ok tk (Plain (take k rest))"
proof -
  have nopre: "\<not> prefix s rest" if "(s, i) \<in> set (specials tk)" for s i
    using assms(3) that by (auto simp: find_None_iff)
  have earliest: "k \<le> q" if "(s, i) \<in> set (specials tk)" "find_sub s rest = Some q" for s i q
    using next_special_fold [of rest None "specials tk"] that assms(4)
    by (cases "next_special tk rest") (fastforce simp: next_special_def list_all_iff)+
  have k: "0 < k" "k \<le> length rest"
  proof -
    show "0 < k"
    proof (cases "next_special tk rest")
      case (Some p)
      then obtain s i where "(s, i) \<in> set (specials tk)" "find_sub s rest = Some p"
        using next_special_fold(2) [of rest None "specials tk" p] by (auto simp: next_special_def list_ex_iff)
      then have "p \<noteq> 0" using nopre [of s i] find_sub_prefix [of s rest p] by (cases p) simp_all
      then show ?thesis using Some assms(4) by simp
    qed (use assms in simp)
    show "k \<le> length rest"
    proof (cases "next_special tk rest")
      case (Some p)
      then obtain s i where "find_sub s rest = Some p"
        using next_special_fold(2) [of rest None "specials tk" p] by (auto simp: next_special_def list_ex_iff)
      then show ?thesis using Some assms(4) find_sub_bound [of s rest p] by simp
    qed (use assms in simp)
  qed
  have "\<not> sublist s (take k rest)" if s: "(s, i) \<in> set (specials tk)" for s i
  proof
    assume "sublist s (take k rest)"
    then obtain j where j: "j \<le> length (take k rest)" "prefix s (drop j (take k rest))"
      by (auto simp: sublist_iff_drop)
    have ne: "s \<noteq> []" using assms(1) s by (rule special_nonempty)
    then have "j < k" using j by (cases "j < k") auto
    moreover have "prefix s (drop j rest)"
      using j(2) by (metis append_prefixD append_take_drop_id drop_take take_drop prefix_def append_assoc)
    ultimately show False using earliest [OF s] find_sub_le [of s j rest] k(2) by fastforce
  qed
  with k assms(2) show ?thesis by (auto simp: list_all_iff)
qed

lemma think_spelled: "spelled ''<think>'' = ''<think>''" "spelled ''</think>'' = ''</think>''"
  unfolding spelled_def by code_simp+

lemma decode_marked:
  assumes "tok_wf tk" "(s, i) \<in> set (specials tk)"
  shows "decode tk [i] = piece_shown tk (Marked s i)"
proof -
  have i: "tok2id tk s = Some i" "i < length (tokens tk)" "types tk ! i = 3 \<or> s = ''<think>'' \<or> s = ''</think>''"
    using assms by (auto simp: tok_wf_def)
  show ?thesis
  proof (cases "types tk ! i = 3")
    case True
    then show ?thesis using i(2) by (simp add: decode_def decode_one_def)
  next
    case False
    then have "shown tk s" "spelled s = s" using i think_spelled by (auto simp: shown_def)
    with False show ?thesis using decode_token [OF assms(1) i(1)] by simp
  qed
qed

lemma encode_pieces:
  assumes "tok_wf tk" "bytes_covered tk" "merges_shown tk"
  shows "\<exists>ids ps. encode_loop tk rest out = Some (out @ ids) \<and> concat (map piece_text ps) = rest \<and>
    list_all (piece_ok tk) ps \<and> decode tk ids = concat (map (piece_shown tk) ps)"
proof (induction "length rest" arbitrary: rest out rule: less_induct)
  case less
  show ?case
  proof (cases "rest = []")
    case True
    then show ?thesis
      by (intro exI [of _ "[] :: nat list"] exI [of _ "[] :: piece list"])
        (simp add: encode_loop.simps [of tk "[]" out] decode_def)
  next
    case ne: False
    have step: "\<exists>ids ps. encode_loop tk rest out = Some (out @ ids) \<and> concat (map piece_text ps) = rest \<and>
        list_all (piece_ok tk) ps \<and> decode tk ids = concat (map (piece_shown tk) ps)"
      if eq: "encode_loop tk rest out = encode_loop tk (drop (length (piece_text p)) rest) (out @ xs)"
        and pre: "piece_text p \<noteq> []" "take (length (piece_text p)) rest = piece_text p"
        and ok: "piece_ok tk p" "decode tk xs = piece_shown tk p" for p xs
    proof -
      have "length (drop (length (piece_text p)) rest) < length rest" using pre(1) ne by simp
      from less.hyps [OF this, of "out @ xs"] obtain ids ps where
        "encode_loop tk (drop (length (piece_text p)) rest) (out @ xs) = Some ((out @ xs) @ ids)"
        "concat (map piece_text ps) = drop (length (piece_text p)) rest" "list_all (piece_ok tk) ps"
        "decode tk ids = concat (map (piece_shown tk) ps)" by blast
      then show ?thesis using eq ok
        by (intro exI [of _ "xs @ ids"] exI [of _ "p # ps"])
          (simp add: decode_append, metis pre(2) append_take_drop_id)
    qed
    show ?thesis
    proof (cases "find (\<lambda>(s, i). prefix s rest) (specials tk)")
      case (Some x)
      obtain s i where x: "x = (s, i)" by force
      have m: "(s, i) \<in> set (specials tk)" "prefix s rest"
        using Some x by (auto simp: find_Some_iff dest: nth_mem)
      then have "s \<noteq> []" using special_nonempty [OF assms(1)] by blast
      then show ?thesis
        using step [of "Marked s i" "[i]"] encode_marked [OF ne] Some x m decode_marked [OF assms(1) m(1)]
        by (auto simp: prefix_def)
    next
      case None
      define k where "k = (case next_special tk rest of None \<Rightarrow> length rest | Some p \<Rightarrow> p)"
      note p = plain_piece [OF assms(1) ne None k_def]
      then show ?thesis
        using step [of "Plain (take k rest)" "encode_span tk (take k rest)"] encode_plain [OF ne None k_def]
          decode_span [OF assms, of "take k rest"] ne by auto
    qed
  qed
qed

text \<open>
  C22: encoding always returns and decoding is its inverse.  For a consistent vocabulary that covers
  the bytes and whose merges make no control token, every text splits into special tokens and plain
  spans in which no special token occurs, and decoding the encoded text gives the text with exactly
  its control tokens left out.  In particular a text without control tokens comes back unchanged.
\<close>

theorem encode_decode:
  assumes "tok_wf tk" "bytes_covered tk" "merges_shown tk"
  shows "\<exists>ids ps. encode tk s = Some ids \<and> concat (map piece_text ps) = s \<and> list_all (piece_ok tk) ps \<and>
    decode tk ids = concat (map (piece_shown tk) ps) \<and>
    ((\<forall>c i. (c, i) \<in> set (specials tk) \<and> types tk ! i = 3 \<longrightarrow> \<not> sublist c s) \<longrightarrow> decode tk ids = s)"
proof -
  from encode_pieces [OF assms, of s "[]"] obtain ids ps where
    e: "encode tk s = Some ids" "concat (map piece_text ps) = s" "list_all (piece_ok tk) ps"
      "decode tk ids = concat (map (piece_shown tk) ps)" by (auto simp: encode_def)
  have "map (piece_shown tk) ps = map piece_text ps"
    if "\<forall>c i. (c, i) \<in> set (specials tk) \<and> types tk ! i = 3 \<longrightarrow> \<not> sublist c s"
  proof (rule map_cong [OF refl])
    fix p assume p: "p \<in> set ps"
    have "sublist (piece_text p) s"
      using p e(2) by (metis concat.simps(2) concat_append list.simps(9) map_append split_list sublist_appendI)
    moreover have "piece_ok tk p" using p e(3) by (simp add: list_all_iff)
    ultimately show "piece_shown tk p = piece_text p"
      using that by (cases p) (simp_all, blast)
  qed
  then show ?thesis using e by metis
qed

text \<open>A vocabulary of the 256 bytes and one control token.\<close>

definition demo_tokens :: "string list" where
  "demo_tokens = b2u_table @ [''<|im_end|>'']"

definition demo_tk :: tokenizer where
  "demo_tk = \<lparr>tokens = demo_tokens, types = replicate 256 1 @ [3], bos = 256, eos = 256,
     tok2id = map_of (zip demo_tokens [0..<257]), merge_rank = Map.empty, specials = [(''<|im_end|>'', 256)]\<rparr>"

lemma demo_tokens_distinct: "distinct demo_tokens"
proof -
  have "b2u_table ! i \<noteq> ''<|im_end|>''" if "i < 256" for i
    using length_b2u [of "char_of i"] that by (auto simp: b2u_table_nth dest!: arg_cong [where f = length])
  then have "''<|im_end|>'' \<notin> set b2u_table" by (auto simp: in_set_conv_nth)
  then show ?thesis using distinct_b2u_table by (simp add: demo_tokens_def)
qed

lemma demo_tok2id: "tok2id demo_tk s = Some i \<longleftrightarrow> i < 257 \<and> demo_tokens ! i = s"
proof -
  have len: "length demo_tokens = 257" by (simp add: demo_tokens_def)
  have "tok2id demo_tk s = Some i \<longleftrightarrow> (s, i) \<in> set (zip demo_tokens [0..<257])"
    using demo_tokens_distinct len by (simp add: demo_tk_def)
  then show ?thesis using len by (auto simp: in_set_zip)
qed

lemma demo_tk_ok: "tok_wf demo_tk" "bytes_covered demo_tk" "merges_shown demo_tk"
proof -
  have len: "length demo_tokens = 257" by (simp add: demo_tokens_def)
  have sel: "tokens demo_tk = demo_tokens" "length (types demo_tk) = 257" "bos demo_tk = 256" "eos demo_tk = 256"
    "specials demo_tk = [(''<|im_end|>'', 256)]"
    by (simp_all add: demo_tk_def)
  have ty: "types demo_tk ! i = 3 \<longleftrightarrow> i = 256" if "i < 257" for i
    using that by (auto simp: demo_tk_def nth_append)
  have last: "demo_tokens ! 256 = ''<|im_end|>''"
    by (simp add: demo_tokens_def nth_append)
  have no_think: "demo_tokens ! i \<notin> {''<think>'', ''</think>''}" if "i < 257" for i
  proof (cases "i < 256")
    case True
    then show ?thesis using length_b2u [of "char_of i"] by (auto simp: demo_tokens_def nth_append b2u_table_nth)
  next
    case False
    with that have "i = 256" by simp
    with last show ?thesis by simp
  qed
  show "tok_wf demo_tk"
    unfolding tok_wf_def demo_tok2id sel using len last ty no_think by (auto simp: sel)
  show "bytes_covered demo_tk"
  proof -
    have "tok2id demo_tk (b2u c) = Some (of_char c)" for c
      using nat_of_char_less_256 [of c] unfolding demo_tok2id by (auto simp: demo_tokens_def nth_append b2u_def less_imp_le intro: less_trans)
    moreover have "types demo_tk ! of_char c \<noteq> 3" for c
    proof -
      have "(of_char c :: nat) < 256" by simp
      then show ?thesis by (simp add: demo_tk_def nth_append)
    qed
    ultimately show ?thesis by (simp add: bytes_covered_def shown_def)
  qed
  show "merges_shown demo_tk" by (simp add: merges_shown_def demo_tk_def)
qed

theorem encode_decode_witness:
  "tok_wf demo_tk \<and> bytes_covered demo_tk \<and> merges_shown demo_tk \<and>
   (\<exists>ids. encode demo_tk ''hi'' = Some ids \<and> decode demo_tk ids = ''hi'')"
proof -
  have "\<forall>c i. (c, i) \<in> set (specials demo_tk) \<and> types demo_tk ! i = 3 \<longrightarrow> \<not> sublist c ''hi''"
    by (simp add: demo_tk_def sublist_Cons_right)
  with encode_decode [OF demo_tk_ok, of "''hi''"] demo_tk_ok show ?thesis by blast
qed

end
