(* ===== verification/Gpu_Gate.thy ===== *)
theory Gpu_Gate
  imports Q27_Prelude
begin

text \<open>
  The FIFO ticket lock that time-slices the GPU, \<^verbatim>\<open>struct GpuGate\<close> of \<^verbatim>\<open>src/src/api_common.h\<close>.
  The threads interleave; a step is what one thread does while it holds the mutex \<open>m\<close>, or the
  unlocked read of \<open>nwait\<close> in \<open>maybe_yield\<close>.  A wait on the condition variable is a state of the
  thread, left by its own wake-up step.  The two 64-bit ticket counters are naturals: they count lock
  operations and do not reach their width.  The specification is a queue of threads.
\<close>

section \<open>Model\<close>

text \<open>\<open>Yielding\<close>: the holder has seen a waiter and is about to lock the mutex in \<open>maybe_yield\<close>.\<close>

datatype thread_state = Idle | Waiting nat | Holding | Yielding

record 'p gate =
  next_ticket :: nat
  serving :: nat
  nwait :: nat
  thr :: "'p \<Rightarrow> thread_state"

definition gate_init :: "'p gate" where
  "gate_init = \<lparr>next_ticket = 0, serving = 0, nwait = 0, thr = (\<lambda>_. Idle)\<rparr>"

datatype 'p gate_op = Acquire 'p | Wake 'p | Release 'p | Yield_Check 'p | Yield 'p

definition acquire_gate :: "'p gate \<Rightarrow> 'p \<Rightarrow> 'p gate" where
  "acquire_gate g p =
     (let tk = next_ticket g; g1 = g\<lparr>next_ticket := tk + 1\<rparr>
      in if tk \<noteq> serving g then g1\<lparr>nwait := nwait g + 1, thr := (thr g)(p := Waiting tk)\<rparr>
         else g1\<lparr>thr := (thr g)(p := Holding)\<rparr>)"

definition wake_gate :: "'p gate \<Rightarrow> 'p \<Rightarrow> 'p gate" where
  "wake_gate g p = g\<lparr>nwait := nwait g - 1, thr := (thr g)(p := Holding)\<rparr>"

definition release_gate :: "'p gate \<Rightarrow> 'p \<Rightarrow> 'p gate" where
  "release_gate g p = g\<lparr>serving := serving g + 1, thr := (thr g)(p := Idle)\<rparr>"

definition contended :: "'p gate \<Rightarrow> nat" where
  "contended g = nwait g"

definition yield_check :: "'p gate \<Rightarrow> 'p \<Rightarrow> 'p gate" where
  "yield_check g p = (if contended g = 0 then g else g\<lparr>thr := (thr g)(p := Yielding)\<rparr>)"

definition yield_gate :: "'p gate \<Rightarrow> 'p \<Rightarrow> 'p gate" where
  "yield_gate g p =
     (if next_ticket g - serving g \<le> 1 then g\<lparr>thr := (thr g)(p := Holding)\<rparr>
      else g\<lparr>next_ticket := next_ticket g + 1, serving := serving g + 1, nwait := nwait g + 1,
             thr := (thr g)(p := Waiting (next_ticket g))\<rparr>)"

text \<open>A step is enabled in the state of its thread; waking needs the thread's own ticket served.\<close>

fun gate_step :: "'p gate \<Rightarrow> 'p gate_op \<Rightarrow> 'p gate option" where
  "gate_step g (Acquire p) = (if thr g p = Idle then Some (acquire_gate g p) else None)"
| "gate_step g (Wake p) = (if thr g p = Waiting (serving g) then Some (wake_gate g p) else None)"
| "gate_step g (Release p) = (if thr g p = Holding then Some (release_gate g p) else None)"
| "gate_step g (Yield_Check p) = (if thr g p = Holding then Some (yield_check g p) else None)"
| "gate_step g (Yield p) = (if thr g p = Yielding then Some (yield_gate g p) else None)"

fun_cases gate_stepE: "gate_step g a = Some g'"

section \<open>The queue it implements\<close>

text \<open>The specification: a queue of threads, whose first one owns the GPU.\<close>

fun queue_step :: "'p list \<Rightarrow> 'p gate_op \<Rightarrow> 'p list" where
  "queue_step q (Acquire p) = q @ [p]"
| "queue_step q (Release p) = List.tl q"
| "queue_step q (Yield p) = rotate1 q"
| "queue_step q _ = q"

definition waiting :: "'p gate \<Rightarrow> 'p \<Rightarrow> bool" where
  "waiting g p \<longleftrightarrow> (case thr g p of Waiting _ \<Rightarrow> True | _ \<Rightarrow> False)"

definition owner_state :: "'p gate \<Rightarrow> thread_state \<Rightarrow> bool" where
  "owner_state g s \<longleftrightarrow> s = Waiting (serving g) \<or> s = Holding \<or> s = Yielding"

text \<open>The states of the threads behind the first: they wait with consecutive tickets.\<close>

fun tickets :: "nat \<Rightarrow> nat \<Rightarrow> thread_state list" where
  "tickets s 0 = []"
| "tickets s (Suc n) = Waiting s # tickets (Suc s) n"

fun gate_rel :: "'p gate \<Rightarrow> 'p list \<Rightarrow> bool" where
  "gate_rel g [] \<longleftrightarrow> next_ticket g = serving g \<and> nwait g = 0 \<and> (\<forall>p. thr g p = Idle)"
| "gate_rel g (x # r) \<longleftrightarrow>
     x \<notin> set r \<and> distinct r \<and> next_ticket g = Suc (serving g + length r) \<and>
     nwait g = length r + (if waiting g x then 1 else 0) \<and> (\<forall>p. thr g p = Idle \<longleftrightarrow> p \<noteq> x \<and> p \<notin> set r) \<and>
     owner_state g (thr g x) \<and> map (thr g) r = tickets (Suc (serving g)) (length r)"

declare gate_rel.simps [simp del]
lemmas gate_relS = gate_rel.simps waiting_def owner_state_def

lemma tickets_snoc: "tickets s n @ [Waiting (s + n)] = tickets s (Suc n)"
proof (induction n arbitrary: s)
  case (Suc n)
  then show ?case using Suc.IH [of "Suc s"] by simp
qed simp

lemma tickets_nth: "i < n \<Longrightarrow> tickets s n ! i = Waiting (s + i)"
proof (induction n arbitrary: s i)
  case (Suc n)
  then show ?case by (cases i) simp_all
qed simp

lemma tickets_mem: "x \<in> set (tickets s n) \<Longrightarrow> \<exists>k\<ge>s. x = Waiting k"
proof (induction n arbitrary: s)
  case (Suc n)
  then show ?case by (cases "x = Waiting s") (auto, meson Suc_leD)
qed simp

lemma gate_rel_init: "gate_rel gate_init []"
  by (simp add: gate_init_def gate_rel.simps)

lemma gate_rel_idle: "gate_rel g q \<Longrightarrow> thr g p = Idle \<longleftrightarrow> p \<notin> set q"
  by (cases q) (auto simp: gate_rel.simps)

lemma gate_rel_rest:
  assumes "gate_rel g (x # r)" "y \<in> set r"
  shows "\<exists>k>serving g. thr g y = Waiting k"
proof -
  have "thr g y \<in> set (map (thr g) r)" using assms(2) by simp
  then have "thr g y \<in> set (tickets (Suc (serving g)) (length r))" using assms(1) by (simp only: gate_rel.simps)
  then show ?thesis using tickets_mem Suc_le_eq by blast
qed

text \<open>A thread that holds, yields or may wake is the first of the queue.\<close>

lemma gate_rel_owner:
  assumes "gate_rel g q" "owner_state g (thr g p)"
  obtains r where "q = p # r" "p \<notin> set r"
proof -
  have "thr g p \<noteq> Idle" using assms(2) by (auto simp: owner_state_def)
  then have "p \<in> set q" using gate_rel_idle [OF assms(1)] by auto
  then obtain x r where q: "q = x # r" by (cases q) auto
  have "p = x"
  proof (rule ccontr)
    assume "p \<noteq> x"
    then have "p \<in> set r" using \<open>p \<in> set q\<close> q by auto
    with gate_rel_rest [of g x r p] assms(1) q obtain k where "k > serving g" "thr g p = Waiting k" by auto
    then show False using assms(2) by (auto simp: owner_state_def)
  qed
  with that q assms(1) show thesis by (auto simp: gate_rel.simps)
qed

lemma map_upd_fresh: "p \<notin> set r \<Longrightarrow> map (f(p := s)) r = map f r"
  by simp

lemma acquire_rel:
  assumes "gate_rel g q" "thr g p = Idle"
  shows "gate_rel (acquire_gate g p) (q @ [p])"
proof (cases q)
  case Nil
  then show ?thesis using assms
    by (simp add: acquire_gate_def Let_def gate_relS)
next
  case (Cons x r)
  have p: "p \<notin> set q" using assms(2) gate_rel_idle [OF assms(1), of p] by simp
  have "map (thr g) r @ [Waiting (next_ticket g)] = tickets (Suc (serving g)) (Suc (length r))"
    using assms(1) Cons tickets_snoc [of "Suc (serving g)" "length r"] by (simp add: gate_rel.simps)
  then show ?thesis using assms p Cons
    by (auto simp: acquire_gate_def Let_def gate_relS map_upd_fresh)
qed

lemma release_rel:
  assumes "gate_rel g (p # r)" "thr g p = Holding"
  shows "gate_rel (release_gate g p) r"
proof (cases r)
  case Nil
  then show ?thesis using assms by (simp add: release_gate_def gate_relS)
next
  case (Cons x r')
  then show ?thesis using assms by (auto simp: release_gate_def gate_relS)
qed

lemma yield_rel:
  assumes "gate_rel g (p # r)" "thr g p = Yielding"
  shows "gate_rel (yield_gate g p) (rotate1 (p # r))"
proof (cases r)
  case Nil
  then show ?thesis using assms by (simp add: yield_gate_def gate_relS)
next
  case (Cons x r')
  have "map (thr g) r' @ [Waiting (next_ticket g)] = tickets (Suc (Suc (serving g))) (Suc (length r'))"
    using assms(1) Cons tickets_snoc [of "Suc (Suc (serving g))" "length r'"] by (simp add: gate_rel.simps)
  then show ?thesis using assms Cons
    by (auto simp: yield_gate_def gate_relS)
qed

lemma wake_rel:
  assumes "gate_rel g (p # r)" "thr g p = Waiting (serving g)"
  shows "gate_rel (wake_gate g p) (p # r)"
  using assms by (simp add: wake_gate_def gate_relS)

lemma check_rel:
  assumes "gate_rel g (p # r)" "thr g p = Holding"
  shows "gate_rel (yield_check g p) (p # r)"
  using assms by (simp add: yield_check_def gate_relS)

lemma gate_step_sim:
  assumes "gate_rel g q" "gate_step g a = Some g'"
  shows "gate_rel g' (queue_step q a)"
proof (cases a)
  case (Acquire p)
  then show ?thesis using assms acquire_rel by (auto split: if_splits)
next
  case (Wake p)
  then have w: "thr g p = Waiting (serving g)" "g' = wake_gate g p" using assms(2) by (auto split: if_splits)
  then obtain r where "q = p # r" using gate_rel_owner [OF assms(1), of p] by (auto simp: owner_state_def)
  with w wake_rel assms(1) Wake show ?thesis by simp
next
  case (Release p)
  then have w: "thr g p = Holding" "g' = release_gate g p" using assms(2) by (auto split: if_splits)
  then obtain r where "q = p # r" using gate_rel_owner [OF assms(1), of p] by (auto simp: owner_state_def)
  with w release_rel assms(1) Release show ?thesis by simp
next
  case (Yield_Check p)
  then have w: "thr g p = Holding" "g' = yield_check g p" using assms(2) by (auto split: if_splits)
  then obtain r where "q = p # r" using gate_rel_owner [OF assms(1), of p] by (auto simp: owner_state_def)
  with w check_rel assms(1) Yield_Check show ?thesis by simp
next
  case (Yield p)
  then have w: "thr g p = Yielding" "g' = yield_gate g p" using assms(2) by (auto split: if_splits)
  then obtain r where "q = p # r" using gate_rel_owner [OF assms(1), of p] by (auto simp: owner_state_def)
  with w yield_rel assms(1) Yield show ?thesis by (simp del: rotate1.simps)
qed

fun gate_run :: "'p gate \<Rightarrow> 'p gate_op list \<Rightarrow> 'p gate option" where
  "gate_run g [] = Some g"
| "gate_run g (a # as) = Option.bind (gate_step g a) (\<lambda>g'. gate_run g' as)"

lemma gate_run_sim: "gate_rel g q \<Longrightarrow> gate_run g as = Some g' \<Longrightarrow> gate_rel g' (foldl queue_step q as)"
  by (induction as arbitrary: g q) (auto dest: gate_step_sim split: Option.bind_splits)

section \<open>Properties\<close>

text \<open>
  C26: the ticket lock implements the queue.  Every interleaving of the threads' steps from the
  initial state is matched by the operations on a queue: acquiring enqueues, releasing dequeues,
  yielding moves the first thread to the end.  The thread that holds the GPU or is about to yield is
  the first of the queue, so there is at most one; every other queued thread waits with the ticket of
  its position; and the waiter count read without the lock is the number of waiting threads.
\<close>

theorem gate_implements_queue:
  assumes "gate_run gate_init as = Some g" "q = foldl queue_step [] as"
  shows "distinct q \<and> next_ticket g = serving g + length q \<and> contended g = length (filter (waiting g) q) \<and>
    (\<forall>p. thr g p \<noteq> Idle \<longleftrightarrow> p \<in> set q) \<and>
    (\<forall>p. thr g p = Holding \<or> thr g p = Yielding \<longrightarrow> q \<noteq> [] \<and> p = hd q) \<and>
    (\<forall>i. 0 < i \<and> i < length q \<longrightarrow> thr g (q ! i) = Waiting (serving g + i))"
proof -
  have rel: "gate_rel g q" using gate_run_sim [OF gate_rel_init assms(1)] assms(2) by simp
  have own: "q \<noteq> [] \<and> p = hd q" if "thr g p = Holding \<or> thr g p = Yielding" for p
    using gate_rel_owner [OF rel, of p] that by (metis list.distinct(1) list.sel(1) owner_state_def)
  have wait: "thr g (q ! i) = Waiting (serving g + i)" if i: "0 < i" "i < length q" for i
  proof -
    obtain x r where q: "q = x # r" using i by (cases q) auto
    then have "map (thr g) r ! (i - 1) = Waiting (serving g + i)"
      using rel i by (simp add: tickets_nth gate_rel.simps del: nth_map)
    then show ?thesis using q i by (simp add: nth_Cons')
  qed
  have "filter (waiting g) r = r" if "q = x # r" for x r
  proof (rule filter_True, rule ballI)
    fix y assume "y \<in> set r"
    then show "waiting g y" using gate_rel_rest rel that by (fastforce simp: waiting_def)
  qed
  then have "distinct q \<and> next_ticket g = serving g + length q \<and> contended g = length (filter (waiting g) q)"
    using rel by (cases q) (auto simp: contended_def gate_rel.simps)
  with own wait gate_rel_idle [OF rel] show ?thesis by blast
qed

theorem gate_implements_queue_witness:
  "\<exists>g. gate_run gate_init [Acquire 1, Acquire 2, Yield_Check 1, Yield (1 :: nat), Wake 2] = Some g \<and>
     thr g 2 = Holding \<and> thr g 1 = Waiting 2 \<and> distinct (foldl queue_step [] [Acquire 1, Acquire 2, Yield_Check 1, Yield (1 :: nat), Wake 2])"
proof -
  let ?as = "[Acquire 1, Acquire 2, Yield_Check 1, Yield (1 :: nat), Wake 2]"
  have "case gate_run gate_init ?as of None \<Rightarrow> False | Some g \<Rightarrow> thr g 2 = Holding \<and> thr g 1 = Waiting 2" by code_simp
  then obtain g where g: "gate_run gate_init ?as = Some g" "thr g 2 = Holding" "thr g 1 = Waiting 2"
    by (auto split: option.splits)
  from gate_implements_queue [OF g(1) refl] g show ?thesis by blast
qed

text \<open>
  The lock never gets stuck.  Whenever some thread is not idle, a step is enabled that brings
  the first thread of the queue forward: it can wake up if it waits, release if it holds, and finish
  its yield otherwise.
\<close>

theorem gate_progress:
  assumes "gate_run gate_init as = Some g" "thr g p \<noteq> Idle"
  shows "\<exists>o'. gate_step g (Wake o') \<noteq> None \<or> gate_step g (Release o') \<noteq> None \<or> gate_step g (Yield o') \<noteq> None"
proof -
  have rel: "gate_rel g (foldl queue_step [] as)" using gate_run_sim [OF gate_rel_init assms(1)] .
  then obtain x r where "foldl queue_step [] as = x # r"
    using assms(2) gate_rel_idle [OF rel, of p] by (cases "foldl queue_step [] as") auto
  with rel show ?thesis by (auto simp: gate_relS)
qed

theorem gate_progress_witness:
  "\<exists>g. gate_run gate_init [Acquire (1 :: nat)] = Some g \<and> thr g 1 \<noteq> Idle \<and>
     (\<exists>o'. gate_step g (Wake o') \<noteq> None \<or> gate_step g (Release o') \<noteq> None \<or> gate_step g (Yield o') \<noteq> None)"
proof -
  have "case gate_run gate_init [Acquire (1 :: nat)] of None \<Rightarrow> False | Some g \<Rightarrow> thr g 1 \<noteq> Idle" by code_simp
  then obtain g where g: "gate_run gate_init [Acquire (1 :: nat)] = Some g" "thr g 1 \<noteq> Idle"
    by (auto split: option.splits)
  from gate_progress [OF g] g show ?thesis by blast
qed

end
