(* ===== verification/Api_Request.thy ===== *)
theory Api_Request
  imports Json_Model Chat_Prompt
begin

text \<open>
  The request mapping of \<^verbatim>\<open>src/src/api_common.h\<close>: the tolerant field readers, the billing-header
  normaliser, the reconstruction of model markers from Anthropic and OpenAI message lists, the tool
  definitions, the thinking switch, the tool choice and the error texts.  A throw of the JSON library
  out of a mapping is a value of \<^typ>\<open>json_exn\<close>; the parser, the serialiser and the conversion of
  a JSON integer to a double are the parameters \<open>parse\<close>, \<open>dump\<close> and \<open>dbl\<close>.
\<close>

section \<open>Field readers\<close>

text \<open>The conversion of a double to an integer type truncates.\<close>

definition trunc :: "rat \<Rightarrow> int" where
  "trunc r = (if r \<ge> 0 then \<lfloor>r\<rfloor> else \<lceil>r\<rceil>)"

fun get_i64 :: "json \<Rightarrow> int jres" where
  "get_i64 (JInt i) = Inr i"
| "get_i64 (JFloat r) = Inr (trunc r)"
| "get_i64 (JBool b) = Inr (if b then 1 else 0)"
| "get_i64 _ = Inl TypeError302"

definition json_i64_or :: "json \<Rightarrow> string \<Rightarrow> int \<Rightarrow> int jres" where
  "json_i64_or body key dflt =
     (case jfind body key of None \<Rightarrow> Inr dflt | Some v \<Rightarrow> if is_null v then Inr dflt else get_i64 v)"

fun get_double :: "(int \<Rightarrow> rat) \<Rightarrow> json \<Rightarrow> rat" where
  "get_double dbl (JInt i) = dbl i"
| "get_double dbl (JFloat r) = r"
| "get_double dbl _ = 0"

definition jnum :: "(int \<Rightarrow> rat) \<Rightarrow> json \<Rightarrow> string \<Rightarrow> rat \<Rightarrow> rat" where
  "jnum dbl b key dflt =
     (if \<not> is_object b then dflt
      else case jfind b key of None \<Rightarrow> dflt | Some v \<Rightarrow> if is_number v then get_double dbl v else dflt)"

definition jint :: "(int \<Rightarrow> rat) \<Rightarrow> json \<Rightarrow> string \<Rightarrow> int \<Rightarrow> int" where
  "jint dbl b key dflt =
     (if \<not> is_object b then dflt
      else case jfind b key of
             None \<Rightarrow> dflt
           | Some it \<Rightarrow>
               if \<not> is_number it then dflt
               else let v = get_double dbl it
                    in if v \<ge> 2147483647 then 2147483647 else if v \<le> - 2147483648 then - 2147483648 else trunc v)"

definition jbool :: "json \<Rightarrow> string \<Rightarrow> bool \<Rightarrow> bool" where
  "jbool b key dflt =
     (if \<not> is_object b then dflt
      else case jfind b key of Some (JBool v) \<Rightarrow> v | _ \<Rightarrow> dflt)"

definition jstr :: "json \<Rightarrow> string \<Rightarrow> string \<Rightarrow> string" where
  "jstr b key dflt =
     (if \<not> is_object b then dflt
      else case jfind b key of Some (JStr v) \<Rightarrow> v | _ \<Rightarrow> dflt)"

section \<open>The billing header\<close>

definition BILLING_PFX :: string where "BILLING_PFX = ''x-anthropic-billing-header:''"

text \<open>\<^verbatim>\<open>for (i = a; i < b; ++i) sys[i] = 'f'\<close>.\<close>

definition pin :: "nat \<Rightarrow> nat \<Rightarrow> string \<Rightarrow> string" where
  "pin a b s = take a s @ replicate (b - a) (CHR ''f'') @ drop (max a b) s"

definition pin_cch :: "string \<Rightarrow> string" where
  "pin_cch sys =
     (case find_at ''cch='' sys 27 of
        None \<Rightarrow> sys
      | Some cch \<Rightarrow>
          if cch \<le> 160 then
            let v = cch + 4
            in case find_at '';'' sys v of
                 None \<Rightarrow> sys
               | Some e \<Rightarrow> if e \<noteq> v \<and> e - v \<le> 16 then pin v e sys else sys
          else sys)"

text \<open>The scan for the third dot: the position behind it.\<close>

fun third_dot :: "nat \<Rightarrow> nat \<Rightarrow> string \<Rightarrow> nat option" where
  "third_dot dots i [] = None"
| "third_dot dots i (c # cs) =
     (if c = CHR ''.'' then (if dots + 1 = 3 then Some (i + 1) else third_dot (dots + 1) (i + 1) cs)
      else third_dot dots (i + 1) cs)"

definition pin_version :: "string \<Rightarrow> string" where
  "pin_version sys =
     (case find_at ''cc_version='' sys 0 of
        None \<Rightarrow> sys
      | Some cv \<Rightarrow>
          if cv > 160 then sys
          else let v = cv + 11
               in case find_at '';'' sys v of
                    None \<Rightarrow> sys
                  | Some e \<Rightarrow>
                      if e \<le> v \<or> e - v > 64 then sys
                      else case third_dot 0 v (substr sys v (e - v)) of
                             None \<Rightarrow> sys
                           | Some j \<Rightarrow> pin j e sys)"

definition normalize_cc_billing_header :: "string \<Rightarrow> string" where
  "normalize_cc_billing_header sys =
     (if \<not> prefix BILLING_PFX sys then sys else pin_version (pin_cch sys))"

section \<open>Texts\<close>

definition tool_call_text :: "(json \<Rightarrow> string) \<Rightarrow> string \<Rightarrow> json \<Rightarrow> string" where
  "tool_call_text dump nm args =
     ''<tool_call>\<newline>{\"name\": \"'' @ nm @ ''\", \"arguments\": '' @ dump args @ ''}\<newline></tool_call>''"

definition tool_response_text :: "string \<Rightarrow> string" where
  "tool_response_text out = ''<tool_response>\<newline>'' @ out @ ''\<newline></tool_response>''"

definition resolve_think :: "json \<Rightarrow> bool \<Rightarrow> bool \<Rightarrow> bool" where
  "resolve_think body server_default allow_request =
     (if \<not> allow_request then server_default
      else
        let t1 = (case jfind body ''enable_thinking'' of Some (JBool b) \<Rightarrow> b | _ \<Rightarrow> server_default);
            t2 = (case jfind body ''chat_template_kwargs'' of
                    Some (JObj kvs) \<Rightarrow> (case jfind (JObj kvs) ''enable_thinking'' of Some (JBool b) \<Rightarrow> b | _ \<Rightarrow> t1)
                  | _ \<Rightarrow> t1)
        in case jfind body ''thinking'' of
             Some (JObj kvs) \<Rightarrow>
               (case jfind (JObj kvs) ''type'' of
                  Some (JStr ty) \<Rightarrow> if ty = ''enabled'' then True else if ty = ''disabled'' then False else t2
                | _ \<Rightarrow> t2)
           | _ \<Rightarrow> t2)"

definition anthropic_error_json :: "(json \<Rightarrow> string) \<Rightarrow> string \<Rightarrow> string \<Rightarrow> string" where
  "anthropic_error_json dump err_type message =
     dump (mk_obj [(''type'', JStr ''error''),
                   (''error'', mk_obj [(''type'', JStr err_type), (''message'', JStr message)])])"

definition ctx_limit_error_message :: "nat \<Rightarrow> nat \<Rightarrow> string" where
  "ctx_limit_error_message n_prompt n_max_prompt =
     ''prompt is too long: '' @ to_string n_prompt @ '' tokens > '' @ to_string n_max_prompt @ '' maximum''"

section \<open>Tool definitions\<close>

definition fn_tool :: "json \<Rightarrow> string \<Rightarrow> json \<Rightarrow> json" where
  "fn_tool nm desc params =
     mk_obj [(''type'', JStr ''function''),
             (''function'', mk_obj [(''name'', nm), (''description'', JStr desc), (''parameters'', params)])]"

fun anthropic_tools :: "json list \<Rightarrow> json list \<Rightarrow> json list jres" where
  "anthropic_tools [] out = Inr out"
| "anthropic_tools (tl' # ts) out =
     (if \<not> is_object tl' \<or> \<not> contains tl' ''name'' then anthropic_tools ts out
      else rbind (jvalue_str tl' ''description'' '''') (\<lambda>d.
        anthropic_tools ts
          (out @ [fn_tool (jat tl' ''name'') d (if contains tl' ''input_schema'' then jat tl' ''input_schema'' else JObj [])])))"

definition anthropic_tools_json :: "json \<Rightarrow> json jres" where
  "anthropic_tools_json body =
     (if contains body ''tools'' \<and> is_array (jat body ''tools'')
      then rbind (anthropic_tools (elements (jat body ''tools'')) []) (\<lambda>out. Inr (JArr out))
      else Inr (JArr []))"

fun openai_tools :: "json list \<Rightarrow> json list \<Rightarrow> json list jres" where
  "openai_tools [] out = Inr out"
| "openai_tools (tl' # ts) out =
     (if \<not> is_object tl' then openai_tools ts out
      else rbind (jvalue_str tl' ''type'' '''') (\<lambda>ty.
        if ty \<noteq> ''function'' then openai_tools ts out
        else if \<not> contains tl' ''function'' \<or> \<not> is_object (jat tl' ''function'') then openai_tools ts out
        else let fn = jat tl' ''function''
             in if \<not> contains fn ''name'' \<or> \<not> is_string (jat fn ''name'') then openai_tools ts out
                else rbind (jvalue_str fn ''description'' '''') (\<lambda>d.
                  openai_tools ts
                    (out @ [fn_tool (jat fn ''name'') d (if contains fn ''parameters'' then jat fn ''parameters'' else JObj [])]))))"

definition openai_tools_json :: "json \<Rightarrow> json jres" where
  "openai_tools_json body =
     (if contains body ''tools'' \<and> is_array (jat body ''tools'')
      then rbind (openai_tools (elements (jat body ''tools'')) []) (\<lambda>out. Inr (JArr out))
      else Inr (JArr []))"

section \<open>Messages\<close>

text \<open>The concatenated texts of the text parts of a content array.\<close>

fun text_parts :: "json list \<Rightarrow> string \<Rightarrow> string jres" where
  "text_parts [] acc = Inr acc"
| "text_parts (b # bs) acc =
     (if \<not> is_object b then text_parts bs acc
      else rbind (jvalue_str b ''type'' '''') (\<lambda>ty.
        if ty = ''text'' then rbind (jvalue_str b ''text'' '''') (\<lambda>s. text_parts bs (acc @ s))
        else text_parts bs acc))"

text \<open>A string or an array of parts; anything else is empty.\<close>

fun text_of :: "json \<Rightarrow> string jres" where
  "text_of (JStr s) = Inr s"
| "text_of (JArr xs) = text_parts xs ''''"
| "text_of _ = Inr ''''"

definition open_line :: "string \<Rightarrow> string" where
  "open_line cont = (if cont \<noteq> [] \<and> last cont \<noteq> CHR 0x0A then cont @ ''\<newline>'' else cont)"

fun anthropic_parts :: "(json \<Rightarrow> string) \<Rightarrow> json list \<Rightarrow> string \<times> string \<Rightarrow> (string \<times> string) jres" where
  "anthropic_parts dump [] (think, cont) = Inr (think, cont)"
| "anthropic_parts dump (part # ps) (think, cont) =
     (if \<not> is_object part then anthropic_parts dump ps (think, cont)
      else rbind (jvalue_str part ''type'' '''') (\<lambda>ty.
        if ty = ''text'' then rbind (jvalue_str part ''text'' '''') (\<lambda>s. anthropic_parts dump ps (think, cont @ s))
        else if ty = ''thinking'' then
          rbind (jvalue_str part ''thinking'' '''') (\<lambda>s. anthropic_parts dump ps (think @ s, cont))
        else if ty = ''tool_use'' then
          rbind (jvalue_str part ''name'' '''') (\<lambda>nm.
            anthropic_parts dump ps
              (think, open_line cont @ tool_call_text dump nm (if contains part ''input'' then jat part ''input'' else JObj [])))
        else if ty = ''tool_result'' then
          rbind (if contains part ''content'' then text_of (jat part ''content'') else Inr '''') (\<lambda>rc.
            anthropic_parts dump ps (think, open_line cont @ tool_response_text rc))
        else anthropic_parts dump ps (think, cont)))"

definition anthropic_content :: "(json \<Rightarrow> string) \<Rightarrow> json \<Rightarrow> (string \<times> string) jres" where
  "anthropic_content dump c =
     (case c of JStr s \<Rightarrow> Inr ('''', s) | JArr xs \<Rightarrow> anthropic_parts dump xs ('''', '''') | _ \<Rightarrow> Inr ('''', ''''))"

definition anthropic_msg :: "(json \<Rightarrow> string) \<Rightarrow> json \<Rightarrow> msg jres" where
  "anthropic_msg dump m =
     rbind (jvalue_str m ''role'' ''user'') (\<lambda>r.
       if \<not> contains m ''content'' then Inr \<lparr>role = r, content = ''''\<rparr>
       else rbind (anthropic_content dump (jat m ''content'')) (\<lambda>(think, cont).
         Inr \<lparr>role = r, content = (if r = ''assistant'' \<and> think \<noteq> [] then ''<think>\<newline>'' @ think @ ''\<newline></think>\<newline>'' @ cont else cont)\<rparr>))"

fun map_objects :: "(json \<Rightarrow> 'a jres) \<Rightarrow> json list \<Rightarrow> 'a list jres" where
  "map_objects f [] = Inr []"
| "map_objects f (m # ms) =
     (if \<not> is_object m then map_objects f ms
      else rbind (f m) (\<lambda>x. rbind (map_objects f ms) (\<lambda>xs. Inr (x # xs))))"

definition anthropic_system :: "json \<Rightarrow> msg list jres" where
  "anthropic_system body =
     (if contains body ''system'' then
        rbind (text_of (jat body ''system'')) (\<lambda>sys.
          Inr (if sys \<noteq> [] then [\<lparr>role = ''system'', content = normalize_cc_billing_header sys\<rparr>] else []))
      else Inr [])"

definition anthropic_msgs :: "(json \<Rightarrow> string) \<Rightarrow> json \<Rightarrow> msg list jres" where
  "anthropic_msgs dump body =
     rbind (anthropic_system body) (\<lambda>sys.
       if \<not> contains body ''messages'' then Inr sys
       else rbind (map_objects (anthropic_msg dump) (elements (jat body ''messages''))) (\<lambda>ms. Inr (sys @ ms)))"

fun openai_calls :: "(string \<Rightarrow> json option) \<Rightarrow> (json \<Rightarrow> string) \<Rightarrow> json list \<Rightarrow> string \<Rightarrow> string jres" where
  "openai_calls parse dump [] cont = Inr cont"
| "openai_calls parse dump (tc # tcs) cont =
     (if \<not> is_object tc \<or> \<not> contains tc ''function'' \<or> \<not> is_object (jat tc ''function'') then openai_calls parse dump tcs cont
      else
        let fn = jat tc ''function''
        in rbind (jvalue_str fn ''name'' '''') (\<lambda>nm.
             let args = (if contains fn ''arguments'' then
                           (case jat fn ''arguments'' of
                              JStr s \<Rightarrow> (case parse s of Some j \<Rightarrow> j | None \<Rightarrow> JStr s)
                            | a \<Rightarrow> a)
                         else JObj [])
             in openai_calls parse dump tcs (open_line cont @ tool_call_text dump nm args)))"

definition openai_msg :: "(string \<Rightarrow> json option) \<Rightarrow> (json \<Rightarrow> string) \<Rightarrow> json \<Rightarrow> msg jres" where
  "openai_msg parse dump m =
     rbind (jvalue_str m ''role'' ''user'') (\<lambda>r0.
       let r = (if r0 = ''developer'' then ''system'' else r0)
       in rbind (if contains m ''content'' then text_of (jat m ''content'') else Inr '''') (\<lambda>cont.
            if r = ''tool'' then Inr \<lparr>role = ''user'', content = tool_response_text cont\<rparr>
            else if r = ''assistant'' \<and> contains m ''tool_calls'' \<and> is_array (jat m ''tool_calls'') then
              rbind (openai_calls parse dump (elements (jat m ''tool_calls'')) cont) (\<lambda>c. Inr \<lparr>role = r, content = c\<rparr>)
            else Inr \<lparr>role = r, content = cont\<rparr>))"

definition openai_msgs :: "(string \<Rightarrow> json option) \<Rightarrow> (json \<Rightarrow> string) \<Rightarrow> json \<Rightarrow> msg list jres" where
  "openai_msgs parse dump body =
     (if \<not> contains body ''messages'' \<or> \<not> is_array (jat body ''messages'') then Inr []
      else map_objects (openai_msg parse dump) (elements (jat body ''messages'')))"

datatype choice_mode = AUTO | NONE | FORCED

record tool_choice =
  mode :: choice_mode
  forced_name :: string

definition parse_tool_choice :: "json \<Rightarrow> tool_choice jres" where
  "parse_tool_choice body =
     (if \<not> contains body ''tool_choice'' then Inr \<lparr>mode = AUTO, forced_name = ''''\<rparr>
      else
        let v = jat body ''tool_choice''
        in case v of
             JStr s \<Rightarrow>
               Inr \<lparr>mode = (if s = ''none'' then NONE else if s = ''required'' then FORCED else AUTO), forced_name = ''''\<rparr>
           | JObj _ \<Rightarrow>
               rbind (jvalue_str v ''type'' '''') (\<lambda>ty.
                 if ty = ''function'' \<and> contains v ''function'' \<and> is_object (jat v ''function'') then
                   rbind (jvalue_str (jat v ''function'') ''name'' '''') (\<lambda>nm. Inr \<lparr>mode = FORCED, forced_name = nm\<rparr>)
                 else Inr \<lparr>mode = AUTO, forced_name = ''''\<rparr>)
           | _ \<Rightarrow> Inr \<lparr>mode = AUTO, forced_name = ''''\<rparr>)"

section \<open>Errors of the mappings\<close>

text \<open>\<open>only302 m\<close>: the only exception \<open>m\<close> throws is the type error of a field of the wrong type.\<close>

definition only302 :: "'a jres \<Rightarrow> bool" where
  "only302 m \<longleftrightarrow> (\<forall>e. m = Inl e \<longrightarrow> e = TypeError302)"

lemma only302_Inr [simp, intro]: "only302 (Inr x)"
  by (simp add: only302_def)

lemma only302_bind [intro!]: "only302 m \<Longrightarrow> (\<And>x. only302 (f x)) \<Longrightarrow> only302 (rbind m f)"
  by (cases m) (auto simp: only302_def)

lemma only302_if [intro!]: "(b \<Longrightarrow> only302 x) \<Longrightarrow> (\<not> b \<Longrightarrow> only302 y) \<Longrightarrow> only302 (if b then x else y)"
  by simp

lemma only302_prod [intro!]: "(\<And>a b. only302 (f a b)) \<Longrightarrow> only302 (case p of (a, b) \<Rightarrow> f a b)"
  by (cases p) simp

lemma only302_value [simp]: "is_object j \<Longrightarrow> only302 (jvalue_str j k d)"
  by (auto simp: only302_def jvalue_str_def split: option.splits json.splits)

lemma only302_text_parts: "only302 (text_parts bs acc)"
  by (induction bs acc rule: text_parts.induct) auto

lemma only302_text_of [simp]: "only302 (text_of j)"
  by (cases j) (auto simp: only302_text_parts)

lemma only302_anthropic_parts: "only302 (anthropic_parts dump ps tc)"
proof (induction ps arbitrary: tc)
  case Nil
  then show ?case by (cases tc) simp
next
  case (Cons part ps)
  obtain think cont where tc: "tc = (think, cont)" by force
  show ?case unfolding tc anthropic_parts.simps
    by (intro only302_if only302_bind Cons.IH only302_value only302_text_of only302_Inr; simp)
qed

lemma only302_map_objects: "(\<And>m. is_object m \<Longrightarrow> only302 (f m)) \<Longrightarrow> only302 (map_objects f ms)"
  by (induction f ms rule: map_objects.induct) auto

lemma only302_openai_calls: "only302 (openai_calls parse dump tcs cont)"
  by (induction parse dump tcs cont rule: openai_calls.induct) (auto simp: Let_def)

lemma only302_anthropic_msg: "is_object m \<Longrightarrow> only302 (anthropic_msg dump m)"
  by (auto simp: anthropic_msg_def anthropic_content_def only302_anthropic_parts split: json.splits prod.splits)

lemma only302_openai_msg: "is_object m \<Longrightarrow> only302 (openai_msg parse dump m)"
  by (auto simp: openai_msg_def Let_def only302_openai_calls)

lemma only302_tools: "only302 (anthropic_tools ts out)" "only302 (openai_tools ts out)"
  by (induction ts arbitrary: out) (auto simp: Let_def)

text \<open>
  C30: no request mapping uses an accessor on a value that is not an object.  For every body
  whatsoever, both message mappings, both tool mappings and the tool choice either succeed or throw
  the type error of a present field of the wrong type; the non-object error, the one the shape guards
  are there for, cannot occur.
\<close>

theorem request_mapping_errors:
  "only302 (anthropic_msgs dump body) \<and> only302 (openai_msgs parse dump body) \<and>
   only302 (anthropic_tools_json body) \<and> only302 (openai_tools_json body) \<and> only302 (parse_tool_choice body)"
proof (intro conjI)
  show "only302 (anthropic_msgs dump body)"
    by (auto simp: anthropic_msgs_def anthropic_system_def only302_map_objects only302_anthropic_msg)
  show "only302 (openai_msgs parse dump body)"
    by (auto simp: openai_msgs_def only302_map_objects only302_openai_msg)
  show "only302 (anthropic_tools_json body)" "only302 (openai_tools_json body)"
    by (auto simp: anthropic_tools_json_def openai_tools_json_def only302_tools)
  show "only302 (parse_tool_choice body)"
    by (auto simp: parse_tool_choice_def Let_def split: json.splits)
qed

text \<open>
  One malformed tool takes down the whole list.  A tool whose description is present and null
  makes the OpenAI tool mapping throw, although its other tool is well-formed.
\<close>

theorem openai_null_description_throws:
  "openai_tools_json (JObj [(''tools'', JArr
     [JObj [(''function'', JObj [(''name'', JStr ''ok'')]), (''type'', JStr ''function'')],
      JObj [(''function'', JObj [(''description'', JNull), (''name'', JStr ''bad'')]), (''type'', JStr ''function'')]])]) =
   Inl TypeError302"
  by code_simp

section \<open>The billing header\<close>

definition pinned_between :: "nat \<Rightarrow> nat \<Rightarrow> string \<Rightarrow> string \<Rightarrow> bool" where
  "pinned_between a b s s' \<longleftrightarrow> length s' = length s \<and>
     (\<forall>i<length s. s' ! i = s ! i \<or> (s' ! i = CHR ''f'' \<and> a \<le> i \<and> i < b))"

lemma pinned_refl [simp, intro]: "pinned_between a b s s"
  by (simp add: pinned_between_def)

lemma pinned_trans: "pinned_between a b s s' \<Longrightarrow> pinned_between a b s' s'' \<Longrightarrow> pinned_between a b s s''"
  unfolding pinned_between_def by metis

lemma pinned_pin: "a \<le> x \<Longrightarrow> x \<le> y \<Longrightarrow> y \<le> b \<Longrightarrow> y \<le> length s \<Longrightarrow> pinned_between a b s (pin x y s)"
  by (auto simp: pinned_between_def pin_def nth_append max_def min_def)

lemma find_at_bounds: "find_at m s i = Some k \<Longrightarrow> i \<le> k \<and> k + length m \<le> length s \<and> prefix m (drop k s)"
  by (auto simp: find_at_def add.commute dest: find_sub_bound find_sub_prefix split: if_splits)

lemma third_dot_bounds: "third_dot dots i cs = Some j \<Longrightarrow> i < j \<and> j \<le> i + length cs"
  by (induction dots i cs rule: third_dot.induct) (fastforce split: if_splits)+

lemma pin_cch_pinned: "pinned_between 27 235 s (pin_cch s)"
proof -
  have "pinned_between 27 235 s (pin v e s)"
    if "find_at ''cch='' s 27 = Some c" "c \<le> 160" "v = c + 4" "find_at '';'' s v = Some e" "e - v \<le> 16" for c v e
    using that find_at_bounds [OF that(1)] find_at_bounds [OF that(4)] by (intro pinned_pin) auto
  then show ?thesis by (auto simp: pin_cch_def Let_def split: option.splits)
qed

text \<open>The version key cannot start inside the header's own prefix.\<close>

lemma version_after_prefix:
  assumes "prefix BILLING_PFX s" "find_at ''cc_version='' s 0 = Some k"
  shows "27 \<le> k"
proof (rule ccontr)
  assume "\<not> 27 \<le> k"
  obtain r where s: "s = BILLING_PFX @ r" using assms(1) by (auto simp: prefix_def)
  have p: "prefix ''cc_version='' (drop k s)" using find_at_bounds [OF assms(2)] by simp
  have len: "length BILLING_PFX = 27" by code_simp
  have "\<forall>k\<in>set [0..<27]. \<not> prefix ''cc_'' (drop k BILLING_PFX @ xs)" for xs
    by (simp add: BILLING_PFX_def numeral_eq_Suc upt_conv_Cons)
  moreover have "prefix ''cc_'' (drop k BILLING_PFX @ r)"
    using p \<open>\<not> 27 \<le> k\<close> len s by (auto simp: prefix_def)
  ultimately show False using \<open>\<not> 27 \<le> k\<close> by auto
qed

lemma pin_version_pinned:
  assumes "prefix BILLING_PFX s"
  shows "pinned_between 27 235 s (pin_version s)"
proof -
  have "pinned_between 27 235 s (pin j e s)"
    if "find_at ''cc_version='' s 0 = Some c" "c \<le> 160" "v = c + 11" "find_at '';'' s v = Some e" "\<not> e \<le> v" "\<not> e - v > 64"
      "third_dot 0 v (substr s v (e - v)) = Some j" for c v e j
    using that version_after_prefix [OF assms that(1)] find_at_bounds [OF that(4)] third_dot_bounds [OF that(7)]
      length_substr_le [of s v "e - v"]
    by (intro pinned_pin) auto
  then show ?thesis by (auto simp: pin_version_def Let_def split: option.splits)
qed

lemma pinned_prefix: "pinned_between 27 b s s' \<Longrightarrow> prefix BILLING_PFX s \<Longrightarrow> prefix BILLING_PFX s'"
proof -
  assume p: "pinned_between 27 b s s'" "prefix BILLING_PFX s"
  have len: "length BILLING_PFX = 27" by code_simp
  have s: "take 27 s = BILLING_PFX" "27 \<le> length s"
    using p(2) len by (auto simp: prefix_def)
  have "take 27 s' = take 27 s"
  proof (rule nth_equalityI)
    show "length (take 27 s') = length (take 27 s)" using p(1) by (simp add: pinned_between_def)
    fix i assume "i < length (take 27 s')"
    then show "take 27 s' ! i = take 27 s ! i"
      using p(1) s(2) unfolding pinned_between_def by (auto dest!: spec [of _ i])
  qed
  then show ?thesis using s by (metis take_is_prefix)
qed

text \<open>
  The normaliser is local.  It never changes the length of the system text, leaves every text
  without the header alone, and otherwise only turns bytes between offsets 27 and 235, behind the
  header's own prefix, into \<^verbatim>\<open>f\<close>.
\<close>

theorem billing_header_local:
  "length (normalize_cc_billing_header s) = length s \<and>
   (\<not> prefix BILLING_PFX s \<longrightarrow> normalize_cc_billing_header s = s) \<and>
   (\<forall>i<length s. normalize_cc_billing_header s ! i = s ! i \<or>
      (normalize_cc_billing_header s ! i = CHR ''f'' \<and> prefix BILLING_PFX s \<and> 27 \<le> i \<and> i < 235))"
proof (cases "prefix BILLING_PFX s")
  case True
  have "pinned_between 27 235 s (normalize_cc_billing_header s)"
    using pinned_trans [OF pin_cch_pinned pin_version_pinned [OF pinned_prefix [OF pin_cch_pinned True]]] True
    by (simp add: normalize_cc_billing_header_def)
  with True show ?thesis by (simp add: pinned_between_def)
qed (simp add: normalize_cc_billing_header_def)

theorem billing_header_local_witness:
  "length (normalize_cc_billing_header ''x-anthropic-billing-header: cch=a5145;You'') =
     length ''x-anthropic-billing-header: cch=a5145;You'' \<and>
   normalize_cc_billing_header ''x-anthropic-billing-header: cch=a5145;You'' = ''x-anthropic-billing-header: cch=fffff;You'' \<and>
   normalize_cc_billing_header ''You'' = ''You''"
proof (intro conjI)
  show "length (normalize_cc_billing_header ''x-anthropic-billing-header: cch=a5145;You'') =
     length ''x-anthropic-billing-header: cch=a5145;You''"
    using billing_header_local by blast
  show "normalize_cc_billing_header ''x-anthropic-billing-header: cch=a5145;You'' = ''x-anthropic-billing-header: cch=fffff;You''"
    by code_simp
  show "normalize_cc_billing_header ''You'' = ''You''"
    using billing_header_local [of "''You''"] by (simp add: BILLING_PFX_def)
qed

lemma find_char_here: "c \<notin> set xs \<Longrightarrow> find_sub [c] (xs @ c # ys) = Some (length xs)"
  by (induction xs) auto

lemma third_dot_at:
  "length (filter (\<lambda>c. c = CHR ''.'') ver) + dots = 2 \<Longrightarrow>
     third_dot dots i (ver @ CHR ''.'' # st) = Some (i + length ver + 1)"
  by (induction ver arbitrary: dots i) auto

definition stamped :: "string \<Rightarrow> string \<Rightarrow> string \<Rightarrow> string" where
  "stamped ver st rest = BILLING_PFX @ '' cc_version='' @ ver @ ''.'' @ st @ '';'' @ rest"

text \<open>
  The version stamp is pinned.  In a header whose version has three components and a stamp behind
  them, the stamp becomes a run of \<^verbatim>\<open>f\<close> of its length and everything else stays; so two
  sessions that differ in stamps of one length send the same system text.
\<close>

theorem billing_version_pinned:
  assumes "length (filter (\<lambda>c. c = CHR ''.'') ver) = 2" "CHR '';'' \<notin> set ver" "CHR '';'' \<notin> set st"
    "length ver + length st \<le> 63" "\<not> sublist ''cch='' (stamped ver st rest)"
  shows "normalize_cc_billing_header (stamped ver st rest) = stamped ver (replicate (length st) (CHR ''f'')) rest"
proof -
  let ?s = "stamped ver st rest" and ?e = "39 + length ver + 1 + length st"
  have nocch: "pin_cch ?s = ?s"
  proof -
    have "find_sub ''cch='' (drop 27 ?s) = None"
      using assms(5) sublist_drop [of 27 ?s] sublist_order.order_trans by (fastforce simp: find_sub_None_iff)
    then show ?thesis by (simp add: pin_cch_def find_at_def)
  qed
  have cv: "find_at ''cc_version='' ?s 0 = Some 28"
    by (simp add: find_at_def stamped_def BILLING_PFX_def)
  have d: "drop 39 ?s = ver @ CHR ''.'' # st @ CHR '';'' # rest"
    by (simp add: stamped_def BILLING_PFX_def)
  have sc: "find_at '';'' ?s 39 = Some ?e"
    using find_char_here [of "CHR '';''" "ver @ CHR ''.'' # st" rest] assms(2,3) d
    by (simp add: find_at_def) (simp add: stamped_def BILLING_PFX_def)
  have sub: "substr ?s 39 (?e - 39) = ver @ CHR ''.'' # st"
    by (simp add: substr_def d)
  have dot: "third_dot 0 39 (substr ?s 39 (?e - 39)) = Some (39 + length ver + 1)"
    unfolding sub using third_dot_at assms(1) by simp
  have "pin_version ?s = pin (39 + length ver + 1) ?e ?s"
    unfolding pin_version_def cv using sc dot assms(4) by (simp add: Let_def)
  also have "\<dots> = stamped ver (replicate (length st) (CHR ''f'')) rest"
  proof -
    define H where "H = BILLING_PFX @ '' cc_version=''"
    have "length H = 39" "?s = H @ ver @ ''.'' @ st @ '';'' @ rest"
      by (simp_all add: H_def BILLING_PFX_def stamped_def)
    moreover have "stamped ver st' rest = H @ ver @ ''.'' @ st' @ '';'' @ rest" for st'
      by (simp add: H_def stamped_def)
    ultimately show ?thesis by (simp add: pin_def)
  qed
  finally show ?thesis
    unfolding normalize_cc_billing_header_def nocch by (simp add: stamped_def)
qed

theorem billing_version_pinned_witness:
  "normalize_cc_billing_header (stamped ''2.1.220'' ''473'' '' You'') = stamped ''2.1.220'' ''fff'' '' You''"
  using billing_version_pinned [of "''2.1.220''" "''473''" "'' You''"]
  by (simp add: stamped_def BILLING_PFX_def sublist_Cons_right numeral_eq_Suc)

end
