(* ===== verification/Tool_Stream.thy ===== *)
theory Tool_Stream
  imports Json_Model
begin

text \<open>
  The repair of drifted tool-call JSON in \<^verbatim>\<open>src/src/api_common.h\<close>: \<open>JsonQuoteContext\<close>,
  \<open>quote_terminates_string\<close>, the buffered \<open>JsonSanitizerStepper\<close> and the incremental
  \<open>ToolCallStreamer\<close>.  The stack of frames has its top at the head.  An index into the source is
  modelled by the byte and the bytes behind it.  The JSON parser is the parameter \<open>parse\<close>.
\<close>

section \<open>Quote context\<close>

record frame =
  kind :: char
  expect_key :: bool

type_synonym quote_ctx = "frame list"

definition opening_string_is_key :: "quote_ctx \<Rightarrow> bool" where
  "opening_string_is_key st = (case st of [] \<Rightarrow> False | f # _ \<Rightarrow> kind f = CHR ''{'' \<and> expect_key f)"

definition in_object :: "quote_ctx \<Rightarrow> bool" where
  "in_object st = (case st of [] \<Rightarrow> False | f # _ \<Rightarrow> kind f = CHR ''{'')"

definition in_array :: "quote_ctx \<Rightarrow> bool" where
  "in_array st = (case st of [] \<Rightarrow> False | f # _ \<Rightarrow> kind f = CHR ''['')"

definition set_expect :: "bool \<Rightarrow> quote_ctx \<Rightarrow> quote_ctx" where
  "set_expect b st = (case st of [] \<Rightarrow> [] | f # fs \<Rightarrow> f\<lparr>expect_key := b\<rparr> # fs)"

definition structural :: "char \<Rightarrow> quote_ctx \<Rightarrow> quote_ctx" where
  "structural c st =
     (if c = CHR ''{'' then \<lparr>kind = CHR ''{'', expect_key = True\<rparr> # st
      else if c = CHR ''['' then \<lparr>kind = CHR ''['', expect_key = False\<rparr> # st
      else if c = CHR ''}'' then (if in_object st then List.tl st else st)
      else if c = CHR '']'' then (if in_array st then List.tl st else st)
      else if c = CHR '':'' \<and> in_object st then set_expect False st
      else if c = CHR '','' \<and> in_object st then set_expect True st
      else st)"

definition is_ws :: "char \<Rightarrow> bool" where
  "is_ws c \<longleftrightarrow> c = CHR '' '' \<or> c = CHR 0x09 \<or> c = CHR 0x0D \<or> c = CHR 0x0A"

definition terminator :: "bool \<Rightarrow> char \<Rightarrow> bool" where
  "terminator key c = (if key then c = CHR '':'' else c = CHR '','' \<or> c = CHR ''}'' \<or> c = CHR '']'')"

fun quote_terminates_string :: "string \<Rightarrow> bool \<Rightarrow> bool" where
  "quote_terminates_string [] key = True"
| "quote_terminates_string (c # s) key = (if is_ws c then quote_terminates_string s key else terminator key c)"

section \<open>The buffered stepper\<close>

record stepper =
  m10_lookahead :: bool
  m5_control :: bool
  sp_depth :: int
  sp_in_str :: bool
  sp_esc :: bool
  sp_key :: bool
  m10_used :: bool
  m5_used :: bool
  sp_ctx :: quote_ctx

definition stepper_init :: "bool \<Rightarrow> bool \<Rightarrow> stepper" where
  "stepper_init m10 m5 = \<lparr>m10_lookahead = m10, m5_control = m5, sp_depth = 0, sp_in_str = False, sp_esc = False,
     sp_key = False, m10_used = False, m5_used = False, sp_ctx = []\<rparr>"

definition ESC_QUOTE :: string where "ESC_QUOTE = [CHR 0x5C, CHR 0x22]"

definition control_escape :: "char \<Rightarrow> string option" where
  "control_escape c =
     (if c = CHR 0x0A then Some [CHR 0x5C, CHR ''n'']
      else if c = CHR 0x0D then Some [CHR 0x5C, CHR ''r'']
      else if c = CHR 0x09 then Some [CHR 0x5C, CHR ''t''] else None)"

text \<open>\<open>sp_step s c rest\<close>: the byte \<open>c\<close> with \<open>rest\<close> behind it in the source.\<close>

definition sp_step :: "stepper \<Rightarrow> char \<Rightarrow> string \<Rightarrow> stepper \<times> string" where
  "sp_step s c rest =
     (if sp_esc s then (s\<lparr>sp_esc := False\<rparr>, [c])
      else if sp_in_str s then
        (if c = CHR 0x5C then (s\<lparr>sp_esc := True\<rparr>, [c])
         else if c = CHR 0x22 then
           (if \<not> m10_lookahead s \<or> quote_terminates_string rest (sp_key s)
            then (s\<lparr>sp_in_str := False\<rparr>, [c])
            else (s\<lparr>m10_used := True\<rparr>, ESC_QUOTE))
         else case (if m5_control s then control_escape c else None) of
                Some e \<Rightarrow> (s\<lparr>m5_used := True\<rparr>, e)
              | None \<Rightarrow> (s, [c]))
      else if c = CHR 0x22 then (s\<lparr>sp_key := opening_string_is_key (sp_ctx s), sp_in_str := True\<rparr>, [c])
      else (s\<lparr>sp_ctx := structural c (sp_ctx s),
              sp_depth := (if c = CHR ''{'' then sp_depth s + 1 else if c = CHR ''}'' then sp_depth s - 1 else sp_depth s)\<rparr>, [c]))"

text \<open>
  The loop around the stepper: it ends when the object that was opened closes, and returns the bytes
  it wrote and the bytes it left.
\<close>

fun sp_scan :: "stepper \<Rightarrow> string \<Rightarrow> stepper \<times> string \<times> string" where
  "sp_scan s [] = (s, [], [])"
| "sp_scan s (c # rest) =
     (case sp_step s c rest of
        (s1, o1) \<Rightarrow>
          if \<not> sp_esc s \<and> \<not> sp_in_str s \<and> c = CHR ''}'' \<and> sp_depth s1 = 0 then (s1, o1, rest)
          else case sp_scan s1 rest of (s2, o2, left) \<Rightarrow> (s2, o1 @ o2, left))"

section \<open>The streamer\<close>

datatype sstate = HEAD | ARGS | DONE | INVALID_DONE | FALLBACK

record streamer =
  st :: sstate
  raw :: string
  sname :: string
  opened :: bool
  head :: string
  trail :: string
  sanitized :: string
  invalid_done :: bool
  depth :: int
  in_str :: bool
  esc :: bool
  string_is_key :: bool
  ctx :: quote_ctx
  pend_q :: bool
  pend_tag :: bool
  outer_seen :: bool
  pend_ws :: string
  tag :: string

definition streamer_init :: streamer where
  "streamer_init = \<lparr>st = HEAD, raw = [], sname = [], opened = False, head = [], trail = [], sanitized = [],
     invalid_done = False, depth = 0, in_str = False, esc = False, string_is_key = False, ctx = [],
     pend_q = False, pend_tag = False, outer_seen = False, pend_ws = [], tag = []\<rparr>"

definition active :: "streamer \<Rightarrow> bool" where "active s \<longleftrightarrow> raw s \<noteq> []"

definition add_trail :: "string \<Rightarrow> streamer \<Rightarrow> streamer" where
  "add_trail x s =
     (if outer_seen s then s\<lparr>trail := trail s @ x\<rparr>
      else case dropWhile is_ws x of
             [] \<Rightarrow> s
           | c # r \<Rightarrow> s\<lparr>outer_seen := True, trail := trail s @ (if c = CHR ''}'' then r else c # r)\<rparr>)"

definition CONTENT_OPEN :: string where "CONTENT_OPEN = ''<content>''"
definition CONTENT_CLOSE :: string where "CONTENT_CLOSE = ''</content>''"

text \<open>The held quote or closing tag, resolved by the next byte that is not whitespace.\<close>

definition escape_ws :: "string \<Rightarrow> string" where
  "escape_ws w = concat (map (\<lambda>c. case control_escape c of Some e \<Rightarrow> e | None \<Rightarrow> [c]) w)"

definition resolve_pending :: "streamer \<Rightarrow> char \<Rightarrow> streamer \<times> string" where
  "resolve_pending s c =
     (if pend_q s \<or> pend_tag s then
        if terminator (string_is_key s) c
        then (s\<lparr>in_str := False, pend_ws := [], pend_q := False, pend_tag := False\<rparr>, [CHR 0x22] @ pend_ws s)
        else (s\<lparr>pend_ws := [], pend_q := False, pend_tag := False\<rparr>,
              (if pend_tag s then CONTENT_CLOSE else ESC_QUOTE) @ escape_ws (pend_ws s))
      else (s, []))"

text \<open>The byte in its resolved context.\<close>

definition plain_byte :: "streamer \<Rightarrow> char \<Rightarrow> streamer \<times> string" where
  "plain_byte s c =
     (if esc s then (s\<lparr>esc := False\<rparr>, [c])
      else if in_str s then
        (if c = CHR 0x5C then (s\<lparr>esc := True\<rparr>, [c])
         else if c = CHR 0x22 then (s\<lparr>pend_q := True\<rparr>, [])
         else if c = CHR ''<'' then (s\<lparr>tag := [c]\<rparr>, [])
         else case control_escape c of Some e \<Rightarrow> (s, e) | None \<Rightarrow> (s, [c]))
      else if c = CHR ''<'' then (s\<lparr>tag := [c]\<rparr>, [])
      else if c = CHR 0x22 then (s\<lparr>string_is_key := opening_string_is_key (ctx s), in_str := True\<rparr>, [c])
      else
        let s1 = s\<lparr>ctx := structural c (ctx s)\<rparr>
        in if c = CHR ''{'' then (s1\<lparr>depth := depth s + 1\<rparr>, [c])
           else if c = CHR ''}'' then
             (if depth s - 1 = 0 then s1\<lparr>depth := depth s - 1, st := DONE\<rparr> else s1\<lparr>depth := depth s - 1\<rparr>, [c])
           else (s1, [c]))"

definition untagged_byte :: "streamer \<Rightarrow> char \<Rightarrow> streamer \<times> string" where
  "untagged_byte s c =
     (if (pend_q s \<or> pend_tag s) \<and> is_ws c then (s\<lparr>pend_ws := pend_ws s @ [c]\<rparr>, [])
      else case resolve_pending s c of (s1, o1) \<Rightarrow> (case plain_byte s1 c of (s2, o2) \<Rightarrow> (s2, o1 @ o2)))"

definition scan_byte :: "streamer \<Rightarrow> char \<Rightarrow> streamer \<times> string" where
  "scan_byte s c =
     (if tag s \<noteq> [] then
        let want = (if in_str s then CONTENT_CLOSE else CONTENT_OPEN)
        in if c = want ! length (tag s) then
             (if length (tag s) + 1 = length want then
                (if in_str s then (s\<lparr>tag := [], pend_tag := True\<rparr>, [])
                 else (s\<lparr>tag := [], in_str := True, string_is_key := False\<rparr>, [CHR 0x22]))
              else (s\<lparr>tag := tag s @ [c]\<rparr>, []))
           else case untagged_byte (s\<lparr>tag := []\<rparr>) c of (s1, o1) \<Rightarrow> (s1, tag s @ o1)
      else untagged_byte s c)"

fun scan :: "streamer \<Rightarrow> string \<Rightarrow> streamer \<times> string" where
  "scan s [] = (s, [])"
| "scan s (c # cs) =
     (case scan_byte s c of
        (s1, o1) \<Rightarrow>
          if st s1 = ARGS then (case scan s1 cs of (s2, o2) \<Rightarrow> (s2, o1 @ o2))
          else (add_trail cs s1, o1))"

section \<open>The head\<close>

datatype 'a need = Need | No | Yes 'a

definition nbind :: "'a need \<Rightarrow> ('a \<Rightarrow> 'b need) \<Rightarrow> 'b need" where
  "nbind m f = (case m of Need \<Rightarrow> Need | No \<Rightarrow> No | Yes x \<Rightarrow> f x)"

definition skip_ws :: "string \<Rightarrow> string need" where
  "skip_ws r = (let r' = dropWhile is_ws r in if r' = [] then Need else Yes r')"

fun lit :: "string \<Rightarrow> string \<Rightarrow> string need" where
  "lit [] r = Yes r"
| "lit (x # xs) [] = Need"
| "lit (x # xs) (c # r) = (if c \<noteq> x then No else lit xs r)"

fun head_name :: "string \<Rightarrow> string \<Rightarrow> (string \<times> string) need" where
  "head_name nm [] = Need"
| "head_name nm (c # r) =
     (if c = CHR 0x5C then No
      else if c = CHR 0x22 then (if nm = [] then No else Yes (nm, r))
      else head_name (nm @ [c]) r)"

definition opt_quote :: "string \<Rightarrow> string need" where
  "opt_quote r = (case r of c # r' \<Rightarrow> if c = CHR 0x22 then Yes r' else Yes r | [] \<Rightarrow> Need)"

text \<open>The name and the bytes from the opening brace of the arguments on.\<close>

definition match_head :: "string \<Rightarrow> (string \<times> string) need" where
  "match_head b =
     nbind (skip_ws b) (\<lambda>r. nbind (lit ''{'' r) (\<lambda>r. nbind (skip_ws r) (\<lambda>r. nbind (lit ''\"name\"'' r) (\<lambda>r.
     nbind (skip_ws r) (\<lambda>r. nbind (lit '':'' r) (\<lambda>r. nbind (skip_ws r) (\<lambda>r. nbind (lit ''\"'' r) (\<lambda>r.
     nbind (head_name [] r) (\<lambda>(nm, r). nbind (skip_ws r) (\<lambda>r. nbind (lit '','' r) (\<lambda>r. nbind (skip_ws r) (\<lambda>r.
     nbind (opt_quote r) (\<lambda>r. nbind (lit ''arguments\"'' r) (\<lambda>r. nbind (skip_ws r) (\<lambda>r. nbind (lit '':'' r) (\<lambda>r.
     nbind (skip_ws r) (\<lambda>r. if hd r \<noteq> CHR ''{'' then No else Yes (nm, r))))))))))))))))))"

definition validate_done :: "(string \<Rightarrow> json option) \<Rightarrow> streamer \<Rightarrow> streamer" where
  "validate_done parse s =
     (if st s \<noteq> DONE then s
      else case parse (sanitized s) of
             Some j \<Rightarrow> if is_object j then s else s\<lparr>invalid_done := True, st := INVALID_DONE\<rparr>
           | None \<Rightarrow> s\<lparr>invalid_done := True, st := INVALID_DONE\<rparr>)"

definition scan_args :: "(string \<Rightarrow> json option) \<Rightarrow> streamer \<Rightarrow> string \<Rightarrow> streamer \<times> string" where
  "scan_args parse s x = (case scan s x of (s1, out) \<Rightarrow> (validate_done parse (s1\<lparr>sanitized := sanitized s1 @ out\<rparr>), out))"

text \<open>The result: the new state, the fragment to stream, and whether this feed completed the head.\<close>

definition sfeed :: "(string \<Rightarrow> json option) \<Rightarrow> streamer \<Rightarrow> string \<Rightarrow> streamer \<times> string \<times> bool" where
  "sfeed parse s0 x =
     (let s = s0\<lparr>raw := raw s0 @ x\<rparr>
      in case st s of
           DONE \<Rightarrow> (add_trail x s, [], False)
         | INVALID_DONE \<Rightarrow> (add_trail x s, [], False)
         | FALLBACK \<Rightarrow> (s, [], False)
         | HEAD \<Rightarrow>
             let s1 = s\<lparr>head := head s @ x\<rparr>
             in (case match_head (head s1) of
                   Need \<Rightarrow> (if length (head s1) > 512 then s1\<lparr>st := FALLBACK\<rparr> else s1, [], False)
                 | No \<Rightarrow> (s1\<lparr>st := FALLBACK\<rparr>, [], False)
                 | Yes (nm, rest) \<Rightarrow>
                     (case scan_args parse (s1\<lparr>st := ARGS, opened := True, sname := nm, head := []\<rparr>) rest of
                        (s2, out) \<Rightarrow> (s2, out, True)))
         | ARGS \<Rightarrow> (case scan_args parse s x of (s2, out) \<Rightarrow> (s2, out, False)))"

definition finalize :: "streamer \<Rightarrow> bool \<times> string \<times> streamer" where
  "finalize s =
     (if st s = DONE then (True, [], s)
      else if st s = ARGS then
        let t1 = tag s; s1 = s\<lparr>tag := []\<rparr>
        in if pend_q s \<or> pend_tag s then (False, t1 @ [CHR 0x22] @ pend_ws s, s1\<lparr>pend_q := False, pend_tag := False\<rparr>)
           else (False, t1, s1)
      else (False, [], s))"

section \<open>Feeding in pieces\<close>

abbreviation with_log :: "string \<Rightarrow> string \<Rightarrow> streamer \<Rightarrow> streamer" where
  "with_log r z s \<equiv> s\<lparr>raw := r, sanitized := z\<rparr>"

lemma add_trail_cases:
  "outer_seen s \<Longrightarrow> add_trail x s = s\<lparr>trail := trail s @ x\<rparr>"
  "\<not> outer_seen s \<Longrightarrow> dropWhile is_ws x = [] \<Longrightarrow> add_trail x s = s"
  "\<not> outer_seen s \<Longrightarrow> dropWhile is_ws x = c # r \<Longrightarrow>
     add_trail x s = s\<lparr>outer_seen := True, trail := trail s @ (if c = CHR ''}'' then r else c # r)\<rparr>"
  unfolding add_trail_def by (simp_all del: dropWhile_eq_Nil_conv)

lemma add_trail_append: "add_trail (x @ y) s = add_trail y (add_trail x s)"
proof (cases "outer_seen s")
  case True
  then show ?thesis by (simp add: add_trail_cases(1))
next
  case False
  show ?thesis
  proof (cases "dropWhile is_ws x")
    case Nil
    then have "dropWhile is_ws (x @ y) = dropWhile is_ws y" by (simp add: dropWhile_append)
    then have "add_trail (x @ y) s = add_trail y s" unfolding add_trail_def using False by (simp only: if_False)
    then show ?thesis by (simp only: add_trail_cases(2) [OF False Nil])
  next
    case (Cons c r)
    then have "\<not> (\<forall>x\<in>set x. is_ws x)" by (metis dropWhile_eq_Nil_conv list.distinct(1))
    then have "dropWhile is_ws (x @ y) = c # r @ y" using Cons by (auto simp: dropWhile_append)
    note add_trail_cases(3) [OF False this] add_trail_cases(3) [OF False Cons]
    then show ?thesis by (simp add: add_trail_cases(1))
  qed
qed

lemma add_trail_st [simp]:
  "st (add_trail x s) = st s" "sanitized (add_trail x s) = sanitized s" "add_trail [] s = s" "raw (add_trail x s) = raw s"
  "head (add_trail x s) = head s"
  by (cases "dropWhile is_ws x"; simp add: add_trail_def del: dropWhile_eq_Nil_conv)+

lemma add_trail_log: "add_trail x (with_log r z s) = with_log r z (add_trail x s)"
  by (cases "dropWhile is_ws x") (simp_all add: add_trail_def del: dropWhile_eq_Nil_conv)

lemma resolve_log: "resolve_pending (with_log r z s) c = map_prod (with_log r z) (\<lambda>x. x) (resolve_pending s c)"
  by (simp add: resolve_pending_def)

lemma plain_log: "plain_byte (with_log r z s) c = map_prod (with_log r z) (\<lambda>x. x) (plain_byte s c)"
  by (simp add: plain_byte_def Let_def split: option.split)

lemma untagged_log: "untagged_byte (with_log r z s) c = map_prod (with_log r z) (\<lambda>x. x) (untagged_byte s c)"
  by (cases "resolve_pending s c") (simp add: untagged_byte_def resolve_log plain_log map_prod_def split_beta)

lemma add_trail_raw [simp]: "(add_trail x s)\<lparr>raw := r\<rparr> = add_trail x (s\<lparr>raw := r\<rparr>)"
  by (cases "dropWhile is_ws x") (simp_all add: add_trail_def del: dropWhile_eq_Nil_conv)

lemma scan_byte_log: "scan_byte (with_log r z s) c = (case scan_byte s c of (s', o') \<Rightarrow> (with_log r z s', o'))"
proof -
  have "(with_log r z s)\<lparr>tag := x\<rparr> = with_log r z (s\<lparr>tag := x\<rparr>)" for x by simp
  then show ?thesis
    unfolding scan_byte_def Let_def
    by (simp only: untagged_log streamer.simps) (simp add: map_prod_def split_beta)
qed

definition kept :: "streamer \<Rightarrow> streamer \<Rightarrow> bool" where
  "kept s s' \<longleftrightarrow> (st s' = st s \<or> st s' = DONE) \<and> raw s' = raw s \<and> sanitized s' = sanitized s \<and> head s' = head s \<and>
     sname s' = sname s"

lemma kept_trans: "kept s s' \<Longrightarrow> kept s' s'' \<Longrightarrow> kept s s''"
  by (auto simp: kept_def)

lemma kept_resolve: "kept s (fst (resolve_pending s c))"
  by (simp add: resolve_pending_def kept_def)

lemma kept_plain: "kept s (fst (plain_byte s c))"
  by (simp add: plain_byte_def Let_def kept_def split: option.split)

lemma kept_untagged: "kept s (fst (untagged_byte s c))"
  using kept_trans [OF kept_resolve kept_plain, of s c]
  by (simp add: untagged_byte_def split_beta) (simp add: kept_def)

lemma kept_scan_byte: "kept s (fst (scan_byte s c))"
proof -
  have "kept s (s\<lparr>tag := []\<rparr>)" by (simp add: kept_def)
  from kept_trans [OF this kept_untagged] kept_untagged [of s c] show ?thesis
    by (simp add: scan_byte_def Let_def split_beta) (simp add: kept_def)
qed

lemma scan_byte_frame:
  "st s = ARGS \<Longrightarrow> scan_byte s c = (s', o') \<Longrightarrow>
     (st s' = ARGS \<or> st s' = DONE) \<and> raw s' = raw s \<and> sanitized s' = sanitized s"
  using kept_scan_byte [of s c] by (auto simp: kept_def)

lemma scan_log: "scan (with_log r z s) x = (case scan s x of (s', o') \<Rightarrow> (with_log r z s', o'))"
proof (induction x arbitrary: s)
  case (Cons c x)
  obtain s1 o1 where b: "scan_byte s c = (s1, o1)" by force
  show ?case using Cons.IH [of s1] b by (simp add: scan_byte_log add_trail_log split: prod.splits)
qed simp

lemma scan_frame:
  "st s = ARGS \<Longrightarrow> scan s x = (s', o') \<Longrightarrow>
     (st s' = ARGS \<or> st s' = DONE) \<and> raw s' = raw s \<and> sanitized s' = sanitized s"
proof (induction x arbitrary: s o')
  case (Cons c x)
  obtain s1 o1 where b: "scan_byte s c = (s1, o1)" by force
  note f = scan_byte_frame [OF Cons.prems(1) b]
  show ?case using Cons.IH [of s1] Cons.prems(2) b f by (auto split: if_splits prod.splits)
qed simp

lemma scan_append:
  "st s = ARGS \<Longrightarrow> scan s (x @ y) =
     (case scan s x of
        (s1, o1) \<Rightarrow> if st s1 = ARGS then (case scan s1 y of (s2, o2) \<Rightarrow> (s2, o1 @ o2)) else (add_trail y s1, o1))"
proof (induction x arbitrary: s)
  case (Cons c x)
  obtain s1 o1 where b: "scan_byte s c = (s1, o1)" by force
  show ?case
  proof (cases "st s1 = ARGS")
    case True
    then show ?thesis using Cons.IH [OF True] b by (auto split: prod.splits)
  next
    case False
    then show ?thesis using b by (simp add: add_trail_append)
  qed
qed (simp split: prod.split)

lemma validate_add_trail: "validate_done parse (add_trail y s) = add_trail y (validate_done parse s)"
  by (cases "dropWhile is_ws y") (simp_all add: validate_done_def add_trail_def del: dropWhile_eq_Nil_conv split: option.splits)

lemma validate_frame:
  "sanitized (validate_done parse s) = sanitized s"
  "raw (validate_done parse s) = raw s" "st s = ARGS \<Longrightarrow> validate_done parse s = s"
  "st s = DONE \<Longrightarrow> st (validate_done parse s) = DONE \<or> st (validate_done parse s) = INVALID_DONE"
  "validate_done parse (s\<lparr>raw := r\<rparr>) = (validate_done parse s)\<lparr>raw := r\<rparr>"
  by (simp_all add: validate_done_def split: option.splits)

lemma scan_raw:
  assumes "st s = ARGS"
  shows "scan (s\<lparr>raw := r\<rparr>) w = (case scan s w of (s', o') \<Rightarrow> (s'\<lparr>raw := r\<rparr>, o'))"
proof -
  obtain s' o' where c: "scan s w = (s', o')" by force
  have "scan (with_log r (sanitized s) s) w = (with_log r (sanitized s) s', o')"
    unfolding scan_log c by simp
  moreover have "with_log r (sanitized s) s = s\<lparr>raw := r\<rparr>" "with_log r (sanitized s) s' = s'\<lparr>raw := r\<rparr>"
    using scan_frame [OF assms c] by simp_all
  ultimately show ?thesis unfolding c by (simp only: prod.case)
qed

lemma scan_args_append:
  assumes "st s = ARGS"
  shows "(case scan_args parse (s\<lparr>raw := R\<rparr>) x of (s1, o1) \<Rightarrow> case sfeed parse s1 y of (s2, o2, b2) \<Rightarrow> (s2, o1 @ o2, b2)) =
    (case scan_args parse (s\<lparr>raw := R @ y\<rparr>) (x @ y) of (s2, out) \<Rightarrow> (s2, out, False))"
proof -
  obtain s1 o1 where b: "scan s x = (s1, o1)" by force
  note f = scan_frame [OF assms b]
  show ?thesis
  proof (cases "st s1 = ARGS")
    case True
    obtain s2 o2 where c: "scan s1 y = (s2, o2)" by force
    note f2 = scan_frame [OF True c]
    have "s1\<lparr>sanitized := z, raw := r\<rparr> = with_log r z s1" for r z by simp
    then have step2: "scan (s1\<lparr>sanitized := sanitized s @ o1, raw := R @ y\<rparr>) y = (with_log (R @ y) (sanitized s @ o1) s2, o2)"
      by (simp only: scan_log c prod.case)
    show ?thesis
      using assms b f True c f2 step2 scan_append [OF assms, of x y]
      by (simp add: sfeed_def scan_args_def scan_raw validate_frame(3))
  next
    case False
    with f have done_st: "st s1 = DONE" by simp
    define v where "v = validate_done parse (with_log R (sanitized s @ o1) s1)"
    have v: "st v \<in> {DONE, INVALID_DONE}" "raw v = R"
      using validate_frame(4) [of "with_log R (sanitized s @ o1) s1" parse] done_st
      by (auto simp: v_def validate_frame(2))
    have first: "scan_args parse (s\<lparr>raw := R\<rparr>) x = (v, o1)"
      using assms f by (simp add: scan_args_def scan_raw b v_def)
    have second: "sfeed parse v y = (add_trail y (v\<lparr>raw := R @ y\<rparr>), [], False)"
      using v by (auto simp: sfeed_def Let_def)
    have "with_log (R @ y) (sanitized s @ o1) s1 = (with_log R (sanitized s @ o1) s1)\<lparr>raw := R @ y\<rparr>"
      by simp
    then have "validate_done parse (with_log (R @ y) (sanitized s @ o1) (add_trail y s1)) = add_trail y (v\<lparr>raw := R @ y\<rparr>)"
      by (simp only: v_def flip: validate_frame(5) validate_add_trail add_trail_log)
    then have "scan_args parse (s\<lparr>raw := R @ y\<rparr>) (x @ y) = (add_trail y (v\<lparr>raw := R @ y\<rparr>), o1)"
      using assms f False scan_append [OF assms, of x y] by (simp add: scan_args_def scan_raw b)
    then show ?thesis by (simp add: first second)
  qed
qed

text \<open>
  A reader of the head is steady when more input never changes a decision it has taken.
\<close>

definition steady :: "(string \<Rightarrow> ('a \<times> string) need) \<Rightarrow> bool" where
  "steady f \<longleftrightarrow> (\<forall>r x. (f r = No \<longrightarrow> f (r @ x) = No) \<and> (\<forall>a r'. f r = Yes (a, r') \<longrightarrow> f (r @ x) = Yes (a, r' @ x)))"

definition plain :: "(string \<Rightarrow> string need) \<Rightarrow> string \<Rightarrow> (unit \<times> string) need" where
  "plain f r = nbind (f r) (\<lambda>r'. Yes ((), r'))"

lemma plain_eq: "plain f r = No \<longleftrightarrow> f r = No" "plain f r = Yes (u, r') \<longleftrightarrow> f r = Yes r'"
  by (cases "f r"; simp add: plain_def nbind_def)+

lemma steady_lit: "steady (plain (lit w))"
proof -
  have "(lit w r = No \<longrightarrow> lit w (r @ x) = No) \<and> (\<forall>r'. lit w r = Yes r' \<longrightarrow> lit w (r @ x) = Yes (r' @ x))" for r x
    by (induction w r rule: lit.induct) auto
  then show ?thesis by (simp add: steady_def plain_eq)
qed

lemma steady_skip: "steady (plain skip_ws)"
proof -
  have "skip_ws (r @ x) = Yes (r' @ x)" if "skip_ws r = Yes r'" for r r' x
  proof -
    from that have "dropWhile is_ws r = r'" "r' \<noteq> []" by (auto simp: skip_ws_def Let_def split: if_splits)
    moreover from this have "\<not> (\<forall>y\<in>set r. is_ws y)" by (metis dropWhile_eq_Nil_conv)
    ultimately show ?thesis by (auto simp: skip_ws_def Let_def dropWhile_append)
  qed
  then show ?thesis by (auto simp: steady_def plain_eq skip_ws_def Let_def)
qed

lemma steady_quote: "steady (plain opt_quote)"
  by (auto simp: steady_def plain_eq opt_quote_def split: list.splits if_splits)

lemma steady_name: "steady (head_name nm)"
proof -
  have "(head_name nm r = No \<longrightarrow> head_name nm (r @ x) = No) \<and>
      (\<forall>a r'. head_name nm r = Yes (a, r') \<longrightarrow> head_name nm (r @ x) = Yes (a, r' @ x))" for r x
    by (induction nm r rule: head_name.induct) auto
  then show ?thesis by (simp add: steady_def)
qed

lemma steady_bind: "steady (plain f) \<Longrightarrow> steady g \<Longrightarrow> steady (\<lambda>r. nbind (f r) g)"
  unfolding steady_def plain_eq nbind_def
  by (auto split: need.splits)

lemma steady_bind_name: "steady f \<Longrightarrow> (\<And>a. steady (g a)) \<Longrightarrow> steady (\<lambda>r. nbind (f r) (\<lambda>(a, r). g a r))"
  unfolding steady_def nbind_def
  by (auto split: need.splits prod.splits)

lemma steady_open: "steady (\<lambda>r. nbind (skip_ws r) (\<lambda>r. if hd r \<noteq> CHR ''{'' then No else Yes (nm, r)))"
proof -
  have *: "skip_ws (r @ x) = Yes (r' @ x) \<and> hd (r' @ x) = hd r'" if "skip_ws r = Yes r'" for r r' x
  proof -
    have "r' \<noteq> []" using that by (auto simp: skip_ws_def Let_def split: if_splits)
    then show ?thesis using steady_skip that by (simp add: steady_def plain_eq)
  qed
  have need: "skip_ws r \<noteq> No" for r by (simp add: skip_ws_def Let_def)
  have eq: "nbind (skip_ws (r @ x)) g = g (r' @ x)" if "skip_ws r = Yes r'" for r r' x and g :: "string \<Rightarrow> ('b \<times> string) need"
    using * [OF that, of x] by (simp add: nbind_def)
  show ?thesis unfolding steady_def
  proof (intro allI)
    fix r x
    show "(nbind (skip_ws r) (\<lambda>r. if hd r \<noteq> CHR ''{'' then No else Yes (nm, r)) = No \<longrightarrow>
        nbind (skip_ws (r @ x)) (\<lambda>r. if hd r \<noteq> CHR ''{'' then No else Yes (nm, r)) = No) \<and>
      (\<forall>a r'. nbind (skip_ws r) (\<lambda>r. if hd r \<noteq> CHR ''{'' then No else Yes (nm, r)) = Yes (a, r') \<longrightarrow>
        nbind (skip_ws (r @ x)) (\<lambda>r. if hd r \<noteq> CHR ''{'' then No else Yes (nm, r)) = Yes (a, r' @ x))"
      using need [of r] eq [of r] * [of r] by (cases "skip_ws r") (auto simp: nbind_def [of "skip_ws r"] nbind_def [of Need] nbind_def [of "Yes y" for y])
  qed
qed

lemma steady_match_head: "steady match_head"
  unfolding match_head_def
  by (intro steady_bind steady_bind_name steady_skip steady_lit steady_quote steady_name steady_open)

lemma match_head_steady:
  "match_head b = No \<Longrightarrow> match_head (b @ x) = No"
  "match_head b = Yes (nm, r) \<Longrightarrow> match_head (b @ x) = Yes (nm, r @ x)"
  using steady_match_head by (auto simp: steady_def)

lemma scan_args_st: "st s = ARGS \<Longrightarrow> st (fst (scan_args parse s x)) \<in> {ARGS, DONE, INVALID_DONE}"
  using scan_frame [of s x] by (cases "scan s x") (auto simp: scan_args_def validate_done_def split: option.splits)

text \<open>What a client of the streamer sees: everything but the head buffer of a body that fell back.\<close>

definition seen :: "streamer \<Rightarrow> streamer" where
  "seen s = (if st s = FALLBACK then s\<lparr>head := []\<rparr> else s)"

fun sfeed_all :: "(string \<Rightarrow> json option) \<Rightarrow> streamer \<Rightarrow> string list \<Rightarrow> streamer \<times> string \<times> bool" where
  "sfeed_all parse s [] = (s, [], False)"
| "sfeed_all parse s (x # xs) =
     (case sfeed parse s x of (s1, o1, b1) \<Rightarrow> case sfeed_all parse s1 xs of (s2, o2, b2) \<Rightarrow> (s2, o1 @ o2, b1 \<or> b2))"

definition seen_eq :: "streamer \<times> string \<times> bool \<Rightarrow> streamer \<times> string \<times> bool \<Rightarrow> bool" where
  "seen_eq a b \<longleftrightarrow> seen (fst a) = seen (fst b) \<and> snd a = snd b"

text \<open>A body whose head is decided within the bound never falls back for its length.\<close>

definition head_bound :: "string \<Rightarrow> bool" where
  "head_bound b \<longleftrightarrow> length b \<le> 512 \<or> match_head (take 512 b) \<noteq> Need"

lemma head_bound_prefix: "head_bound (p @ x) \<Longrightarrow> match_head p = Need \<Longrightarrow> length p \<le> 512"
proof (rule ccontr)
  assume a: "head_bound (p @ x)" "match_head p = Need" "\<not> length p \<le> 512"
  then have "match_head (take 512 p) \<noteq> Need" by (simp add: head_bound_def)
  then have "match_head (take 512 p @ drop 512 p) \<noteq> Need"
    using match_head_steady(1) [of "take 512 p" "drop 512 p"] match_head_steady(2) [of "take 512 p"]
    by (cases "match_head (take 512 p)") (auto simp del: append_take_drop_id)
  with a(2) show False by simp
qed

definition stream_ok :: "streamer \<Rightarrow> string \<Rightarrow> bool" where
  "stream_ok s rest \<longleftrightarrow> st s = HEAD \<longrightarrow> head_bound (head s @ rest) \<and> match_head (head s) = Need"

lemma sfeed_head_need:
  assumes "st s = HEAD" "match_head (head s @ x) = Need" "length (head s @ x) \<le> 512"
  shows "sfeed parse s x = (s\<lparr>raw := raw s @ x, head := head s @ x\<rparr>, [], False)"
  using assms by (simp add: sfeed_def Let_def)

lemma sfeed_two:
  assumes "stream_ok s (x @ y)"
  shows "seen_eq (case sfeed parse s x of (s1, o1, b1) \<Rightarrow> case sfeed parse s1 y of (s2, o2, b2) \<Rightarrow> (s2, o1 @ o2, b1 \<or> b2))
    (sfeed parse s (x @ y)) \<and> stream_ok (fst (sfeed parse s x)) y"
proof (cases "st s")
  case HEAD
  then have hb: "head_bound (head s @ x @ y)" using assms by (simp add: stream_ok_def)
  show ?thesis
  proof (cases "match_head (head s @ x)")
    case Need
    then have l: "length (head s @ x) \<le> 512" using head_bound_prefix [of "head s @ x" y] hb by simp
    let ?s1 = "s\<lparr>raw := raw s @ x, head := head s @ x\<rparr>"
    have "sfeed parse ?s1 y = sfeed parse s (x @ y)"
      using HEAD by (simp add: sfeed_def Let_def split: need.splits)
    then show ?thesis
      using sfeed_head_need [OF HEAD Need l] HEAD hb Need
      by (simp add: seen_eq_def stream_ok_def split: prod.splits)
  next
    case No
    then show ?thesis using HEAD match_head_steady(1) [OF No, of y]
      by (simp add: sfeed_def Let_def seen_eq_def seen_def stream_ok_def)
  next
    case (Yes nr)
    obtain nm r where nr: "nr = (nm, r)" by force
    define s1 where "s1 = s\<lparr>st := ARGS, opened := True, sname := nm, head := []\<rparr>"
    have args: "st s1 = ARGS" by (simp add: s1_def)
    have up: "s\<lparr>raw := R, st := ARGS, opened := True, sname := nm, head := []\<rparr> = s1\<lparr>raw := R\<rparr>" for R
      by (simp add: s1_def)
    have two: "match_head (head s @ x @ y) = Yes (nm, r @ y)"
      using match_head_steady(2) [of "head s @ x" nm r y] Yes nr by simp
    obtain v o1 where v: "scan_args parse (s1\<lparr>raw := raw s @ x\<rparr>) r = (v, o1)" by force
    have one: "sfeed parse s x = (v, o1, True)"
      using HEAD Yes nr v by (simp add: sfeed_def up)
    have both: "sfeed parse s (x @ y) = (case scan_args parse (s1\<lparr>raw := (raw s @ x) @ y\<rparr>) (r @ y) of (s2, out) \<Rightarrow> (s2, out, True))"
      using HEAD two by (simp add: sfeed_def up)
    have "st v \<noteq> HEAD" using v scan_args_st [of "s1\<lparr>raw := raw s @ x\<rparr>" parse r] args by auto
    then show ?thesis
      using scan_args_append [OF args, where parse = parse and R = "raw s @ x" and x = r and y = y] one both v
      by (auto simp: seen_eq_def stream_ok_def split: prod.splits)
  qed
next
  case ARGS
  obtain v o1 where v: "scan_args parse (s\<lparr>raw := raw s @ x\<rparr>) x = (v, o1)" by force
  have one: "sfeed parse s x = (v, o1, False)" using ARGS v by (simp add: sfeed_def)
  have "st v \<noteq> HEAD" using v scan_args_st [of "s\<lparr>raw := raw s @ x\<rparr>" parse x] ARGS by auto
  then show ?thesis
    using scan_args_append [OF ARGS, where parse = parse and R = "raw s @ x" and x = x and y = y] one v ARGS
    by (auto simp: seen_eq_def stream_ok_def sfeed_def [of parse s "x @ y"] split: prod.splits)
next
  case DONE
  then show ?thesis
    by (simp add: sfeed_def Let_def seen_eq_def add_trail_append stream_ok_def)
next
  case INVALID_DONE
  then show ?thesis
    by (simp add: sfeed_def Let_def seen_eq_def add_trail_append stream_ok_def)
next
  case FALLBACK
  then show ?thesis by (simp add: sfeed_def Let_def seen_eq_def stream_ok_def)
qed

lemma seen_sel:
  assumes "seen s = seen s'"
  shows "st s = st s'" "raw s = raw s'" "sname s = sname s'" "opened s = opened s'" "trail s = trail s'"
    "sanitized s = sanitized s'" "invalid_done s = invalid_done s'"
proof -
  have "st (seen s) = st s" "raw (seen s) = raw s" "sname (seen s) = sname s" "opened (seen s) = opened s"
    "trail (seen s) = trail s" "sanitized (seen s) = sanitized s" "invalid_done (seen s) = invalid_done s" for s
    by (simp_all add: seen_def)
  with assms show "st s = st s'" "raw s = raw s'" "sname s = sname s'" "opened s = opened s'" "trail s = trail s'"
    "sanitized s = sanitized s'" "invalid_done s = invalid_done s'" by metis+
qed

lemma sfeed_all_whole: "stream_ok s (concat xs) \<Longrightarrow> seen_eq (sfeed_all parse s xs) (sfeed parse s (concat xs))"
proof (induction xs arbitrary: s)
  case Nil
  have "length (head s) \<le> 512 \<and> match_head (head s) = Need" if "st s = HEAD"
    using Nil that head_bound_prefix [of "head s" "[]"] by (simp add: stream_ok_def)
  then have "seen_eq (s, [], False) (sfeed parse s [])"
    by (cases "st s") (auto simp: sfeed_def seen_eq_def scan_args_def validate_frame(3))
  then show ?case by simp
next
  case (Cons x xs)
  obtain s1 o1 b1 where one: "sfeed parse s x = (s1, o1, b1)" by (metis prod_cases3)
  from sfeed_two [of s x "concat xs" parse] Cons.prems one have
    two: "seen_eq (case sfeed parse s1 (concat xs) of (s2, o2, b2) \<Rightarrow> (s2, o1 @ o2, b1 \<or> b2)) (sfeed parse s (x @ concat xs))"
    and ok: "stream_ok s1 (concat xs)" by simp_all
  from Cons.IH [OF ok] two one show ?case by (auto simp: seen_eq_def split: prod.splits)
qed

section \<open>Properties\<close>


definition demo_body :: string where
  "demo_body = ''{\"name\": \"f\", \"arguments\": {\"a\": \"x\"}}''"


section \<open>The streamer and the buffered stepper agree\<close>

definition in_step :: "streamer \<Rightarrow> stepper \<Rightarrow> bool" where
  "in_step s p \<longleftrightarrow> st s = ARGS \<and> tag s = [] \<and> \<not> pend_q s \<and> \<not> pend_tag s \<and> pend_ws s = [] \<and> esc s = sp_esc p \<and>
     in_str s = sp_in_str p \<and> string_is_key s = sp_key p \<and> ctx s = sp_ctx p \<and> depth s = sp_depth p \<and>
     m10_lookahead p \<and> m5_control p"

text \<open>What the streamer has written at the end of the input, with its held bytes resolved.\<close>

definition flushed :: "streamer \<times> string \<Rightarrow> string" where
  "flushed r = snd r @ fst (snd (finalize (fst r)))"

definition sp_out :: "stepper \<Rightarrow> string \<Rightarrow> string" where
  "sp_out p w = fst (snd (sp_scan p w))"

lemma scan_out_Cons:
  "scan_byte s c = (s1, o1) \<Longrightarrow> st s1 = ARGS \<Longrightarrow> flushed (scan s (c # cs)) = o1 @ flushed (scan s1 cs)"
  "scan_byte s c = (s1, o1) \<Longrightarrow> st s1 = DONE \<Longrightarrow> flushed (scan s (c # cs)) = o1"
  by (cases "scan s1 cs"; simp add: flushed_def) (simp add: flushed_def finalize_def)

lemma sp_out_Cons:
  "sp_step p c cs = (p1, o1) \<Longrightarrow> \<not> (\<not> sp_esc p \<and> \<not> sp_in_str p \<and> c = CHR ''}'' \<and> sp_depth p1 = 0) \<Longrightarrow>
     sp_out p (c # cs) = o1 @ sp_out p1 cs"
  "sp_step p c cs = (p1, o1) \<Longrightarrow> \<not> sp_esc p \<and> \<not> sp_in_str p \<and> c = CHR ''}'' \<and> sp_depth p1 = 0 \<Longrightarrow> sp_out p (c # cs) = o1"
  by (auto simp: sp_out_def split: prod.splits)

lemma sp_out_Nil [simp]: "sp_out p [] = []"
  by (simp add: sp_out_def)

lemma ws_chars: "is_ws c \<Longrightarrow> c \<noteq> CHR 0x22 \<and> c \<noteq> CHR 0x5C \<and> c \<noteq> CHR ''}'' \<and> c \<noteq> CHR ''{'' \<and> structural c x = x"
  by (auto simp: is_ws_def structural_def)

lemma sp_out_ws:
  "list_all is_ws w \<Longrightarrow> \<not> sp_esc p \<Longrightarrow> \<not> sp_in_str p \<Longrightarrow> sp_out p (w @ r) = w @ sp_out p r"
proof (induction w)
  case (Cons c w)
  then have "sp_step p c (w @ r) = (p, [c])" using ws_chars [of c "sp_ctx p"] by (simp add: sp_step_def)
  then show ?case using Cons ws_chars [of c "[]"] by (simp add: sp_out_Cons(1))
qed simp

lemma sp_out_ws_str:
  "list_all is_ws w \<Longrightarrow> \<not> sp_esc p \<Longrightarrow> sp_in_str p \<Longrightarrow> m5_control p \<Longrightarrow>
     \<exists>b. sp_out p (w @ r) = escape_ws w @ sp_out (p\<lparr>m5_used := b\<rparr>) r"
proof (induction w arbitrary: p)
  case Nil
  show ?case by (rule exI [of _ "m5_used p"]) (simp add: escape_ws_def)
next
  case (Cons c w)
  have c: "c \<noteq> CHR 0x22" "c \<noteq> CHR 0x5C" using Cons.prems(1) ws_chars [of c "[]"] by auto
  define p1 where "p1 = (case control_escape c of Some e \<Rightarrow> p\<lparr>m5_used := True\<rparr> | None \<Rightarrow> p)"
  have step: "sp_step p c (w @ r) = (p1, case control_escape c of Some e \<Rightarrow> e | None \<Rightarrow> [c])"
    using Cons.prems c by (simp add: sp_step_def p1_def split: option.splits)
  have p1: "\<not> sp_esc p1" "sp_in_str p1" "m5_control p1" "p1\<lparr>m5_used := b\<rparr> = p\<lparr>m5_used := b\<rparr>" for b
    using Cons.prems by (auto simp: p1_def split: option.splits)
  obtain b where "sp_out p1 (w @ r) = escape_ws w @ sp_out (p1\<lparr>m5_used := b\<rparr>) r"
    using Cons.IH [OF _ p1(1-3)] Cons.prems(1) by auto
  then show ?case
    using sp_out_Cons(1) [OF step] Cons.prems p1(4) by (auto simp: escape_ws_def intro!: exI [of _ b])
qed

lemma scan_pending_ws:
  "list_all is_ws w \<Longrightarrow> st s = ARGS \<Longrightarrow> tag s = [] \<Longrightarrow> pend_q s \<Longrightarrow>
     scan s (w @ r) = scan (s\<lparr>pend_ws := pend_ws s @ w\<rparr>) r"
proof (induction w arbitrary: s)
  case (Cons c w)
  let ?s = "s\<lparr>pend_ws := pend_ws s @ [c]\<rparr>"
  have "scan_byte s c = (?s, [])" using Cons.prems by (simp add: scan_byte_def untagged_byte_def)
  then show ?case using Cons.IH [of ?s] Cons.prems by (simp split: prod.splits)
qed simp

lemma scan_resolve:
  assumes "st s = ARGS" "tag s = []" "pend_q s" "\<not> pend_tag s" "\<not> is_ws c" "resolve_pending s c = (s1, o1)"
  shows "flushed (scan s (c # r)) = o1 @ flushed (scan s1 (c # r))"
proof -
  have s1: "tag s1 = []" "\<not> pend_q s1" "\<not> pend_tag s1" using assms by (auto simp: resolve_pending_def split: if_splits)
  obtain s2 o2 where b: "plain_byte s1 c = (s2, o2)" by force
  have "scan_byte s c = (s2, o1 @ o2)" "scan_byte s1 c = (s2, o2)"
    using assms s1 b by (simp_all add: scan_byte_def untagged_byte_def resolve_pending_def [of s1])
  then show ?thesis by (cases "scan s2 r") (simp add: flushed_def)
qed

lemma quote_split: "quote_terminates_string rest key =
    (case dropWhile is_ws rest of [] \<Rightarrow> True | c # r \<Rightarrow> terminator key c)"
  by (induction rest) auto

text \<open>A byte that is neither a quote inside a string nor the start of a tag is treated alike.\<close>

lemma in_step_byte:
  assumes "in_step s p" "c \<noteq> CHR ''<''" "\<not> (\<not> esc s \<and> in_str s \<and> c = CHR 0x22)"
    "scan_byte s c = (s1, o1)" "sp_step p c cs = (p1, o2)"
  shows "o1 = o2 \<and> (if \<not> sp_esc p \<and> \<not> sp_in_str p \<and> c = CHR ''}'' \<and> sp_depth p1 = 0 then st s1 = DONE else in_step s1 p1)"
proof -
  have b: "scan_byte s c = plain_byte s c"
    using assms(1) by (simp add: in_step_def scan_byte_def untagged_byte_def resolve_pending_def split_beta)
  show ?thesis
    using assms unfolding b in_step_def plain_byte_def sp_step_def Let_def
    by (auto split: if_splits option.splits)
qed

text \<open>The quote inside a string: the stepper looks ahead, the streamer waits.\<close>

lemma stream_quote:
  assumes "in_step s p" "\<not> esc s \<and> in_str s \<and> c = CHR 0x22" "CHR ''<'' \<notin> set r"
    "\<And>w' s' p'. length w' < length w \<Longrightarrow> in_step s' p' \<Longrightarrow> CHR ''<'' \<notin> set w' \<Longrightarrow> flushed (scan s' w') = sp_out p' w'"
    and w: "w = c # r"
  shows "flushed (scan s w) = sp_out p w"
proof -
  define ws where "ws = takeWhile is_ws r"
  define r' where "r' = dropWhile is_ws r"
  have r: "r = ws @ r'" "list_all is_ws ws" by (simp_all add: ws_def r'_def list_all_iff) (meson set_takeWhileD)
  let ?s1 = "s\<lparr>pend_q := True\<rparr>"
  have sb: "scan_byte s c = (?s1, [])"
    using assms(1) assms(2) by (simp add: in_step_def scan_byte_def untagged_byte_def resolve_pending_def plain_byte_def)
  let ?s2 = "?s1\<lparr>pend_ws := ws\<rparr>"
  have pend: "scan ?s1 r = scan ?s2 r'"
    using scan_pending_ws [OF r(2), of ?s1 r'] assms(1) r(1) by (simp add: in_step_def)
  have lhs: "flushed (scan s w) = flushed (scan ?s2 r')"
    using scan_out_Cons(1) [OF sb] assms(1) pend w by (simp add: in_step_def)
  have q: "\<not> sp_esc p" "sp_in_str p" "m10_lookahead p" "m5_control p" "sp_key p = string_is_key s"
    using assms(1) assms(2) by (auto simp: in_step_def)
  show ?thesis
  proof (cases r')
    case Nil
    then have "quote_terminates_string r (sp_key p)" by (simp add: quote_split r'_def [symmetric])
    then have "sp_step p c r = (p\<lparr>sp_in_str := False\<rparr>, [c])" using q assms(2) by (simp add: sp_step_def)
    then have "sp_out p w = [c] @ ws"
      using sp_out_Cons(1) [of p c r] sp_out_ws [OF r(2), of "p\<lparr>sp_in_str := False\<rparr>" "[]"] q w r(1) Nil by simp
    moreover have "flushed (scan ?s2 []) = [CHR 0x22] @ ws"
      using assms(1) by (simp add: flushed_def finalize_def in_step_def)
    ultimately show ?thesis using lhs Nil assms(2) by simp
  next
    case (Cons d r2)
    have d: "\<not> is_ws d" using Cons hd_dropWhile [of is_ws r] by (simp add: r'_def)
    have shorter: "length r' < length w" using r(1) w by simp
    have nolt: "CHR ''<'' \<notin> set r'" using assms(3) r(1) by simp
    have trm: "quote_terminates_string r (sp_key p) = terminator (string_is_key s) d"
      using q Cons by (simp add: quote_split r'_def [symmetric])
    obtain s3 o3 where res: "resolve_pending ?s2 d = (s3, o3)" by force
    have lhs2: "flushed (scan ?s2 r') = o3 @ flushed (scan s3 r')"
      unfolding Cons by (rule scan_resolve) (use assms(1) d res in \<open>simp_all add: in_step_def\<close>)
    show ?thesis
    proof (cases "terminator (string_is_key s) d")
      case True
      have "o3 = [c] @ ws" "in_step s3 (p\<lparr>sp_in_str := False\<rparr>)"
        using res True assms(1) assms(2) by (auto simp: resolve_pending_def in_step_def)
      moreover have "sp_step p c r = (p\<lparr>sp_in_str := False\<rparr>, [c])" using q assms(2) trm True by (simp add: sp_step_def)
      then have "sp_out p w = [c] @ ws @ sp_out (p\<lparr>sp_in_str := False\<rparr>) r'"
        using sp_out_Cons(1) [of p c r] sp_out_ws [OF r(2), of "p\<lparr>sp_in_str := False\<rparr>" r'] q w r(1) by simp
      ultimately show ?thesis using assms(4) [OF shorter _ nolt] lhs lhs2 by simp
    next
      case False
      have o3: "o3 = ESC_QUOTE @ escape_ws ws" "in_step s3 (p\<lparr>m10_used := True, m5_used := b\<rparr>)" for b
        using res False assms(1) assms(2) by (auto simp: resolve_pending_def in_step_def)
      have "sp_step p c r = (p\<lparr>m10_used := True\<rparr>, ESC_QUOTE)" using q assms(2) trm False by (simp add: sp_step_def)
      moreover obtain b where "sp_out (p\<lparr>m10_used := True\<rparr>) (ws @ r') = escape_ws ws @ sp_out (p\<lparr>m10_used := True, m5_used := b\<rparr>) r'"
        using sp_out_ws_str [OF r(2), of "p\<lparr>m10_used := True\<rparr>" r'] q by auto
      ultimately have "sp_out p w = ESC_QUOTE @ escape_ws ws @ sp_out (p\<lparr>m10_used := True, m5_used := b\<rparr>) r'"
        using sp_out_Cons(1) [of p c r] q w r(1) by simp
      then show ?thesis using assms(4) [OF shorter o3(2) nolt] lhs lhs2 o3(1) by simp
    qed
  qed
qed

lemma stream_equals_stepper:
  "in_step s p \<Longrightarrow> CHR ''<'' \<notin> set w \<Longrightarrow> flushed (scan s w) = sp_out p w"
proof (induction "length w" arbitrary: w s p rule: less_induct)
  case less
  show ?case
  proof (cases w)
    case Nil
    then show ?thesis using less.prems(1) by (simp add: flushed_def finalize_def in_step_def)
  next
    case (Cons c r)
    have c: "c \<noteq> CHR ''<''" "CHR ''<'' \<notin> set r" using less.prems(2) Cons by auto
    show ?thesis
    proof (cases "\<not> esc s \<and> in_str s \<and> c = CHR 0x22")
      case False
      obtain s1 o1 p1 o2 where b: "scan_byte s c = (s1, o1)" "sp_step p c r = (p1, o2)" by (meson surj_pair)
      note n = in_step_byte [OF less.prems(1) c(1) False b]
      show ?thesis
      proof (cases "\<not> sp_esc p \<and> \<not> sp_in_str p \<and> c = CHR ''}'' \<and> sp_depth p1 = 0")
        case True
        then show ?thesis using n Cons scan_out_Cons(2) [OF b(1)] sp_out_Cons(2) [OF b(2) True] by (simp del: scan.simps)
      next
        case stop: False
        then have "o1 = o2" "in_step s1 p1" using n by (simp_all only: if_False)
        then show ?thesis
          using less.hyps [of r s1 p1] c(2) Cons scan_out_Cons(1) [OF b(1)] sp_out_Cons(1) [OF b(2) stop]
          by (simp add: in_step_def)
      qed
    next
      case quote: True
      then show ?thesis using stream_quote [OF less.prems(1) quote c(2) _ Cons] less.hyps by blast
    qed
  qed
qed

lemma scan_byte_name: "sname (fst (scan_byte s c)) = sname s"
  using kept_scan_byte by (simp add: kept_def)

lemma scan_name: "sname (fst (scan s x)) = sname s"
proof (induction x arbitrary: s)
  case (Cons c x)
  obtain s1 o1 where b: "scan_byte s c = (s1, o1)" by force
  have t: "sname (add_trail x s1) = sname s1"
    by (cases "dropWhile is_ws x") (simp_all add: add_trail_def del: dropWhile_eq_Nil_conv)
  show ?case using Cons.IH [of s1] scan_byte_name [of s c] b t by (auto split: prod.splits)
qed simp

lemma sp_step_used: "m5_used p \<longrightarrow> m5_used (fst (sp_step p c r))" "m10_used p \<longrightarrow> m10_used (fst (sp_step p c r))"
  by (simp_all add: sp_step_def split: option.splits)

lemma sp_scan_used: "(m5_used p \<longrightarrow> m5_used (fst (sp_scan p w))) \<and> (m10_used p \<longrightarrow> m10_used (fst (sp_scan p w)))"
proof (induction w arbitrary: p)
  case (Cons c w)
  show ?case using Cons.IH [of "fst (sp_step p c w)"] sp_step_used [of p c w] by (auto simp: split_beta)
qed simp

text \<open>
  The streaming repair and the buffered repair apply the same rules.  For a call body whose head
  matches and whose arguments hold no angle bracket, the fragments the streamer sends, with what
  \<open>finalize\<close> adds at the end of the turn, are exactly the bytes the buffered stepper writes for the
  arguments.
\<close>

theorem streamer_equals_stepper:
  assumes "match_head body = Yes (nm, args)" "CHR ''<'' \<notin> set args"
  shows "case sfeed parse streamer_init body of (s, out, op) \<Rightarrow>
    op \<and> sname s = nm \<and> out @ fst (snd (finalize s)) = fst (snd (sp_scan (stepper_init True True) args))"
proof -
  let ?s = "streamer_init\<lparr>raw := body, st := ARGS, opened := True, sname := nm\<rparr>"
  have start: "in_step ?s (stepper_init True True)"
    by (simp add: in_step_def streamer_init_def stepper_init_def)
  have ar: "st ?s = ARGS" by simp
  obtain s1 o1 where b: "scan ?s args = (s1, o1)" by force
  have eq: "o1 @ fst (snd (finalize s1)) = sp_out (stepper_init True True) args"
    using stream_equals_stepper [OF start assms(2)] b by (simp add: flushed_def)
  have nm: "sname s1 = nm" using scan_name [of ?s args] b by simp
  have fin: "fst (snd (finalize (validate_done parse (s1\<lparr>sanitized := z\<rparr>)))) = fst (snd (finalize s1))" for z
    using scan_frame [OF ar b] by (auto simp: validate_done_def finalize_def Let_def split: option.splits)
  have nm2: "sname (validate_done parse (s1\<lparr>sanitized := z\<rparr>)) = nm" for z
    using nm by (simp add: validate_done_def split: option.splits)
  have "sfeed parse streamer_init body =
      (validate_done parse (s1\<lparr>sanitized := sanitized s1 @ o1\<rparr>), o1, True)"
    using assms(1) b by (simp add: sfeed_def scan_args_def streamer_init_def)
  then show ?thesis using eq fin nm2 by (simp add: sp_out_def)
qed

theorem streamer_equals_stepper_witness:
  "match_head demo_body = Yes (''f'', ''{\"a\": \"x\"}}'') \<and>
   (case sfeed (\<lambda>_. None) streamer_init demo_body of (s, out, op) \<Rightarrow>
      out @ fst (snd (finalize s)) = fst (snd (sp_scan (stepper_init True True) ''{\"a\": \"x\"}}'')))"
proof -
  have h: "match_head demo_body = Yes (''f'', ''{\"a\": \"x\"}}'')" by code_simp
  have n: "CHR ''<'' \<notin> set ''{\"a\": \"x\"}}''" by simp
  show ?thesis using h streamer_equals_stepper [OF h n, of "\<lambda>_. None"] by (auto split: prod.splits)
qed

lemma sp_step_copy: "sp_step p c r = (p1, o1) \<Longrightarrow> \<not> m5_used p1 \<Longrightarrow> \<not> m10_used p1 \<Longrightarrow> o1 = [c] \<and> \<not> m5_used p \<and> \<not> m10_used p"
  by (auto simp: sp_step_def split: if_splits option.splits)

text \<open>
  The buffered stepper only repairs.  A scan that reports no repair copied the bytes it consumed
  unchanged; in any case what it consumed and what it left make up the source.
\<close>

theorem stepper_only_repairs:
  "case sp_scan p w of (p', out, left) \<Rightarrow>
     suffix left w \<and> (\<not> m5_used p' \<and> \<not> m10_used p' \<longrightarrow> out @ left = w)"
proof (induction w arbitrary: p)
  case (Cons c w)
  obtain p1 o1 where b: "sp_step p c w = (p1, o1)" by force
  obtain p2 o2 l where s: "sp_scan p1 w = (p2, o2, l)" by (metis prod_cases3)
  have mono: "\<not> m5_used p1 \<and> \<not> m10_used p1" if "\<not> m5_used p2" "\<not> m10_used p2"
    using sp_scan_used [of p1 w] s that by auto
  show ?case using Cons.IH [of p1] b s sp_step_copy [OF b] mono by (auto intro: suffix_ConsI)
qed simp

theorem stepper_only_repairs_witness:
  "sp_scan (stepper_init True True) ''{\"a\": \"x\"} tail'' =
     (fst (sp_scan (stepper_init True True) ''{\"a\": \"x\"} tail''), ''{\"a\": \"x\"}'', '' tail'') \<and>
   suffix '' tail'' ''{\"a\": \"x\"} tail''"
proof -
  have h: "snd (sp_scan (stepper_init True True) ''{\"a\": \"x\"} tail'') = (''{\"a\": \"x\"}'', '' tail'')" by code_simp
  show ?thesis
    using h stepper_only_repairs [where p = "stepper_init True True" and w = "''{\"a\": \"x\"} tail''"] by (auto split: prod.splits)
qed

end
