(* ===== verification/Tool_Recover.thy ===== *)
theory Tool_Recover
  imports Tool_Stream
begin

text \<open>
  The recovery of tool calls that arrive with drifted framing, \<^verbatim>\<open>src/src/api_common.h\<close>: the
  wrapped call, the rewriting of \<^verbatim>\<open><content>\<close> tags, the inference of a tool from the keys of
  its arguments, aliased and shelled calls, the name-dropped batch, and the raw-value rescue.  A throw
  of the JSON library that leaves a function is its error value; one that the code catches is a case.
  The parser is the parameter \<open>parse\<close>, \<open>None\<close> when it throws.
\<close>

section \<open>Calls\<close>

record tool_call =
  ok :: bool
  tc_name :: string
  arguments :: json
  tc_raw :: string

definition is_ws4 :: "char \<Rightarrow> bool" where
  "is_ws4 c \<longleftrightarrow> c \<in> {CHR '' '', CHR 0x09, CHR 0x0D, CHR 0x0A}"

definition strip_ws2 :: "string \<Rightarrow> string" where
  "strip_ws2 s = rev (dropWhile is_ws4 (rev (dropWhile is_ws4 s)))"

section \<open>Content tags\<close>

fun interior_char :: "char \<Rightarrow> string" where
  "interior_char c =
     (if c = CHR 0x22 then [CHR 0x5C, CHR 0x22]
      else if c = CHR 0x5C then [CHR 0x5C, CHR 0x5C]
      else if c = CHR 0x0A then [CHR 0x5C, CHR ''n'']
      else if c = CHR 0x0D then [CHR 0x5C, CHR ''r'']
      else if c = CHR 0x09 then [CHR 0x5C, CHR ''t'']
      else [c])"

definition escape_json_interior :: "string \<Rightarrow> string" where
  "escape_json_interior s = concat (map interior_char s)"

text \<open>
  The last byte that is not whitespace in \<open>text[0..a)\<close>.  For \<open>a = 0\<close> the source searches the whole
  text (the position \<open>a - 1\<close> wraps to \<^verbatim>\<open>npos\<close>).
\<close>

definition last_before :: "string \<Rightarrow> nat \<Rightarrow> char option" where
  "last_before s a =
     (case dropWhile is_ws4 (rev (if a = 0 then s else take a s)) of [] \<Rightarrow> None | c # _ \<Rightarrow> Some c)"

text \<open>\<^verbatim>\<open>text.rfind(m, p)\<close>: the last occurrence that starts at \<open>p\<close> or before.\<close>

definition rfind_upto :: "string \<Rightarrow> string \<Rightarrow> nat \<Rightarrow> nat option" where
  "rfind_upto m s p = rfind_sub m (take (p + length m) s)"

definition escape_content_tags :: "string \<Rightarrow> string" where
  "escape_content_tags s =
     (case find_sub ''<content>'' s of
        Some a \<Rightarrow>
          (let v = a + 9
           in case rfind_sub ''</content>'' s of
                None \<Rightarrow> s
              | Some b \<Rightarrow>
                  if b < v then s
                  else if last_before s a \<noteq> Some (CHR '':'') then s
                  else take a s @ [CHR 0x22] @ escape_json_interior (substr s v (b - v)) @ [CHR 0x22] @ drop (b + 10) s)
      | None \<Rightarrow>
          (case find_sub ''</content>'' s of
             None \<Rightarrow> s
           | Some cl \<Rightarrow>
               (case rfind_upto ''\"content\":'' s cl of
                  None \<Rightarrow> s
                | Some key \<Rightarrow>
                    (case find_at [CHR 0x22] s (key + 10) of
                       None \<Rightarrow> s
                     | Some q \<Rightarrow>
                         if q > cl then s
                         else take q s @ [CHR 0x22] @ escape_json_interior (substr s (q + 1) (cl - q - 1)) @ [CHR 0x22] @
                           drop (cl + 10) s))))"

section \<open>The wrapped call\<close>

definition call_of :: "json \<Rightarrow> (string \<times> json) jres" where
  "call_of j =
     rbind (jvalue_str j ''name'' '''') (\<lambda>nm. Inr (nm, if contains j ''arguments'' then jat j ''arguments'' else JObj []))"

text \<open>
  The fields of the result that were assigned before a throw keep their value; \<open>ok\<close> is then false.
\<close>

definition parse_tool_call :: "(string \<Rightarrow> json option) \<Rightarrow> bool \<Rightarrow> string \<Rightarrow> tool_call" where
  "parse_tool_call parse strict seg =
     (let bad = \<lparr>ok = False, tc_name = [], arguments = JNull, tc_raw = seg\<rparr>
      in case parse (if strict then seg else escape_content_tags seg) of
           None \<Rightarrow> bad
         | Some j \<Rightarrow>
             (case call_of j of
                Inl _ \<Rightarrow> bad
              | Inr (nm, args) \<Rightarrow>
                  if is_string args then
                    (if strict then bad\<lparr>tc_name := nm, arguments := args\<rparr>
                     else case get_str args of
                            Inl _ \<Rightarrow> bad\<lparr>tc_name := nm, arguments := args\<rparr>
                          | Inr s \<Rightarrow>
                              (case parse s of
                                 None \<Rightarrow> bad\<lparr>tc_name := nm, arguments := args\<rparr>
                               | Some a \<Rightarrow> bad\<lparr>ok := nm \<noteq> [], tc_name := nm, arguments := a\<rparr>))
                  else bad\<lparr>ok := nm \<noteq> [], tc_name := nm, arguments := args\<rparr>))"

section \<open>Inferring the tool\<close>

record cand =
  cname :: string
  req_ok :: bool

definition keys_of :: "json \<Rightarrow> string list" where
  "keys_of j = map fst (members j)"

definition tool_props :: "json \<Rightarrow> string list" where
  "tool_props fn =
     (if contains fn ''parameters'' \<and> is_object (jat fn ''parameters'') \<and>
         contains (jat fn ''parameters'') ''properties'' \<and> is_object (jat (jat fn ''parameters'') ''properties'')
      then keys_of (jat (jat fn ''parameters'') ''properties'') else [])"

definition tool_required :: "json \<Rightarrow> string list" where
  "tool_required fn =
     (if contains fn ''parameters'' \<and> is_object (jat fn ''parameters'') \<and>
         contains (jat fn ''parameters'') ''required'' \<and> is_array (jat (jat fn ''parameters'') ''required'')
      then List.map_filter (\<lambda>r. case r of JStr s \<Rightarrow> Some s | _ \<Rightarrow> None) (elements (jat (jat fn ''parameters'') ''required''))
      else [])"

definition score_of :: "string list \<Rightarrow> string list \<Rightarrow> int" where
  "score_of ak props =
     2 * int (length (filter (\<lambda>k. k \<in> set props) ak)) - int (length (filter (\<lambda>k. k \<notin> set props) ak))"

text \<open>One tool: it decides, or it joins or replaces the best candidates.\<close>

definition judge_named :: "string list \<Rightarrow> json \<Rightarrow> string \<Rightarrow> int \<Rightarrow> cand list \<Rightarrow> string + int \<times> cand list" where
  "judge_named ak fn nm best_score best =
     (let props = tool_props fn; req = tool_required fn;
          score = score_of ak props;
          c = \<lparr>cname = nm, req_ok = list_all (\<lambda>r. r \<in> set ak) req\<rparr>
      in if req \<noteq> [] \<and> set req = set ak then Inl nm
         else if filter (\<lambda>k. k \<in> set props) ak \<noteq> [] \<and> score > 0 then
           (if score > best_score then Inr (score, [c])
            else if score = best_score then Inr (best_score, best @ [c])
            else Inr (best_score, best))
         else Inr (best_score, best))"

definition judge_tool :: "string list \<Rightarrow> json \<Rightarrow> int \<Rightarrow> cand list \<Rightarrow> (string + int \<times> cand list) jres" where
  "judge_tool ak t best_score best =
     (if \<not> contains t ''function'' then Inr (Inr (best_score, best))
      else rbind (jvalue_str (jat t ''function'') ''name'' '''') (\<lambda>nm.
        Inr (if nm = [] then Inr (best_score, best) else judge_named ak (jat t ''function'') nm best_score best)))"

text \<open>The loop over the tools: a decisive name, or the best candidates.\<close>

fun infer_loop :: "string list \<Rightarrow> json list \<Rightarrow> int \<Rightarrow> cand list \<Rightarrow> (string + cand list) jres" where
  "infer_loop ak [] best_score best = Inr (Inr best)"
| "infer_loop ak (t # ts) best_score best =
     rbind (judge_tool ak t best_score best) (\<lambda>r.
       case r of Inl nm \<Rightarrow> Inr (Inl nm) | Inr (s, b) \<Rightarrow> infer_loop ak ts s b)"

fun pick_cand :: "cand list \<Rightarrow> string \<Rightarrow> string" where
  "pick_cand [] pick = pick"
| "pick_cand (c # cs) pick =
     (if req_ok c then (if pick \<noteq> [] then [] else pick_cand cs (cname c)) else pick_cand cs pick)"

definition infer_tool_name :: "json \<Rightarrow> json \<Rightarrow> string jres" where
  "infer_tool_name tools args =
     (if \<not> is_array tools \<or> \<not> is_object args then Inr []
      else if keys_of args = [] then Inr []
      else rbind (infer_loop (keys_of args) (elements tools) 0 []) (\<lambda>r.
        case r of
          Inl nm \<Rightarrow> Inr nm
        | Inr best \<Rightarrow> Inr (if length best = 1 then cname (hd best) else pick_cand best [])))"

section \<open>Aliased and shelled calls\<close>

definition alias_key :: "json \<Rightarrow> (string \<times> string) option" where
  "alias_key obj =
     (case find (\<lambda>a. contains obj a \<and> is_string (jat obj a)) [''function'', ''tool'', ''tool_name''] of
        None \<Rightarrow> None
      | Some a \<Rightarrow> (case jat obj a of JStr s \<Rightarrow> Some (a, s) | _ \<Rightarrow> None))"

definition registered_name :: "json \<Rightarrow> string jres" where
  "registered_name tl' =
     (if \<not> is_object tl' then Inr []
      else rbind (if contains tl' ''function'' \<and> is_object (jat tl' ''function'')
                  then jvalue_str (jat tl' ''function'') ''name'' '''' else Inr []) (\<lambda>nm.
        if nm = [] then jvalue_str tl' ''name'' '''' else Inr nm))"

fun is_registered :: "json list \<Rightarrow> string \<Rightarrow> bool jres" where
  "is_registered [] c = Inr False"
| "is_registered (tl' # ts) c =
     rbind (registered_name tl') (\<lambda>nm. if nm = c then Inr True else is_registered ts c)"

definition resolve_aliased_call :: "json \<Rightarrow> json \<Rightarrow> (string \<times> json) option jres" where
  "resolve_aliased_call tools obj =
     (if \<not> is_array tools \<or> \<not> is_object obj then Inr None
      else case alias_key obj of
             None \<Rightarrow> Inr None
           | Some (akey, c) \<Rightarrow>
               if c = [] then Inr None
               else rbind (is_registered (elements tools) c) (\<lambda>reg.
                 if \<not> reg then Inr None
                 else case find (\<lambda>k. contains obj k \<and> is_object (jat obj k)) [''arguments'', ''parameters'', ''input''] of
                        Some k \<Rightarrow> Inr (Some (c, jat obj k))
                      | None \<Rightarrow> Inr (Some (c, JObj (filter (\<lambda>(k, _). k \<noteq> akey) (members obj))))))"

definition SHELLS :: "string list" where
  "SHELLS = [''function'', ''arguments'', ''parameters'', ''input'', ''tool_call'']"

fun peel :: "nat \<Rightarrow> json \<Rightarrow> json \<Rightarrow> (string \<times> json) option jres" where
  "peel 0 tools u = Inr None"
| "peel (Suc hops) tools u =
     (if \<not> is_object u \<or> jsize u \<noteq> 1 then Inr None
      else case find (\<lambda>s. contains u s \<and> is_object (jat u s)) SHELLS of
             None \<Rightarrow> Inr None
           | Some s \<Rightarrow>
               rbind (infer_tool_name tools (jat u s)) (\<lambda>nm.
                 if nm \<noteq> [] then Inr (Some (nm, jat u s)) else peel hops tools (jat u s)))"

text \<open>The name and the arguments the caller is left with; \<open>None\<close> is the empty name.\<close>

definition infer_tool_name_unwrapped :: "json \<Rightarrow> json \<Rightarrow> (string \<times> json) option jres" where
  "infer_tool_name_unwrapped tools args =
     rbind (infer_tool_name tools args) (\<lambda>nm.
       if nm \<noteq> [] then Inr (Some (nm, args))
       else rbind (resolve_aliased_call tools args) (\<lambda>r.
         case r of Some x \<Rightarrow> Inr (Some x) | None \<Rightarrow> peel 3 tools args))"

section \<open>Escaping a raw body\<close>

definition esc_letter :: "char \<Rightarrow> bool" where
  "esc_letter n \<longleftrightarrow> n \<in> {CHR 0x22, CHR 0x5C, CHR ''/'', CHR ''b'', CHR ''f'', CHR ''n'', CHR ''r'', CHR ''t'', CHR ''u''}"

definition hex_char :: "nat \<Rightarrow> char" where
  "hex_char n = ''0123456789abcdef'' ! n"

text \<open>The \<^verbatim>\<open>switch\<close> on a control byte; the default prints \<^verbatim>\<open>\u%04x\<close>.\<close>

definition control_seq :: "char \<Rightarrow> string" where
  "control_seq c =
     (if c = CHR 0x0A then [CHR 0x5C, CHR ''n'']
      else if c = CHR 0x09 then [CHR 0x5C, CHR ''t'']
      else if c = CHR 0x0D then [CHR 0x5C, CHR ''r'']
      else if c = CHR 0x08 then [CHR 0x5C, CHR ''b'']
      else if c = CHR 0x0C then [CHR 0x5C, CHR ''f'']
      else [CHR 0x5C, CHR ''u'', CHR ''0'', CHR ''0'', hex_char (of_char c div 16), hex_char (of_char c mod 16)])"

fun minimal_escape_body :: "string \<Rightarrow> string" where
  "minimal_escape_body [] = []"
| "minimal_escape_body (c # s) =
     (if c = CHR 0x5C then
        (case s of
           n # s' \<Rightarrow> if esc_letter n then CHR 0x5C # n # minimal_escape_body s' else CHR 0x5C # CHR 0x5C # minimal_escape_body s
         | [] \<Rightarrow> [CHR 0x5C, CHR 0x5C])
      else if c = CHR 0x22 then CHR 0x5C # CHR 0x22 # minimal_escape_body s
      else if of_char c < (0x20 :: nat) then control_seq c @ minimal_escape_body s
      else c # minimal_escape_body s)"

section \<open>The first balanced object\<close>

text \<open>The scan over \<open>depth\<close>, \<open>in_str\<close> and \<open>esc\<close>: the bytes up to the brace that closes.\<close>

fun balanced_scan :: "int \<Rightarrow> bool \<Rightarrow> bool \<Rightarrow> string \<Rightarrow> string option" where
  "balanced_scan d ins e [] = None"
| "balanced_scan d ins e (ch # s) =
     (if e then map_option ((#) ch) (balanced_scan d ins False s)
      else if ins then
        map_option ((#) ch)
          (balanced_scan d (if ch = CHR 0x5C then ins else if ch = CHR 0x22 then False else ins) (ch = CHR 0x5C) s)
      else if ch = CHR 0x22 then map_option ((#) ch) (balanced_scan d True False s)
      else if ch = CHR ''{'' then map_option ((#) ch) (balanced_scan (d + 1) False False s)
      else if ch = CHR ''}'' then
        (if d - 1 = 0 then Some [ch] else map_option ((#) ch) (balanced_scan (d - 1) False False s))
      else map_option ((#) ch) (balanced_scan d False False s))"

definition first_balanced_object :: "string \<Rightarrow> string" where
  "first_balanced_object s =
     (case find_sub ''{'' s of
        None \<Rightarrow> []
      | Some start \<Rightarrow> (case balanced_scan 0 False False (drop start s) of None \<Rightarrow> [] | Some r \<Rightarrow> r))"

section \<open>Fences\<close>

text \<open>How many fences start before \<open>pos\<close>, each search beginning behind the last fence.\<close>

function fences_before :: "string \<Rightarrow> nat \<Rightarrow> nat \<Rightarrow> nat" where
  "fences_before s pos f =
     (case find_at ''```'' s f of
        None \<Rightarrow> 0
      | Some g \<Rightarrow> if g < pos then Suc (fences_before s pos (g + 3)) else 0)"
  by pat_completeness auto

lemma find_at_ge: "find_at m s f = Some g \<Longrightarrow> f \<le> g \<and> g + length m \<le> length s"
  using find_sub_bound by (fastforce simp: find_at_def split: if_splits)

termination fences_before
  by (relation "measure (\<lambda>(s, pos, f). length s - f)") (auto dest!: find_at_ge)

declare fences_before.simps [simp del]

definition inside_fence :: "string \<Rightarrow> nat \<Rightarrow> bool" where
  "inside_fence s pos \<longleftrightarrow> odd (fences_before s pos 0)"

section \<open>The raw-value rescue\<close>

definition DQ :: string where "DQ = [CHR 0x22]"

text \<open>The first tool whose \<^verbatim>\<open>function.name\<close> is \<open>nm\<close>; a malformed tool before it throws.\<close>

fun tool_named :: "json list \<Rightarrow> string \<Rightarrow> json option jres" where
  "tool_named [] nm = Inr None"
| "tool_named (t # ts) nm =
     (if \<not> contains t ''function'' then tool_named ts nm
      else rbind (jvalue_str (jat t ''function'') ''name'' '''') (\<lambda>n.
        if n = nm then Inr (Some (jat t ''function'')) else tool_named ts nm))"

fun string_keys :: "(string \<times> json) list \<Rightarrow> string list jres" where
  "string_keys [] = Inr []"
| "string_keys ((k, v) # kvs) =
     (if is_object v
      then rbind (jvalue_str v ''type'' '''') (\<lambda>ty.
        rbind (string_keys kvs) (\<lambda>ks. Inr (if ty = ''string'' then k # ks else ks)))
      else string_keys kvs)"

definition tool_string_keys :: "json \<Rightarrow> string list jres" where
  "tool_string_keys fn =
     (if contains fn ''parameters'' \<and> is_object (jat fn ''parameters'') \<and>
         contains (jat fn ''parameters'') ''properties'' \<and> is_object (jat (jat fn ''parameters'') ''properties'')
      then string_keys (members (jat (jat fn ''parameters'') ''properties'')) else Inr [])"

text \<open>One candidate terminator \<open>cand\<close> of the value that opens at \<open>opener\<close>.\<close>

definition try_cand :: "(string \<Rightarrow> json option) \<Rightarrow> string \<Rightarrow> nat \<Rightarrow> string \<Rightarrow> nat \<Rightarrow> nat \<Rightarrow> tool_call option jres" where
  "try_cand parse tx mo nm opener cand =
     (let body = minimal_escape_body (substr tx (opener + 1) (cand - opener - 1));
          recon = first_balanced_object (substr tx mo (opener - mo) @ DQ @ body @ DQ @ drop (cand + 1) tx)
      in if recon = [] then Inr None
         else case parse recon of
                None \<Rightarrow> Inr None
              | Some obj \<Rightarrow>
                  if \<not> is_object obj then Inr None
                  else rbind (jvalue_str obj ''name'' '''') (\<lambda>n.
                    if n \<noteq> nm then Inr None
                    else Inr (Some \<lparr>ok = True, tc_name = nm,
                      arguments = (if contains obj ''arguments'' \<and> is_object (jat obj ''arguments'')
                                   then jat obj ''arguments'' else JObj []), tc_raw = []\<rparr>)))"

function cand_loop :: "(string \<Rightarrow> json option) \<Rightarrow> string \<Rightarrow> nat \<Rightarrow> string \<Rightarrow> nat \<Rightarrow> nat \<Rightarrow> tool_call option jres" where
  "cand_loop parse tx mo nm opener p =
     (case find_at DQ tx p of
        None \<Rightarrow> Inr None
      | Some cand \<Rightarrow>
          rbind (try_cand parse tx mo nm opener cand) (\<lambda>r.
            case r of Some tc \<Rightarrow> Inr (Some tc) | None \<Rightarrow> cand_loop parse tx mo nm opener (cand + 1)))"
  by pat_completeness auto

termination
  by (relation "measure (\<lambda>(parse, tx, mo, nm, opener, p). Suc (length tx) - p)")
    (auto dest!: find_at_ge simp: DQ_def)

declare cand_loop.simps [simp del]

fun key_loop :: "(string \<Rightarrow> json option) \<Rightarrow> string \<Rightarrow> nat \<Rightarrow> string \<Rightarrow> string list \<Rightarrow> tool_call option jres" where
  "key_loop parse tx mo nm [] = Inr None"
| "key_loop parse tx mo nm (k # ks) =
     (case find_at (DQ @ k @ DQ) tx mo of
        None \<Rightarrow> key_loop parse tx mo nm ks
      | Some kp \<Rightarrow>
          (case find_at '':'' tx (kp + length k + 2) of
             None \<Rightarrow> key_loop parse tx mo nm ks
           | Some kc \<Rightarrow>
               (case find_at DQ tx (kc + 1) of
                  None \<Rightarrow> key_loop parse tx mo nm ks
                | Some opener \<Rightarrow>
                    rbind (cand_loop parse tx mo nm opener (opener + 1)) (\<lambda>r.
                      case r of Some tc \<Rightarrow> Inr (Some tc) | None \<Rightarrow> key_loop parse tx mo nm ks))))"

definition recover_raw_value_call :: "(string \<Rightarrow> json option) \<Rightarrow> string \<Rightarrow> json \<Rightarrow> tool_call option jres" where
  "recover_raw_value_call parse tx tools =
     (case rfind_sub (''{'' @ DQ @ ''name'' @ DQ) tx of
        None \<Rightarrow> Inr None
      | Some mo \<Rightarrow>
          if inside_fence tx mo then Inr None
          else case find_at '':'' tx (mo + 6) of
                 None \<Rightarrow> Inr None
               | Some colon \<Rightarrow>
                   (case find_at DQ tx (colon + 1) of
                      None \<Rightarrow> Inr None
                    | Some q1 \<Rightarrow>
                        (case find_at DQ tx (q1 + 1) of
                           None \<Rightarrow> Inr None
                         | Some q2 \<Rightarrow>
                             (let nm = substr tx (q1 + 1) (q2 - q1 - 1)
                              in rbind (tool_named (elements tools) nm) (\<lambda>f.
                                   case f of
                                     None \<Rightarrow> Inr None
                                   | Some fn \<Rightarrow>
                                       rbind (tool_string_keys fn) (\<lambda>ks. key_loop parse tx mo nm ks))))))"

end
