(* ===== verification/Bare_Calls.thy ===== *)
theory Bare_Calls
  imports Tool_Recover
begin

text \<open>
  \<^verbatim>\<open>parse_bare_tool_calls\<close> of \<^verbatim>\<open>src/src/api_common.h\<close>: the scan of model output for tool calls without
  their wrapper, with every drift mode it recovers.  \<open>strict\<close> is the process-wide switch, \<open>tools\<close>
  the optional registry, \<open>trunc\<close> the permission to repair a truncated tail.  An exception of the JSON
  library that leaves the function is its error value.  The flags that only feed the log line are left
  out; the flag of mode 10 decides whether the raw-value rescue runs and is kept.
\<close>

section \<open>Repairing quotes\<close>

definition ARGQ :: string where "ARGQ = ''arguments'' @ DQ"

text \<open>
  \<^verbatim>\<open>fix_arg_quote\<close>: the position behind a match is the rest of the text, and the byte in front of it
  is carried along (the last byte of a match is a quote).
\<close>

function fix_arg_quote :: "char option \<Rightarrow> string \<Rightarrow> string" where
  "fix_arg_quote prev s =
     (case find_sub ARGQ s of
        None \<Rightarrow> s
      | Some i \<Rightarrow>
          take i s @ (if (if i = 0 then prev else Some (s ! (i - 1))) \<noteq> Some (CHR 0x22) then DQ else []) @ ARGQ @
          fix_arg_quote (Some (CHR 0x22)) (drop (i + 10) s))"
  by pat_completeness auto

termination
  by (relation "measure (\<lambda>(p, s). length s)") (auto dest!: find_sub_bound simp: ARGQ_def)

declare fix_arg_quote.simps [simp del]

definition is_alpha :: "char \<Rightarrow> bool" where
  "is_alpha c \<longleftrightarrow> (CHR ''a'' \<le> c \<and> c \<le> CHR ''z'') \<or> (CHR ''A'' \<le> c \<and> c \<le> CHR ''Z'')"

definition is_alnum :: "char \<Rightarrow> bool" where
  "is_alnum c \<longleftrightarrow> is_alpha c \<or> (CHR ''0'' \<le> c \<and> c \<le> CHR ''9'')"

definition word_char :: "char \<Rightarrow> bool" where
  "word_char c \<longleftrightarrow> is_alnum c \<or> c = CHR ''_'' \<or> c = CHR ''-'' \<or> c = CHR ''.''"

definition NAMEQ :: string where "NAMEQ = DQ @ ''name'' @ DQ @ '':''"

text \<open>
  \<^verbatim>\<open>fix_unquoted_name\<close>: behind the key and the whitespace, a bare word that is a registered tool name
  gets its quotes; the closing one only where none follows.
\<close>

function fix_unquoted :: "json list \<Rightarrow> string \<Rightarrow> string jres" where
  "fix_unquoted ts s =
     (case find_sub NAMEQ s of
        None \<Rightarrow> Inr s
      | Some i \<Rightarrow>
          (let ws = takeWhile is_ws4 (drop (i + 7) s);
               pre = take (i + 7) s @ ws;
               r = dropWhile is_ws4 (drop (i + 7) s);
               word = takeWhile word_char r;
               r' = dropWhile word_char r
           in if r \<noteq> [] \<and> hd r \<noteq> CHR 0x22 \<and> (is_alpha (hd r) \<or> hd r = CHR ''_'') then
                rbind (tool_named ts word) (\<lambda>m.
                  if m \<noteq> None
                  then rbind (fix_unquoted ts (if prefix DQ r' then drop 1 r' else r'))
                         (\<lambda>x. Inr (pre @ DQ @ word @ DQ @ x))
                  else rbind (fix_unquoted ts r) (\<lambda>x. Inr (pre @ x)))
              else rbind (fix_unquoted ts r) (\<lambda>x. Inr (pre @ x))))"
  by pat_completeness auto

lemma length_dropWhile_drop: "length (dropWhile P (drop k s)) \<le> length s - k"
  by (metis length_drop length_dropWhile_le)

lemma fix_unquoted_shrinks:
  assumes "find_sub NAMEQ s = Some i"
  shows "length (dropWhile is_ws4 (drop (i + 7) s)) < length s"
    "length (dropWhile word_char (dropWhile is_ws4 (drop (i + 7) s))) < length s"
proof -
  have "i + 7 \<le> length s" using find_sub_bound [OF assms] by (simp add: NAMEQ_def DQ_def)
  with length_dropWhile_drop [of is_ws4 "i + 7" s]
  show 1: "length (dropWhile is_ws4 (drop (i + 7) s)) < length s" by simp
  show "length (dropWhile word_char (dropWhile is_ws4 (drop (i + 7) s))) < length s"
    by (rule le_less_trans [OF length_dropWhile_le 1])
qed

termination fix_unquoted
  by (relation "measure (\<lambda>(ts, s). length s)")
    (auto dest: fix_unquoted_shrinks intro: le_less_trans [OF diff_le_self])

declare fix_unquoted.simps [simp del]

definition fix_unquoted_name :: "string \<Rightarrow> json option \<Rightarrow> string jres" where
  "fix_unquoted_name s tools =
     (case tools of None \<Rightarrow> Inr s | Some t \<Rightarrow> if \<not> is_array t then Inr s else fix_unquoted (elements t) s)"

section \<open>One segment\<close>

text \<open>
  \<^verbatim>\<open>scan_seg\<close> on the text from \<open>i\<close>: the stepper with its flags, what it wrote, and the offset of the
  brace that closes the object (\<open>None\<close> when the text ends first).
\<close>

fun scan_seg :: "stepper \<Rightarrow> string \<Rightarrow> stepper \<times> string \<times> nat option" where
  "scan_seg s [] = (s, [], None)"
| "scan_seg s (c # rest) =
     (case sp_step s c rest of
        (s1, o1) \<Rightarrow>
          if \<not> sp_in_str s1 \<and> sp_depth s1 = 0 \<and> c = CHR ''}'' then (s1, o1, Some 0)
          else case scan_seg s1 rest of (s2, o2, k) \<Rightarrow> (s2, o1 @ o2, map_option Suc k))"

text \<open>Both passes: the second without the quote lookahead when the first ran to the end on it.\<close>

definition segment :: "string \<Rightarrow> bool \<times> string \<times> nat option" where
  "segment s =
     (case scan_seg (stepper_init True True) s of
        (s1, san, k) \<Rightarrow>
          if k = None \<and> m10_used s1
          then (case scan_seg (stepper_init False True) s of (s2, san2, k2) \<Rightarrow> (m10_used s2, san2, k2))
          else (m10_used s1, san, k))"

section \<open>Repair of a truncated tail\<close>

definition rtrim :: "string \<Rightarrow> string" where
  "rtrim s = rev (dropWhile is_ws4 (rev s))"

function trim_file :: "string \<Rightarrow> string" where
  "trim_file r =
     (if list_all is_ws4 r then r
      else if suffix ''</file>'' (rtrim r) then trim_file (take (length (rtrim r) - 7) (rtrim r))
      else rtrim r)"
  by pat_completeness auto

lemma length_rtrim: "length (rtrim r) \<le> length r"
  using length_dropWhile_le [of is_ws4 "rev r"] by (simp add: rtrim_def)

termination trim_file
proof (relation "measure length")
  fix r assume "suffix ''</file>'' (rtrim r)"
  then have "7 \<le> length (rtrim r)" by (auto simp: suffix_def)
  then show "(take (length (rtrim r) - 7) (rtrim r), r) \<in> measure length" using length_rtrim [of r] by simp
qed simp

declare trim_file.simps [simp del]

text \<open>Depth, open string and pending escape at the end of the text.\<close>

fun tail_state :: "int \<Rightarrow> bool \<Rightarrow> bool \<Rightarrow> string \<Rightarrow> int \<times> bool \<times> bool" where
  "tail_state d ins e [] = (d, ins, e)"
| "tail_state d ins e (ch # s) =
     (if e then tail_state d ins False s
      else if ins then tail_state d (if ch = CHR 0x5C then ins else if ch = CHR 0x22 then False else ins) (ch = CHR 0x5C) s
      else if ch = CHR 0x22 then tail_state d True False s
      else if ch = CHR ''{'' then tail_state (d + 1) False False s
      else if ch = CHR ''}'' then tail_state (d - 1) False False s
      else tail_state d False False s)"

definition close_string :: "bool \<Rightarrow> string \<Rightarrow> string" where
  "close_string e r =
     (if e then butlast r
      else case rfind_sub [CHR 0x5C] r of
             None \<Rightarrow> r
           | Some u \<Rightarrow>
               if u + 1 < length r \<and> r ! (u + 1) = CHR ''u'' \<and> length r - u < 6 \<and> \<not> (0 < u \<and> r ! (u - 1) = CHR 0x5C)
               then take u r else r) @ DQ"

definition close_tail :: "string \<Rightarrow> string" where
  "close_tail san =
     (let r = trim_file san; (d, ins, e) = tail_state 0 False False r
      in (if ins then close_string e r else r) @ replicate (nat d) (CHR ''}''))"

definition shaped :: "json \<Rightarrow> bool" where
  "shaped j \<longleftrightarrow> is_object j \<and> contains j ''name'' \<and> contains j ''arguments''"

section \<open>The scan\<close>

record scan_state =
  out :: "tool_call list"
  first_hit :: "nat option"
  m10_seen :: bool

definition hit :: "nat \<Rightarrow> tool_call \<Rightarrow> scan_state \<Rightarrow> scan_state" where
  "hit i c ss = ss\<lparr>out := out ss @ [c], first_hit := (if first_hit ss = None then Some i else first_hit ss)\<rparr>"

text \<open>Where the loop goes on: behind the brace just looked at, behind the segment, or nowhere.\<close>

datatype move = Inner | Behind nat | Stop

definition repair_step :: "(string \<Rightarrow> json option) \<Rightarrow> bool \<Rightarrow> nat \<Rightarrow> string \<Rightarrow> scan_state \<Rightarrow> scan_state \<times> move" where
  "repair_step parse trunc i san ss =
     (if \<not> trunc \<or> \<not> prefix (''{'' @ DQ @ ''name'' @ DQ) san then (ss, Inner)
      else case parse (close_tail san) of
             None \<Rightarrow> (ss, Inner)
           | Some j \<Rightarrow>
               if \<not> shaped j then (ss, Inner)
               else let tc = parse_tool_call parse False (close_tail san)
                    in if ok tc then (hit i tc ss, Stop) else (ss, Inner))"

definition recovered :: "string \<Rightarrow> json \<Rightarrow> tool_call" where
  "recovered nm args = \<lparr>ok = True, tc_name = nm, arguments = args, tc_raw = []\<rparr>"

text \<open>An object that is no call by its shape: mode 6, the flat call, and mode 8.\<close>

definition odd_object :: "json \<Rightarrow> json \<Rightarrow> nat \<Rightarrow> nat \<Rightarrow> scan_state \<Rightarrow> (scan_state \<times> move) jres" where
  "odd_object tools j i k ss =
     (if contains j ''name'' \<and> is_object (jat j ''name'') \<and> \<not> contains j ''arguments'' then
        rbind (infer_tool_name_unwrapped tools (jat j ''name'')) (\<lambda>r.
          case r of None \<Rightarrow> Inr (ss, Inner) | Some (nm, args) \<Rightarrow> Inr (hit i (recovered nm args) ss, Behind k))
      else
        rbind (if contains j ''name'' \<and> is_string (jat j ''name'')
               then rbind (get_str (jat j ''name'')) (\<lambda>c. rbind (tool_named (elements tools) c) (\<lambda>f.
                      Inr (if f \<noteq> None \<and> c \<noteq> [] then Some c else None)))
               else Inr None) (\<lambda>flat.
          case flat of
            Some c \<Rightarrow>
              Inr (hit i (recovered c (JObj (filter (\<lambda>(key, _). key \<noteq> ''name'') (members j)))) ss, Behind k)
          | None \<Rightarrow>
              rbind (resolve_aliased_call tools j) (\<lambda>r.
                case r of
                  None \<Rightarrow> Inr (ss, Inner)
                | Some (nm, args) \<Rightarrow> Inr (hit i (recovered nm args) ss, Behind k))))"

definition object_step ::
  "(string \<Rightarrow> json option) \<Rightarrow> json option \<Rightarrow> nat \<Rightarrow> string \<Rightarrow> nat \<Rightarrow> scan_state \<Rightarrow> (scan_state \<times> move) jres" where
  "object_step parse tools i san k ss =
     (case parse san of
        None \<Rightarrow> Inr (ss, Inner)
      | Some j \<Rightarrow>
          if shaped j then
            (let tc = parse_tool_call parse False san
             in Inr (if ok tc then (hit i tc ss, Behind k) else (ss, Inner)))
          else if \<not> is_object j then Inr (ss, Inner)
          else case tools of None \<Rightarrow> Inr (ss, Inner) | Some t \<Rightarrow> odd_object t j i k ss)"

definition brace_step ::
  "(string \<Rightarrow> json option) \<Rightarrow> json option \<Rightarrow> bool \<Rightarrow> string \<Rightarrow> nat \<Rightarrow> scan_state \<Rightarrow> (scan_state \<times> move) jres" where
  "brace_step parse tools trunc tx i ss =
     (if inside_fence tx i then Inr (ss, Inner)
      else case segment (drop i tx) of
             (m10, san, k) \<Rightarrow>
               (let ss1 = ss\<lparr>m10_seen := m10_seen ss \<or> m10\<rparr>
                in case k of
                     None \<Rightarrow> Inr (repair_step parse trunc i san ss1)
                   | Some k \<Rightarrow> object_step parse tools i san k ss1))"

function scan_loop ::
  "(string \<Rightarrow> json option) \<Rightarrow> json option \<Rightarrow> bool \<Rightarrow> string \<Rightarrow> nat \<Rightarrow> scan_state \<Rightarrow> scan_state jres" where
  "scan_loop parse tools trunc tx p ss =
     (case find_at ''{'' tx p of
        None \<Rightarrow> Inr ss
      | Some i \<Rightarrow>
          rbind (brace_step parse tools trunc tx i ss) (\<lambda>(ss', mv).
            case mv of
              Inner \<Rightarrow> scan_loop parse tools trunc tx (Suc i) ss'
            | Behind k \<Rightarrow> scan_loop parse tools trunc tx (Suc (i + k)) ss'
            | Stop \<Rightarrow> Inr ss'))"
  by pat_completeness auto

termination
  by (relation "measure (\<lambda>(parse, tools, trunc, tx, p, ss). Suc (length tx) - p)") (auto dest!: find_at_ge)

declare scan_loop.simps [simp del]

section \<open>The name-dropped batch\<close>

text \<open>\<^verbatim>\<open>scan_namedropped\<close>; a throw of the inference is caught there.\<close>

definition named_unit :: "(string \<Rightarrow> json option) \<Rightarrow> json \<Rightarrow> nat \<Rightarrow> string \<Rightarrow> scan_state \<Rightarrow> scan_state" where
  "named_unit parse tools p san ss =
     (case parse san of
        None \<Rightarrow> ss
      | Some args \<Rightarrow>
          if \<not> is_object args then ss
          else case infer_tool_name_unwrapped tools args of
                 Inl _ \<Rightarrow> ss
               | Inr None \<Rightarrow> ss
               | Inr (Some (nm, args')) \<Rightarrow> hit p (recovered nm args') ss)"

function scan_namedropped :: "(string \<Rightarrow> json option) \<Rightarrow> json \<Rightarrow> string \<Rightarrow> nat \<Rightarrow> scan_state \<Rightarrow> scan_state" where
  "scan_namedropped parse tools tx p ss =
     (case find_at (''{'' @ NAMEQ) tx p of
        None \<Rightarrow> ss
      | Some p \<Rightarrow>
          (let q = p + 8 + length (takeWhile is_ws4 (drop (p + 8) tx))
           in if q \<ge> length tx \<or> tx ! q \<noteq> CHR ''{'' then scan_namedropped parse tools tx (p + 8) ss
              else case scan_seg (stepper_init True True) (drop q tx) of
                     (_, san, None) \<Rightarrow> ss
                   | (_, san, Some k) \<Rightarrow>
                       scan_namedropped parse tools tx (Suc (q + k)) (named_unit parse tools p san ss)))"
  by pat_completeness auto

termination
  by (relation "measure (\<lambda>(parse, tools, tx, p, ss). Suc (length tx) - p)") (auto dest!: find_at_ge)

declare scan_namedropped.simps [simp del]

section \<open>The whole parser\<close>

definition drop_suffix :: "string \<Rightarrow> string \<Rightarrow> string" where
  "drop_suffix x p = (if suffix x p then strip_ws2 (take (length p - length x) p) else p)"

definition hit_prefix :: "string \<Rightarrow> scan_state \<Rightarrow> string" where
  "hit_prefix tx ss =
     (case first_hit ss of
        None \<Rightarrow> []
      | Some i \<Rightarrow>
          drop_suffix (''{'' @ NAMEQ) (drop_suffix (''{'' @ DQ @ ''tool_call'' @ DQ @ '':'') (strip_ws2 (take i tx))))"

definition normalize_text :: "json option \<Rightarrow> string \<Rightarrow> string jres" where
  "normalize_text tools text_in = fix_unquoted_name (fix_arg_quote None (escape_content_tags text_in)) tools"

definition main_scan ::
  "(string \<Rightarrow> json option) \<Rightarrow> json option \<Rightarrow> bool \<Rightarrow> string \<Rightarrow> scan_state jres" where
  "main_scan parse tools trunc tx =
     rbind (scan_loop parse tools trunc tx 0 \<lparr>out = [], first_hit = None, m10_seen = False\<rparr>) (\<lambda>ss.
       Inr (case tools of
              Some t \<Rightarrow>
                if out ss = [] \<and> find_sub (''{'' @ NAMEQ) tx \<noteq> None then scan_namedropped parse t tx 0 ss else ss
            | None \<Rightarrow> ss))"

text \<open>The raw-value rescue at the end, on the calls and the prefix found so far.\<close>

definition raw_stage ::
  "(string \<Rightarrow> json option) \<Rightarrow> json option \<Rightarrow> string \<Rightarrow> bool \<Rightarrow> tool_call list \<times> string \<Rightarrow> (tool_call list \<times> string) jres" where
  "raw_stage parse tools tx m10 res =
     (case tools of
        None \<Rightarrow> Inr res
      | Some t \<Rightarrow>
          if \<not> is_array t \<or> \<not> (fst res = [] \<or> m10) then Inr res
          else rbind (recover_raw_value_call parse tx t) (\<lambda>r.
            case r of
              None \<Rightarrow> Inr res
            | Some tc \<Rightarrow>
                Inr (if m10 \<and> length (fst res) > 1 then butlast (fst res) @ [tc] else [tc],
                     case rfind_sub (''{'' @ DQ @ ''name'' @ DQ) tx of None \<Rightarrow> [] | Some mo \<Rightarrow> strip_ws2 (take mo tx))))"

text \<open>A call without the splice of mode 10 (\<^verbatim>\<open>allow_o10 = false\<close>).\<close>

definition parse_bare_once ::
  "(string \<Rightarrow> json option) \<Rightarrow> json option \<Rightarrow> bool \<Rightarrow> string \<Rightarrow> (tool_call list \<times> string) jres" where
  "parse_bare_once parse tools trunc text_in =
     rbind (normalize_text tools text_in) (\<lambda>tx.
       rbind (main_scan parse tools trunc tx) (\<lambda>ss.
         raw_stage parse tools tx (m10_seen ss) (out ss, hit_prefix tx ss)))"

fun splice_loop ::
  "(string \<Rightarrow> json option) \<Rightarrow> json \<Rightarrow> bool \<Rightarrow> string \<Rightarrow> json list \<Rightarrow> (tool_call list \<times> string) \<Rightarrow> (tool_call list \<times> string) jres"
where
  "splice_loop parse tools trunc tx [] res = Inr res"
| "splice_loop parse tools trunc tx (t # ts) res =
     rbind (if contains t ''function'' then jvalue_str (jat t ''function'') ''name'' '''' else Inr []) (\<lambda>nm.
       if nm = [] then splice_loop parse tools trunc tx ts res
       else case find_sub (nm @ DQ @ '', '' @ DQ) tx of
              None \<Rightarrow> splice_loop parse tools trunc tx ts res
            | Some p \<Rightarrow>
                if 0 < p \<and> tx ! (p - 1) = CHR 0x22 then splice_loop parse tools trunc tx ts res
                else
                  (let synth = take p tx @ ''{'' @ DQ @ ''name'' @ DQ @ '': '' @ DQ @ drop p tx;
                       synth' = (if find_sub ''}'' synth = None then synth @ ''}'' else synth)
                   in rbind (parse_bare_once parse (Some tools) trunc synth') (\<lambda>rec.
                        if fst rec \<noteq> [] then Inr rec else splice_loop parse tools trunc tx ts res)))"

definition parse_bare_tool_calls ::
  "(string \<Rightarrow> json option) \<Rightarrow> bool \<Rightarrow> json option \<Rightarrow> bool \<Rightarrow> string \<Rightarrow> (tool_call list \<times> string) jres" where
  "parse_bare_tool_calls parse strict tools trunc text_in =
     (if strict then Inr ([], [])
      else rbind (normalize_text tools text_in) (\<lambda>tx.
        rbind (main_scan parse tools trunc tx) (\<lambda>ss.
          rbind (case tools of
                   None \<Rightarrow> Inr (out ss, hit_prefix tx ss)
                 | Some t \<Rightarrow>
                     if out ss = [] \<and> is_array t
                     then splice_loop parse t trunc tx (elements t) (out ss, hit_prefix tx ss)
                     else Inr (out ss, hit_prefix tx ss)) (\<lambda>res.
            raw_stage parse tools tx (m10_seen ss) res))))"

definition parse_bare_tool_call ::
  "(string \<Rightarrow> json option) \<Rightarrow> bool \<Rightarrow> json option \<Rightarrow> string \<Rightarrow> (tool_call \<times> string) jres" where
  "parse_bare_tool_call parse strict tools text_in =
     rbind (parse_bare_tool_calls parse strict tools True text_in) (\<lambda>(v, pre).
       Inr (if v = [] then \<lparr>ok = False, tc_name = [], arguments = JNull, tc_raw = []\<rparr> else hd v, pre))"

section \<open>Recovered calls name registered tools\<close>

text \<open>The names a registry offers: \<^verbatim>\<open>function.name\<close>, or the top-level name an alias may match.\<close>

definition registered :: "json \<Rightarrow> string \<Rightarrow> bool" where
  "registered tools nm \<longleftrightarrow>
     (\<exists>t\<in>set (elements tools).
        contains t ''function'' \<and> jvalue_str (jat t ''function'') ''name'' '''' = Inr nm \<or> registered_name t = Inr nm)"

lemma rbind_Inr: "rbind m f = Inr y \<longleftrightarrow> (\<exists>x. m = Inr x \<and> f x = Inr y)"
  by (auto simp: rbind_def split: sum.splits)

lemma tool_named_registered: "tool_named ts nm = Inr (Some fn) \<Longrightarrow> set ts \<subseteq> set (elements tools) \<Longrightarrow> registered tools nm"
  by (induction ts nm rule: tool_named.induct) (auto simp: rbind_Inr registered_def split: if_splits)

lemma judge_tool_registered:
  assumes "judge_tool ak t sc best = Inr r" "t \<in> set (elements tools)" "\<forall>c\<in>set best. registered tools (cname c)"
  shows "case r of Inl nm \<Rightarrow> registered tools nm | Inr (s, b) \<Rightarrow> \<forall>c\<in>set b. registered tools (cname c)"
proof (cases "contains t ''function''")
  case False
  with assms show ?thesis by (auto simp: judge_tool_def)
next
  case True
  with assms(1) obtain nm where nm: "jvalue_str (jat t ''function'') ''name'' '''' = Inr nm"
    and r: "r = (if nm = [] then Inr (sc, best) else judge_named ak (jat t ''function'') nm sc best)"
    by (auto simp: judge_tool_def rbind_Inr)
  have "registered tools nm" using nm True assms(2) by (auto simp: registered_def)
  then show ?thesis using assms(3) r by (simp add: judge_named_def Let_def)
qed

lemma infer_loop_registered:
  assumes "infer_loop ak ts sc best = Inr r" "set ts \<subseteq> set (elements tools)"
    "\<forall>c\<in>set best. registered tools (cname c)"
  shows "case r of Inl nm \<Rightarrow> registered tools nm | Inr cs \<Rightarrow> \<forall>c\<in>set cs. registered tools (cname c)"
  using assms
proof (induction ts arbitrary: sc best)
  case (Cons t ts)
  then obtain q where q: "judge_tool ak t sc best = Inr q"
    and r: "(case q of Inl nm \<Rightarrow> Inr (Inl nm) | Inr (s, b) \<Rightarrow> infer_loop ak ts s b) = Inr r"
    by (auto simp: rbind_Inr)
  note j = judge_tool_registered [OF q _ Cons.prems(3)]
  show ?case
  proof (cases q)
    case (Inl nm)
    then show ?thesis using r j Cons.prems(2) by auto
  next
    case (Inr sb)
    then obtain s b where "q = Inr (s, b)" by (cases sb) simp
    then show ?thesis using r j Cons.prems(2) Cons.IH [of s b] by simp
  qed
qed auto

lemma pick_cand_in: "pick_cand cs p = nm \<Longrightarrow> nm = [] \<or> nm = p \<or> nm \<in> cname ` set cs"
  by (induction cs p rule: pick_cand.induct) (auto split: if_splits)

lemma infer_registered:
  assumes "infer_tool_name tools args = Inr nm" "nm \<noteq> []" shows "registered tools nm"
proof -
  from assms obtain r where r: "infer_loop (keys_of args) (elements tools) 0 [] = Inr r"
    by (cases "infer_loop (keys_of args) (elements tools) 0 []") (auto simp: infer_tool_name_def split: if_split_asm)
  then have nm: "nm = (case r of Inl n \<Rightarrow> n | Inr best \<Rightarrow> if length best = 1 then cname (hd best) else pick_cand best [])"
    using assms by (cases r) (auto simp: infer_tool_name_def split: if_split_asm)
  have *: "case r of Inl nm \<Rightarrow> registered tools nm | Inr cs \<Rightarrow> \<forall>c\<in>set cs. registered tools (cname c)"
    by (rule infer_loop_registered [OF r order_refl]) simp
  show ?thesis
  proof (cases r)
    case (Inr best)
    with nm have "nm = cname (hd best) \<and> length best = 1 \<or> nm = pick_cand best []" by (auto split: if_splits)
    then have "nm \<in> cname ` set best"
      using pick_cand_in [of best "[]" nm] assms(2) by (cases best) auto
    then show ?thesis using * Inr by auto
  qed (use * nm in simp)
qed

lemma alias_registered:
  "resolve_aliased_call tools obj = Inr (Some (nm, args)) \<Longrightarrow> registered tools nm"
proof -
  assume a: "resolve_aliased_call tools obj = Inr (Some (nm, args))"
  have reg: "is_registered ts c = Inr True \<Longrightarrow> set ts \<subseteq> set (elements tools) \<Longrightarrow> registered tools c" for ts c
    by (induction ts c rule: is_registered.induct) (auto simp: rbind_Inr registered_def split: if_splits)
  from a show ?thesis
    by (auto simp: resolve_aliased_call_def rbind_Inr split: if_splits option.splits intro!: reg)
qed

lemma peel_registered: "peel n tools u = Inr (Some (nm, args)) \<Longrightarrow> registered tools nm"
  by (induction n tools u rule: peel.induct) (auto simp: rbind_Inr infer_registered split: if_splits option.splits)

lemma unwrapped_registered: "infer_tool_name_unwrapped tools args = Inr (Some (nm, args')) \<Longrightarrow> registered tools nm"
  by (auto simp: infer_tool_name_unwrapped_def rbind_Inr infer_registered alias_registered peel_registered
      split: if_splits option.splits)

text \<open>A call is sound when it names a registered tool, or is a literal call object of the text.\<close>

definition sound_call :: "(string \<Rightarrow> json option) \<Rightarrow> json option \<Rightarrow> tool_call \<Rightarrow> bool" where
  "sound_call parse tools c \<longleftrightarrow>
     ok c \<and>
     ((\<exists>t. tools = Some t \<and> registered t (tc_name c)) \<or>
      (\<exists>seg j. parse seg = Some j \<and> shaped j \<and> c = parse_tool_call parse False seg))"

definition all_sound :: "(string \<Rightarrow> json option) \<Rightarrow> json option \<Rightarrow> tool_call list \<Rightarrow> bool" where
  "all_sound parse tools cs \<longleftrightarrow> (\<forall>c\<in>set cs. sound_call parse tools c)"

lemma all_sound_simps [simp]:
  "all_sound parse tools []"
  "all_sound parse tools (xs @ ys) \<longleftrightarrow> all_sound parse tools xs \<and> all_sound parse tools ys"
  "all_sound parse tools (c # ys) \<longleftrightarrow> sound_call parse tools c \<and> all_sound parse tools ys"
  by (auto simp: all_sound_def)

lemma sound_recovered: "registered t nm \<Longrightarrow> sound_call parse (Some t) (recovered nm args)"
  by (simp add: sound_call_def recovered_def)

lemma sound_shaped:
  "parse seg = Some j \<Longrightarrow> shaped j \<Longrightarrow> ok (parse_tool_call parse False seg) \<Longrightarrow>
     sound_call parse tools (parse_tool_call parse False seg)"
  by (auto simp: sound_call_def)

lemma out_hit [simp]: "out (hit i c ss) = out ss @ [c]"
  by (simp add: hit_def)

lemma repair_step_sound:
  "all_sound parse tools (out ss) \<Longrightarrow> all_sound parse tools (out (fst (repair_step parse trunc i san ss)))"
  by (auto simp: repair_step_def Let_def sound_shaped split: option.splits)

lemma odd_object_sound:
  assumes "odd_object t j i k ss = Inr (ss', mv)" "all_sound parse (Some t) (out ss)"
  shows "all_sound parse (Some t) (out ss')"
  using assms
  by (auto simp: odd_object_def rbind_Inr intro!: sound_recovered split: if_split_asm option.split_asm prod.split_asm)
    (metis alias_registered unwrapped_registered tool_named_registered order_refl)+

lemma object_step_sound:
  assumes "object_step parse tools i san k ss = Inr (ss', mv)" "all_sound parse tools (out ss)"
  shows "all_sound parse tools (out ss')"
proof (cases "parse san")
  case (Some j)
  show ?thesis
  proof (cases "shaped j")
    case True
    then show ?thesis using assms Some by (auto simp: object_step_def Let_def sound_shaped split: if_split_asm)
  next
    case False
    then show ?thesis using assms Some odd_object_sound
      by (auto simp: object_step_def split: if_split_asm option.split_asm)
  qed
qed (use assms in \<open>auto simp: object_step_def\<close>)

lemma brace_step_sound:
  assumes "brace_step parse tools trunc tx i ss = Inr (ss', mv)" "all_sound parse tools (out ss)"
  shows "all_sound parse tools (out ss')"
proof (cases "inside_fence tx i")
  case True
  then show ?thesis using assms by (simp add: brace_step_def)
next
  case False
  obtain m san k where s: "segment (drop i tx) = (m, san, k)" by (metis prod_cases3)
  let ?ss = "ss\<lparr>m10_seen := m10_seen ss \<or> m\<rparr>"
  have o: "all_sound parse tools (out ?ss)" using assms(2) by simp
  show ?thesis
  proof (cases k)
    case None
    then show ?thesis
      using assms(1) False s repair_step_sound [OF o, of trunc i san] by (auto simp: brace_step_def Let_def)
  next
    case (Some n)
    then show ?thesis
      using assms(1) False s object_step_sound [OF _ o] by (auto simp: brace_step_def Let_def)
  qed
qed

lemma scan_loop_sound:
  "scan_loop parse tools trunc tx p ss = Inr ss' \<Longrightarrow> all_sound parse tools (out ss) \<Longrightarrow> all_sound parse tools (out ss')"
proof (induction parse tools trunc tx p ss rule: scan_loop.induct)
  case (1 parse tools trunc tx p ss)
  show ?case
  proof (cases "find_at ''{'' tx p")
    case None
    then show ?thesis using "1.prems" by (subst (asm) scan_loop.simps) simp
  next
    case (Some i)
    then obtain s1 mv where b: "brace_step parse tools trunc tx i ss = Inr (s1, mv)"
      and r: "(case mv of Inner \<Rightarrow> scan_loop parse tools trunc tx (Suc i) s1
        | Behind k \<Rightarrow> scan_loop parse tools trunc tx (Suc (i + k)) s1 | Stop \<Rightarrow> Inr s1) = Inr ss'"
      using "1.prems"(1) by (subst (asm) scan_loop.simps) (auto simp: rbind_Inr)
    have "all_sound parse tools (out s1)" using brace_step_sound [OF b "1.prems"(2)] .
    then show ?thesis using r "1.IH" [OF Some] by (cases mv) auto
  qed
qed

lemma named_unit_sound:
  "all_sound parse (Some t) (out ss) \<Longrightarrow> all_sound parse (Some t) (out (named_unit parse t p san ss))"
  by (auto simp: named_unit_def intro!: sound_recovered dest: unwrapped_registered split: option.split sum.split)

lemma namedropped_sound:
  "all_sound parse (Some t) (out ss) \<Longrightarrow> all_sound parse (Some t) (out (scan_namedropped parse t tx p ss))"
proof (induction parse t tx p ss rule: scan_namedropped.induct)
  case (1 parse t tx p ss)
  show ?case
    using 1 by (subst scan_namedropped.simps) (auto simp: Let_def named_unit_sound split: option.split prod.split)
qed

lemma main_scan_sound: "main_scan parse tools trunc tx = Inr ss \<Longrightarrow> all_sound parse tools (out ss)"
  by (auto simp: main_scan_def rbind_Inr namedropped_sound dest!: scan_loop_sound split: option.splits)

lemma try_cand_name: "try_cand parse tx mo nm opener cand = Inr (Some tc) \<Longrightarrow> ok tc \<and> tc_name tc = nm"
  by (auto simp: try_cand_def Let_def rbind_Inr split: if_split_asm option.split_asm)

lemma cand_loop_name: "cand_loop parse tx mo nm opener p = Inr (Some tc) \<Longrightarrow> ok tc \<and> tc_name tc = nm"
proof (induction parse tx mo nm opener p rule: cand_loop.induct)
  case (1 parse tx mo nm opener p)
  show ?case
  proof (cases "find_at DQ tx p")
    case None
    then show ?thesis using "1.prems" by (subst (asm) cand_loop.simps) simp
  next
    case (Some c)
    then obtain r where r: "try_cand parse tx mo nm opener c = Inr r"
      and e: "(case r of Some tc \<Rightarrow> Inr (Some tc) | None \<Rightarrow> cand_loop parse tx mo nm opener (Suc c)) = Inr (Some tc)"
      using "1.prems" cand_loop.simps [of parse tx mo nm opener p] by (auto simp: rbind_Inr)
    show ?thesis using e try_cand_name [of parse tx mo nm opener c] r "1.IH" [OF Some] by (cases r) auto
  qed
qed

lemma key_loop_name: "key_loop parse tx mo nm ks = Inr (Some tc) \<Longrightarrow> ok tc \<and> tc_name tc = nm"
  by (induction parse tx mo nm ks rule: key_loop.induct)
    (auto simp: rbind_Inr dest: cand_loop_name split: option.split_asm)

lemma raw_sound: "recover_raw_value_call parse tx t = Inr (Some tc) \<Longrightarrow> sound_call parse (Some t) tc"
  by (auto simp: recover_raw_value_call_def rbind_Inr Let_def sound_call_def
      dest!: key_loop_name tool_named_registered [OF _ order_refl] split: option.split_asm if_split_asm)

lemma all_sound_butlast: "all_sound parse tools cs \<Longrightarrow> all_sound parse tools (butlast cs)"
  by (auto simp: all_sound_def dest: in_set_butlastD)

lemma raw_stage_sound:
  assumes "raw_stage parse tools tx m10 res = Inr res'" "all_sound parse tools (fst res)"
  shows "all_sound parse tools (fst res')"
proof (cases tools)
  case None
  then show ?thesis using assms by (simp add: raw_stage_def)
next
  case (Some t)
  show ?thesis
  proof (cases "recover_raw_value_call parse tx t")
    case (Inl e)
    then show ?thesis using assms Some by (simp add: raw_stage_def split: if_split_asm)
  next
    case (Inr r)
    then show ?thesis
      using assms Some raw_sound [of parse tx t] all_sound_butlast
      by (cases r) (auto simp: raw_stage_def split: if_split_asm)
  qed
qed

lemma parse_bare_once_sound:
  "parse_bare_once parse tools trunc s = Inr res \<Longrightarrow> all_sound parse tools (fst res)"
  by (auto simp: parse_bare_once_def rbind_Inr dest!: raw_stage_sound main_scan_sound)

lemma splice_loop_sound:
  "splice_loop parse t trunc tx ts res = Inr res' \<Longrightarrow> all_sound parse (Some t) (fst res) \<Longrightarrow> all_sound parse (Some t) (fst res')"
  by (induction parse t trunc tx ts res rule: splice_loop.induct)
    (auto simp: rbind_Inr Let_def dest: parse_bare_once_sound split: if_split_asm option.split_asm)


definition demo_tools :: json where
  "demo_tools = JArr [JObj [(''function'', JObj [(''name'', JStr ''Read''),
     (''parameters'', JObj [(''properties'', JObj [(''path'', JObj [(''type'', JStr ''string'')])])])])]]"

definition demo_parse :: "string \<Rightarrow> json option" where
  "demo_parse s =
     (if s = ''{'' @ DQ @ ''path'' @ DQ @ '':1}'' then Some (JObj [(''path'', JInt 1)])
      else if s = ''{'' @ DQ @ ''name'' @ DQ @ '':'' @ ''{'' @ DQ @ ''path'' @ DQ @ '':1}}''
      then Some (JObj [(''name'', JObj [(''path'', JInt 1)])]) else None)"


section \<open>The escaped body is one string\<close>

text \<open>The end of a JSON string in its source: the first quote that no backslash escapes.\<close>

fun string_end :: "bool \<Rightarrow> string \<Rightarrow> nat option" where
  "string_end e [] = None"
| "string_end e (c # s) =
     (if \<not> e \<and> c = CHR 0x22 then Some 0 else map_option Suc (string_end (\<not> e \<and> c = CHR 0x5C) s))"

definition plain :: "char \<Rightarrow> bool" where
  "plain c \<longleftrightarrow> c \<noteq> CHR 0x22 \<and> c \<noteq> CHR 0x5C \<and> (0x20 :: nat) \<le> of_char c"

lemma hex_char_plain: "n < 16 \<Longrightarrow> plain (hex_char n)"
proof -
  have "list_all plain ''0123456789abcdef''" by code_simp
  moreover assume "n < 16"
  ultimately show ?thesis by (simp add: hex_char_def list_all_length)
qed

lemma esc_letter_printable: "esc_letter c \<Longrightarrow> (0x20 :: nat) \<le> of_char c"
  by (auto simp: esc_letter_def)

text \<open>
  What the escaper writes is a sequence of plain bytes and escape pairs, and it reads such a sequence
  back unchanged.
\<close>

fun escaped :: "string \<Rightarrow> bool" where
  "escaped [] \<longleftrightarrow> True"
| "escaped (c # s) \<longleftrightarrow>
     (if c = CHR 0x5C then (case s of [] \<Rightarrow> False | n # s' \<Rightarrow> esc_letter n \<and> escaped s') else plain c \<and> escaped s)"

lemma escaped_plain: "list_all plain p \<Longrightarrow> escaped (p @ s) = escaped s"
  by (induction p) (auto simp: plain_def)

lemma control_seq_escaped: "of_char c < (0x20 :: nat) \<Longrightarrow> escaped (control_seq c @ s) = escaped s"
proof -
  assume "of_char c < (0x20 :: nat)"
  then have d: "plain (hex_char (of_char c div 16))" "plain (hex_char (of_char c mod 16))"
    by (auto intro!: hex_char_plain)
  then have "hex_char (of_char c div 16) \<noteq> CHR 0x5C" "hex_char (of_char c mod 16) \<noteq> CHR 0x5C"
    by (auto simp: plain_def)
  with d show ?thesis by (simp add: control_seq_def esc_letter_def plain_def)
qed

lemma minimal_escape_escaped: "escaped (minimal_escape_body s)"
proof (induction s rule: minimal_escape_body.induct)
  case (2 c s)
  show ?case
  proof (cases "c = CHR 0x5C")
    case True
    then show ?thesis using 2 by (cases s) (auto simp: esc_letter_def)
  next
    case False
    then show ?thesis
      using 2 by (auto simp: control_seq_escaped plain_def esc_letter_def not_less)
  qed
qed simp

lemma escaped_fixed: "escaped s \<Longrightarrow> minimal_escape_body s = s"
  by (induction s rule: escaped.induct) (auto simp: plain_def split: list.split_asm if_split_asm)

lemma escaped_end: "escaped s \<Longrightarrow> string_end False (s @ CHR 0x22 # t) = Some (length s)"
proof (induction s rule: escaped.induct)
  case (2 c s)
  show ?case
  proof (cases "c = CHR 0x5C")
    case True
    then show ?thesis using 2 by (cases s) simp_all
  next
    case False
    then show ?thesis using 2 by (simp add: plain_def)
  qed
qed simp

lemma escaped_printable: "escaped s \<Longrightarrow> list_all (\<lambda>c. (0x20 :: nat) \<le> of_char c) s"
  by (induction s rule: escaped.induct) (auto simp: plain_def esc_letter_printable split: list.split_asm if_split_asm)

text \<open>
  The escaped body is exactly one JSON string.  Whatever the body, what the escaper writes has no
  control byte, a quote put behind it is the first that ends the string, whatever follows, and
  escaping it again changes nothing: escapes the model already wrote are kept.
\<close>

theorem minimal_escape_exact:
  "list_all (\<lambda>c. (0x20 :: nat) \<le> of_char c) (minimal_escape_body s) \<and>
   string_end False (minimal_escape_body s @ CHR 0x22 # t) = Some (length (minimal_escape_body s)) \<and>
   minimal_escape_body (minimal_escape_body s) = minimal_escape_body s"
  by (simp add: minimal_escape_escaped escaped_printable escaped_end escaped_fixed)

section \<open>A schema that makes the rescue throw\<close>

definition union_tools :: json where
  "union_tools = JArr [JObj [(''function'', JObj [(''name'', JStr ''Write''),
     (''parameters'', JObj [(''properties'', JObj [(''content'',
        JObj [(''type'', JArr [JStr ''string'', JStr ''null''])])])])])]]"

definition union_text :: string where
  "union_text =
     ''{'' @ DQ @ ''name'' @ DQ @ '':'' @ DQ @ ''Write'' @ DQ @ '', '' @ DQ @ ''content'' @ DQ @ '':'' @ DQ @ ''a'' @ DQ @ ''b'' @ DQ @ ''}''"

text \<open>A parser that rejects the text, as it must: the body has a bare quote.\<close>

definition no_parse :: "string \<Rightarrow> json option" where
  "no_parse s = None"

text \<open>
  A tool whose schema gives a property a list of types (\<^verbatim>\<open>"type": ["string", "null"]\<close>) makes the
  parser throw instead of returning: the rescue reads the type with \<^verbatim>\<open>value()\<close>, which throws on a value
  of another type, and nothing around it catches.
\<close>

theorem union_type_throws:
  "parse_bare_tool_calls no_parse False (Some union_tools) True union_text = Inl TypeError302"
  by code_simp

end
