(* ===== verification/Api_Response.thy ===== *)
theory Api_Response
  imports Tool_Recover Api_Request
begin

text \<open>
  What the server sends back and whom it answers: the response shaping and the key check of
  \<^verbatim>\<open>src/src/api_common.h\<close>, and the SSE framing of \<^verbatim>\<open>src/src/metal/stream_format.h\<close>.  The serialiser is
  the parameter \<open>dump\<close> (\<open>dump_replace\<close> for the one with the replacing error handler).  A key file is
  the list of its lines as \<^verbatim>\<open>std::getline\<close> delivers them, \<open>None\<close> when it does not open.
\<close>

unbundle bit_operations_syntax

section \<open>Key check\<close>

text \<open>The byte at a position, zero behind the end; \<open>diff\<close> accumulates over the longer length.\<close>

definition byte_at :: "string \<Rightarrow> nat \<Rightarrow> 8 word" where
  "byte_at s i = (if i < length s then word_of_nat (of_char (s ! i)) else 0)"

definition secure_diff :: "string \<Rightarrow> string \<Rightarrow> 8 word" where
  "secure_diff a b =
     foldl (\<lambda>diff i. diff OR (byte_at a i XOR byte_at b i))
       (if length a \<noteq> length b then 1 else 0) [0..<max (length a) (length b)]"

definition secure_compare :: "string \<Rightarrow> string \<Rightarrow> bool" where
  "secure_compare a b \<longleftrightarrow> secure_diff a b = 0"

definition extract_api_key :: "string \<Rightarrow> string \<Rightarrow> string" where
  "extract_api_key authorization x_api_key =
     (if x_api_key \<noteq> [] then x_api_key
      else if length authorization > 7 \<and> take 7 authorization = ''Bearer '' then drop 7 authorization
      else [])"

definition api_key_valid :: "string \<Rightarrow> string list \<Rightarrow> bool" where
  "api_key_valid provided keys =
     (if provided = [] then False
      else foldl (\<lambda>any k. any \<or> secure_compare provided k) False keys)"

definition auth_error_json :: "(json \<Rightarrow> string) \<Rightarrow> bool \<Rightarrow> string" where
  "auth_error_json dump anthropic_shape =
     (if anthropic_shape then anthropic_error_json dump ''authentication_error'' ''invalid x-api-key''
      else dump (mk_obj [(''error'', mk_obj [(''message'', JStr ''Incorrect API key provided''),
             (''type'', JStr ''invalid_request_error''), (''code'', JStr ''invalid_api_key'')])]))"

text \<open>One line of a key file: the surrounding whitespace goes, a blank line or a comment gives nothing.\<close>

definition key_of_line :: "string \<Rightarrow> string option" where
  "key_of_line line =
     (let a = length (takeWhile is_ws4 line)
      in if a = length line then None
         else let b = length line - 1 - length (takeWhile is_ws4 (rev line));
                  l = substr line a (b - a + 1)
              in if l = [] \<or> l ! 0 = CHR ''#'' then None else Some l)"

definition load_api_key_file :: "string list option \<Rightarrow> string list \<Rightarrow> bool \<times> string list" where
  "load_api_key_file f keys =
     (case f of None \<Rightarrow> (False, keys) | Some ls \<Rightarrow> (True, keys @ List.map_filter key_of_line ls))"

text \<open>
  How the server collects its keys at boot, \<^verbatim>\<open>main\<close> of \<^verbatim>\<open>src/src/server.cu\<close>: the two options in the order
  of the command line and the environment variable; a refusal to start is \<open>None\<close>.
\<close>

datatype key_option = Api_Key string | Api_Key_File "string list option"

fun key_options :: "key_option list \<Rightarrow> string list \<Rightarrow> string list option" where
  "key_options [] keys = Some keys"
| "key_options (Api_Key k # os) keys = (if k = [] then None else key_options os (keys @ [k]))"
| "key_options (Api_Key_File f # os) keys =
     (case load_api_key_file f keys of
        (was_open, keys') \<Rightarrow>
          if \<not> was_open then None else if length keys' = length keys then None else key_options os keys')"

definition boot_keys :: "key_option list \<Rightarrow> string option \<Rightarrow> string list option" where
  "boot_keys os envkey =
     (case key_options os [] of
        None \<Rightarrow> None
      | Some keys \<Rightarrow>
          Some (case envkey of None \<Rightarrow> keys | Some k \<Rightarrow> if k \<noteq> [] then keys @ [k] else keys))"

text \<open>
  The pre-routing handler; it is only installed when there is a key.  \<open>Denied\<close> carries the body of the
  401 answer and whether the \<^verbatim>\<open>WWW-Authenticate\<close> header is set.
\<close>

datatype admission = Unhandled | Denied string bool

definition pre_routing ::
    "(json \<Rightarrow> string) \<Rightarrow> string list \<Rightarrow> string \<Rightarrow> string \<Rightarrow> string \<Rightarrow> admission" where
  "pre_routing dump api_keys path authorization x_api_key =
     (if api_keys = [] then Unhandled
      else if path = ''/health'' then Unhandled
      else if api_key_valid (extract_api_key authorization x_api_key) api_keys then Unhandled
      else let anthropic_shape = prefix ''/v1/messages'' path
           in Denied (auth_error_json dump anthropic_shape) (\<not> anthropic_shape))"

section \<open>Response shaping\<close>

definition openai_tool_call_json :: "(json \<Rightarrow> string) \<Rightarrow> string \<Rightarrow> tool_call \<Rightarrow> json" where
  "openai_tool_call_json dump cid c =
     mk_obj [(''id'', JStr cid), (''type'', JStr ''function''),
       (''function'', mk_obj [(''name'', JStr (tc_name c)), (''arguments'', JStr (dump (arguments c)))])]"

definition call_id :: "nat \<Rightarrow> nat \<Rightarrow> string" where
  "call_id rid i = ''call_q27_'' @ to_string rid @ ''_'' @ to_string i"

fun tool_calls_json :: "(json \<Rightarrow> string) \<Rightarrow> nat \<Rightarrow> nat \<Rightarrow> tool_call list \<Rightarrow> json list" where
  "tool_calls_json dump rid i [] = []"
| "tool_calls_json dump rid i (c # cs) =
     (if ok c then openai_tool_call_json dump (call_id rid i) c # tool_calls_json dump rid (i + 1) cs
      else tool_calls_json dump rid i cs)"

definition openai_chat_message_json ::
    "(json \<Rightarrow> string) \<Rightarrow> string \<Rightarrow> tool_call list \<Rightarrow> nat \<Rightarrow> string \<Rightarrow> json" where
  "openai_chat_message_json dump txt calls rid reasoning =
     (let tool_calls = tool_calls_json dump rid 0 calls;
          any_call = (tool_calls \<noteq> [])
      in mk_obj ([(''role'', JStr ''assistant''),
                  (''content'', if any_call \<and> txt = [] then JNull else JStr txt)] @
                 (if any_call then [(''tool_calls'', JArr tool_calls)] else []) @
                 (if reasoning \<noteq> [] then [(''reasoning_content'', JStr reasoning)] else [])))"

definition openai_reasoning_delta :: "string \<Rightarrow> json" where
  "openai_reasoning_delta t = mk_obj [(''reasoning_content'', JStr t)]"

definition envelope :: "string \<Rightarrow> string \<Rightarrow> int \<Rightarrow> string \<Rightarrow> json \<Rightarrow> json" where
  "envelope cid obj created model choice =
     mk_obj [(''id'', JStr cid), (''object'', JStr obj), (''created'', JInt created),
       (''model'', JStr model), (''choices'', JArr [choice])]"

definition openai_stream_chunk ::
    "string \<Rightarrow> string \<Rightarrow> int \<Rightarrow> string \<Rightarrow> json \<Rightarrow> string option \<Rightarrow> json" where
  "openai_stream_chunk cid obj created model delta finish_reason =
     envelope cid obj created model
       (mk_obj [(''index'', JInt 0), (''delta'', delta),
         (''finish_reason'', case finish_reason of Some r \<Rightarrow> JStr r | None \<Rightarrow> JNull)])"

definition openai_tool_call_delta :: "(json \<Rightarrow> string) \<Rightarrow> nat \<Rightarrow> string \<Rightarrow> tool_call \<Rightarrow> json" where
  "openai_tool_call_delta dump idx cid c =
     mk_obj [(''tool_calls'', JArr [mk_obj [(''index'', JInt (int idx)), (''id'', JStr cid),
       (''type'', JStr ''function''),
       (''function'', mk_obj [(''name'', JStr (tc_name c)), (''arguments'', JStr (dump (arguments c)))])]])]"

section \<open>SSE framing\<close>

definition NL :: string where "NL = [CHR 0x0A]"

definition sse_data :: "(json \<Rightarrow> string) \<Rightarrow> json \<Rightarrow> string" where
  "sse_data dump_replace j = ''data: '' @ dump_replace j @ NL @ NL"

definition sse_event :: "(json \<Rightarrow> string) \<Rightarrow> string \<Rightarrow> json \<Rightarrow> string" where
  "sse_event dump_replace nm j = ''event: '' @ nm @ NL @ ''data: '' @ dump_replace j @ NL @ NL"

definition sse_done :: string where
  "sse_done = ''data: [DONE]'' @ NL @ NL"

definition metal_stream_chunk :: "bool \<Rightarrow> string \<Rightarrow> string \<Rightarrow> int \<Rightarrow> string \<Rightarrow> string \<Rightarrow> json" where
  "metal_stream_chunk chat cid obj created model piece =
     envelope cid obj created model
       (if chat
        then mk_obj [(''index'', JInt 0), (''delta'', mk_obj [(''content'', JStr piece)]), (''finish_reason'', JNull)]
        else mk_obj [(''index'', JInt 0), (''text'', JStr piece), (''finish_reason'', JNull)])"

definition metal_stream_final_chunk :: "bool \<Rightarrow> string \<Rightarrow> string \<Rightarrow> int \<Rightarrow> string \<Rightarrow> string \<Rightarrow> json" where
  "metal_stream_final_chunk chat cid obj created model finish_reason =
     envelope cid obj created model
       (if chat
        then mk_obj [(''index'', JInt 0), (''delta'', mk_obj []), (''finish_reason'', JStr finish_reason)]
        else mk_obj [(''index'', JInt 0), (''text'', JStr []), (''finish_reason'', JStr finish_reason)])"

section \<open>The key check is exact\<close>

lemma foldl_or_zero:
  "foldl (\<lambda>d i. d OR f i) (d0 :: 8 word) is = 0 \<longleftrightarrow> d0 = 0 \<and> (\<forall>i\<in>set is. f i = 0)"
  by (induction "is" arbitrary: d0) (auto simp: or_eq_0_iff)

lemma xor_zero_eq: "(a :: 8 word) XOR b = 0 \<Longrightarrow> a = b"
  by (metis xor_self_eq xor.assoc xor.left_neutral)

lemma byte_at_inject:
  assumes "i < length a" "i < length b"
  shows "byte_at a i = byte_at b i \<longleftrightarrow> a ! i = b ! i"
proof
  assume "byte_at a i = byte_at b i"
  then have "(word_of_nat (of_char (a ! i)) :: 8 word) = word_of_nat (of_char (b ! i))"
    using assms by (simp add: byte_at_def)
  then have "unat (word_of_nat (of_char (a ! i)) :: 8 word) = unat (word_of_nat (of_char (b ! i)) :: 8 word)" by simp
  then have "(of_char (a ! i) :: nat) mod 256 = of_char (b ! i) mod 256" by (simp add: unat_of_nat)
  then have "(of_char (a ! i) :: nat) = of_char (b ! i)" by simp
  then show "a ! i = b ! i" by simp
qed (simp add: byte_at_def assms)

lemma secure_compare_iff: "secure_compare a b \<longleftrightarrow> a = b"
proof
  assume c: "secure_compare a b"
  then have len: "length a = length b"
    unfolding secure_compare_def secure_diff_def foldl_or_zero by (simp split: if_splits)
  have "byte_at a i XOR byte_at b i = 0" if "i < length a" for i
    using c that len unfolding secure_compare_def secure_diff_def foldl_or_zero by auto
  then have "byte_at a i = byte_at b i" if "i < length a" for i using that xor_zero_eq by blast
  then show "a = b" using len byte_at_inject by (auto intro!: nth_equalityI)
next
  assume "a = b"
  moreover have "secure_diff b b = 0" unfolding secure_diff_def foldl_or_zero by simp
  ultimately show "secure_compare a b" by (simp add: secure_compare_def)
qed

lemma api_key_valid_iff: "api_key_valid provided keys \<longleftrightarrow> provided \<noteq> [] \<and> provided \<in> set keys"
proof -
  have "foldl (\<lambda>any k. any \<or> secure_compare provided k) b keys \<longleftrightarrow> b \<or> provided \<in> set keys" for b
    by (induction keys arbitrary: b) (auto simp: secure_compare_iff)
  then show ?thesis by (simp add: api_key_valid_def)
qed

text \<open>The slice between the first and the last byte that is not blank is the text with both ends stripped.\<close>

lemma key_of_line_strip:
  "key_of_line line =
     (let t = strip_ws2 line in if t = [] \<or> hd t = CHR ''#'' then None else Some t)"
proof -
  define p where "p = takeWhile is_ws4 line"
  define r where "r = dropWhile is_ws4 line"
  have line: "line = p @ r" by (simp add: p_def r_def)
  show ?thesis
  proof (cases "r = []")
    case True
    then have "strip_ws2 line = []" by (simp add: strip_ws2_def flip: r_def)
    moreover have "length p = length line" using line True by simp
    ultimately show ?thesis by (simp add: key_of_line_def Let_def flip: p_def)
  next
    case False
    then have nb: "\<not> is_ws4 (hd r)" unfolding r_def by (metis hd_dropWhile)
    let ?q = "takeWhile is_ws4 (rev r)"
    have tw: "takeWhile is_ws4 (rev line) = ?q"
      using False nb line by (simp add: takeWhile_tail) (metis hd_in_set set_rev takeWhile_append1 list.set_sel(1))
    have split: "rev r = ?q @ dropWhile is_ws4 (rev r)" by simp
    then have lens: "length r = length ?q + length (dropWhile is_ws4 (rev r))" by (metis length_append length_rev)
    have ne: "dropWhile is_ws4 (rev r) \<noteq> []" using nb False by (auto simp: dropWhile_eq_Nil_conv)
    then have pos: "length (dropWhile is_ws4 (rev r)) > 0" by simp
    have "strip_ws2 line = rev (dropWhile is_ws4 (rev r))" by (simp add: strip_ws2_def r_def)
    also have "\<dots> = take (length r - length ?q) r" by (metis dropWhile_eq_drop length_rev rev_rev_ident take_rev drop_rev rev_drop)
    finally have st: "strip_ws2 line = take (length r - length ?q) r" .
    have n: "length line - 1 - length ?q - length p + 1 = length r - length ?q" using line lens pos by simp
    have "substr line (length p) (length line - 1 - length ?q - length p + 1) = strip_ws2 line"
      unfolding n st substr_def using line by (metis append_eq_conv_conj)
    moreover have "length p \<noteq> length line" "strip_ws2 line \<noteq> []" using line False st pos lens by auto
    ultimately show ?thesis by (simp add: key_of_line_def Let_def hd_conv_nth tw flip: p_def)
  qed
qed

text \<open>The keys an option stands for, written over the stripped lines.\<close>

fun option_keys :: "key_option \<Rightarrow> string set" where
  "option_keys (Api_Key k) = {k}"
| "option_keys (Api_Key_File f) =
     {k. \<exists>ls line. f = Some ls \<and> line \<in> set ls \<and> k = strip_ws2 line \<and> k \<noteq> [] \<and> hd k \<noteq> CHR ''#''}"

lemma set_map_filter_key:
  "set (List.map_filter key_of_line ls) =
     {k. \<exists>line\<in>set ls. k = strip_ws2 line \<and> k \<noteq> [] \<and> hd k \<noteq> CHR ''#''}"
  by (auto simp: List.map_filter_def key_of_line_strip Let_def image_iff split: if_splits)

lemma key_options_correct:
  assumes "key_options os keys = Some keys'" "[] \<notin> set keys"
  shows "[] \<notin> set keys' \<and> set keys' = set keys \<union> (\<Union>q\<in>set os. option_keys q) \<and>
    length keys + length os \<le> length keys'"
  using assms
proof (induction os keys rule: key_options.induct)
  case (2 k os keys)
  then show ?case by (auto split: if_splits)
next
  case (3 f os keys)
  from 3(2) obtain ls where f: "f = Some ls" and n: "List.map_filter key_of_line ls \<noteq> []"
    by (cases f) (auto simp: load_api_key_file_def split: if_splits)
  have l: "load_api_key_file f keys = (True, keys @ List.map_filter key_of_line ls)"
    by (simp add: load_api_key_file_def f)
  have a: "key_options os (keys @ List.map_filter key_of_line ls) = Some keys'" using 3(2) n by (simp add: l)
  have b: "[] \<notin> set (keys @ List.map_filter key_of_line ls)" using 3(3) by (auto simp: set_map_filter_key)
  have "[] \<notin> set keys' \<and>
      set keys' = set (keys @ List.map_filter key_of_line ls) \<union> (\<Union>q\<in>set os. option_keys q) \<and>
      length (keys @ List.map_filter key_of_line ls) + length os \<le> length keys'"
    by (rule 3(1) [OF l [symmetric] _ _ a b]) (use n in simp_all)
  moreover have "Suc 0 \<le> length (List.map_filter key_of_line ls)" using n by (simp add: Suc_le_eq)
  moreover have "set (List.map_filter key_of_line ls) = option_keys (Api_Key_File f)"
    unfolding set_map_filter_key option_keys.simps f by auto
  ultimately show ?case
    by (intro conjI) (blast, simp del: option_keys.simps add: Un_assoc, simp)
qed simp

text \<open>
  C8: the key check.  A server that boots with any key option has a key, and its keys are exactly the ones
  the options and the environment name: the given ones and the stripped lines of the files that are
  neither blank nor comments, none of them empty.  With no key every request passes; with keys a request
  passes exactly when it asks for the health page, its \<^verbatim>\<open>x-api-key\<close> is a key, or it has no such header
  and its authorization is \<^verbatim>\<open>Bearer\<close> with a key.
\<close>

theorem auth_gate_exact:
  assumes "boot_keys os envkey = Some keys"
  shows "(os \<noteq> [] \<longrightarrow> keys \<noteq> []) \<and> [] \<notin> set keys \<and>
    set keys = (\<Union>q\<in>set os. option_keys q) \<union> (set_option envkey - {[]}) \<and>
    (pre_routing dump keys path authorization xkey = Unhandled \<longleftrightarrow>
       keys = [] \<or> path = ''/health'' \<or> xkey \<in> set keys \<or>
       xkey = [] \<and> (\<exists>k\<in>set keys. authorization = ''Bearer '' @ k))"
proof -
  obtain keys0 where k0: "key_options os [] = Some keys0"
      and ks: "keys = (case envkey of None \<Rightarrow> keys0 | Some k \<Rightarrow> if k \<noteq> [] then keys0 @ [k] else keys0)"
    using assms by (auto simp: boot_keys_def split: option.splits)
  note c = key_options_correct [OF k0]
  have ne: "[] \<notin> set keys" using c ks by (auto split: option.splits)
  have "authorization = ''Bearer '' @ drop 7 authorization" if "take 7 authorization = ''Bearer ''"
    using that by (metis append_take_drop_id)
  then have "extract_api_key authorization xkey \<noteq> [] \<and> extract_api_key authorization xkey \<in> set keys \<longleftrightarrow>
      xkey \<in> set keys \<or> xkey = [] \<and> (\<exists>k\<in>set keys. authorization = ''Bearer '' @ k)"
    using ne by (auto simp: extract_api_key_def)
  then have "pre_routing dump keys path authorization xkey = Unhandled \<longleftrightarrow>
       keys = [] \<or> path = ''/health'' \<or> xkey \<in> set keys \<or>
       xkey = [] \<and> (\<exists>k\<in>set keys. authorization = ''Bearer '' @ k)"
    by (simp add: pre_routing_def api_key_valid_iff Let_def)
  moreover have "os \<noteq> [] \<longrightarrow> keys \<noteq> []" using c ks by (auto split: option.splits)
  moreover have "set keys = (\<Union>q\<in>set os. option_keys q) \<union> (set_option envkey - {[]})"
    using c ks by (auto split: option.splits)
  ultimately show ?thesis using ne by blast
qed

definition demo_options :: "key_option list" where
  "demo_options = [Api_Key ''k1'', Api_Key_File (Some [''# comment'', '' k2 '', []])]"

theorem auth_gate_exact_witness:
  "boot_keys demo_options None = Some [''k1'', ''k2''] \<and>
   pre_routing (\<lambda>_. []) [''k1'', ''k2''] ''/v1/messages'' ''Bearer k2'' [] = Unhandled"
proof -
  have b: "boot_keys demo_options None = Some [''k1'', ''k2'']" by code_simp
  show ?thesis
    using b auth_gate_exact [OF b, of "\<lambda>_. []" "''/v1/messages''" "''Bearer k2''" "[]"] by simp
qed

end
