(* ===== verification/Serve_Chat.thy ===== *)
theory Serve_Chat
  imports Stream_Split Utf8_Gate Tokenizer Bare_Calls Api_Response
begin

text \<open>
  The non-streamed chat handler of \<^verbatim>\<open>src/src/server.cu\<close>, which puts the components together: every
  generated token goes through \<^verbatim>\<open>decode_one\<close>, the UTF-8 gate and the splitter into the collector of
  the answer, the thinking and the tool calls; at the end the buffers are flushed, malformed calls are
  folded into the answer, bare calls are recovered and the message is shaped.  What the engine generates
  is the argument \<open>ids\<close>, its count \<open>n\<close> and the error text of a batch.  The constrainer hooks only
  influence which tokens are generated and are the subject of \<open>Tool_Constrain\<close>.

  The reference \<open>gather\<close> reads the whole decoded text at once.  The main result is that the reply is a
  function of the decoded text: neither the cut into tokens nor the holdbacks of the two buffers show.
\<close>

section \<open>The handler\<close>

record collector =
  think :: string
  answer :: string
  tool_buf :: string
  calls :: "tool_call list"

definition close_tool :: "(string \<Rightarrow> tool_call) \<Rightarrow> collector \<Rightarrow> collector" where
  "close_tool P c =
     (if tool_buf c \<noteq> [] then c\<lparr>calls := calls c @ [P (strip_ws2 (tool_buf c))], tool_buf := []\<rparr> else c)"

fun collect :: "(string \<Rightarrow> tool_call) \<Rightarrow> seg \<Rightarrow> collector \<Rightarrow> collector" where
  "collect P (TOOL, t) c = c\<lparr>tool_buf := tool_buf c @ t\<rparr>"
| "collect P (THINK, t) c = (let c' = close_tool P c in c'\<lparr>think := think c' @ t\<rparr>)"
| "collect P (TEXT, t) c = (let c' = close_tool P c in c'\<lparr>answer := answer c' @ t\<rparr>)"

record pipe =
  ugate :: string
  sp :: splitter
  col :: collector

definition pipe_piece :: "(string \<Rightarrow> tool_call) \<Rightarrow> string \<Rightarrow> pipe \<Rightarrow> pipe" where
  "pipe_piece P piece p =
     (case split_feed (sp p) piece of (s, segs) \<Rightarrow> p\<lparr>sp := s, col := fold (collect P) segs (col p)\<rparr>)"

definition on_tok :: "tokenizer \<Rightarrow> (string \<Rightarrow> tool_call) \<Rightarrow> nat \<Rightarrow> pipe \<Rightarrow> pipe" where
  "on_tok tk P i p =
     (case gate_feed (ugate p) (decode_one tk (int i)) of
        (g, piece) \<Rightarrow> pipe_piece P piece (p\<lparr>ugate := g\<rparr>))"

definition pipe_end :: "(string \<Rightarrow> tool_call) \<Rightarrow> pipe \<Rightarrow> collector" where
  "pipe_end P p =
     (case gate_flush (ugate p) of
        (g, piece) \<Rightarrow>
          let p1 = pipe_piece P piece (p\<lparr>ugate := g\<rparr>)
          in close_tool P (fold (collect P) (snd (split_flush (sp p1))) (col p1)))"

text \<open>A forced call and a thinking prompt put their opener into the prompt.\<close>

definition start_chan :: "bool \<Rightarrow> bool \<Rightarrow> chan" where
  "start_chan forced thinking = (if forced then TOOL else if thinking then THINK else TEXT)"

definition collector_init :: collector where
  "collector_init = \<lparr>think = [], answer = [], tool_buf = [], calls = []\<rparr>"

definition pipe_init :: "chan \<Rightarrow> pipe" where
  "pipe_init c = \<lparr>ugate = [], sp = splitter_init\<lparr>chan := c\<rparr>, col = collector_init\<rparr>"

fun add_raw :: "tool_call list \<Rightarrow> string \<Rightarrow> string" where
  "add_raw [] tx = tx"
| "add_raw (c # cs) tx = add_raw cs (if ok c then tx else tx @ (if tx = [] then [] else NL) @ tc_raw c)"

text \<open>The answer and the calls after malformed calls are folded in and bare calls recovered.\<close>

definition settle_calls ::
    "(string \<Rightarrow> json option) \<Rightarrow> bool \<Rightarrow> json \<Rightarrow> collector \<Rightarrow> (string \<times> tool_call list) jres" where
  "settle_calls parse strict tools c =
     (let tx = add_raw (calls c) (strip_ws2 (answer c))
      in if is_array tools \<and> jsize tools \<noteq> 0
         then rbind (parse_bare_tool_calls parse strict (Some tools) True tx) (\<lambda>(bcs, pre).
                Inr (if bcs \<noteq> [] then (pre, calls c @ bcs) else (tx, calls c)))
         else Inr (tx, calls c))"

definition shape_reply ::
    "(json \<Rightarrow> string) \<Rightarrow> string \<Rightarrow> string \<Rightarrow> int \<Rightarrow> nat \<Rightarrow> nat \<Rightarrow> nat \<Rightarrow> nat \<Rightarrow> string \<Rightarrow> string \<times> tool_call list \<Rightarrow> json" where
  "shape_reply dump obj model created rid n_prompt n n_max thinking_txt = (\<lambda>(tx, cs).
     (let any_call = list_ex ok cs;
          finish = (if any_call then ''tool_calls'' else if n \<ge> n_max then ''length'' else ''stop'');
          choice = mk_obj [(''index'', JInt 0), (''finish_reason'', JStr finish),
            (''message'', openai_chat_message_json dump tx cs rid (strip_ws2 thinking_txt))]
      in mk_obj [(''id'', JStr (''chatcmpl-q27-'' @ to_string rid)), (''object'', JStr obj),
           (''created'', JInt created), (''model'', JStr model), (''choices'', JArr [choice]),
           (''usage'', mk_obj [(''prompt_tokens'', JInt (int n_prompt)), (''completion_tokens'', JInt (int n)),
              (''total_tokens'', JInt (int n_prompt + int n))])]))"

text \<open>
  What a request fixes: the parser, the serialiser, the strict switch, the request's tools, choice and
  thinking, and the fields of the envelope.
\<close>

record chat_req =
  rq_parse :: "string \<Rightarrow> json option"
  rq_dump :: "json \<Rightarrow> string"
  rq_strict :: bool
  rq_tools :: json
  rq_forced :: bool
  rq_thinking :: bool
  rq_obj :: string
  rq_model :: string
  rq_created :: int
  rq_rid :: nat
  rq_prompt :: nat
  rq_n_max :: nat

datatype chat_reply = Reply json | Failed string | Threw json_exn

definition reply_of :: "chat_req \<Rightarrow> nat \<Rightarrow> collector \<Rightarrow> chat_reply" where
  "reply_of q n c =
     (case settle_calls (rq_parse q) (rq_strict q) (rq_tools q) c of
        Inl x \<Rightarrow> Threw x
      | Inr r \<Rightarrow>
          Reply (shape_reply (rq_dump q) (rq_obj q) (rq_model q) (rq_created q) (rq_rid q) (rq_prompt q) n
                   (rq_n_max q) (think c) r))"

definition serve_chat :: "tokenizer \<Rightarrow> chat_req \<Rightarrow> nat list \<Rightarrow> nat \<Rightarrow> string \<Rightarrow> chat_reply" where
  "serve_chat tk q ids n berr =
     (let P = parse_tool_call (rq_parse q) (rq_strict q);
          p = fold (on_tok tk P) ids (pipe_init (start_chan (rq_forced q) (rq_thinking q)))
      in if berr \<noteq> [] \<and> n = 0 then Failed berr else reply_of q n (pipe_end P p))"

section \<open>Reference: gathering from the whole text\<close>

text \<open>
  \<open>b\<close> says that a call has just been closed and nothing came since; an opener then separates two
  adjacent calls.
\<close>

function gather :: "(string \<Rightarrow> tool_call) \<Rightarrow> chan \<Rightarrow> bool \<Rightarrow> string \<Rightarrow> collector \<Rightarrow> collector" where
  "gather P ch b [] c = c"
| "gather P ch b (x # xs) c =
     (case marker_hit ch (x # xs) of
        Some (ch', n) \<Rightarrow>
          gather P ch' (if ch = TEXT \<and> ch' = TEXT then b else ch = TOOL) (drop n (x # xs))
            (if ch = TEXT \<and> ch' = TOOL \<and> b then close_tool P c else c)
      | None \<Rightarrow> gather P ch (b \<and> ch \<noteq> TEXT) xs (collect P (ch, [x]) c))"
  by pat_completeness auto
termination
  by (relation "measure (\<lambda>(P, ch, b, s, c). length s)") (auto dest: marker_hit_pos [OF sym] marker_hit_pos)

section \<open>The pipeline gathers the decoded text\<close>

lemma close_tool_idem [simp]: "close_tool P (close_tool P c) = close_tool P c"
  by (simp add: close_tool_def)

lemma collect_append: "collect P (ch, s @ t) c = collect P (ch, t) (collect P (ch, s) c)"
  by (cases ch) (simp_all add: close_tool_def Let_def)

lemma gather_skip:
  "n \<le> length s \<Longrightarrow> (\<And>j. j < n \<Longrightarrow> marker_hit ch (drop j s) = None) \<Longrightarrow>
     gather P ch b s c =
       gather P ch (b \<and> (ch \<noteq> TEXT \<or> n = 0)) (drop n s) (if n = 0 then c else collect P (ch, take n s) c)"
proof (induction n arbitrary: s b c)
  case (Suc n)
  then obtain x xs where s: "s = x # xs" by (cases s) auto
  from Suc.prems(2) [of 0] s have "marker_hit ch (x # xs) = None" by simp
  moreover have "gather P ch (b \<and> ch \<noteq> TEXT) xs (collect P (ch, [x]) c) =
      gather P ch ((b \<and> ch \<noteq> TEXT) \<and> (ch \<noteq> TEXT \<or> n = 0)) (drop n xs)
        (if n = 0 then collect P (ch, [x]) c else collect P (ch, take n xs) (collect P (ch, [x]) c))"
  proof (rule Suc.IH)
    show "n \<le> length xs" using Suc.prems(1) s by simp
    show "\<And>j. j < n \<Longrightarrow> marker_hit ch (drop j xs) = None"
      using Suc.prems(2) s by (metis Suc_mono drop_Suc_Cons)
  qed
  ultimately show ?case using s collect_append [of P ch "[x]" "take n xs" c] by (cases "n = 0") auto
qed simp

lemma gather_hit:
  assumes "marker_hit ch s = Some (ch', n)" "s \<noteq> []"
  shows "gather P ch b s c =
    gather P ch' (if ch = TEXT \<and> ch' = TEXT then b else ch = TOOL) (drop n s)
      (if ch = TEXT \<and> ch' = TOOL \<and> b then close_tool P c else c)"
  using assms by (cases s) auto

text \<open>With no open call the flag does not matter.\<close>

lemma gather_flag: "tool_buf c = [] \<Longrightarrow> gather P TEXT b s c = gather P TEXT False s c"
proof (induction "length s" arbitrary: s b c rule: less_induct)
  case less
  show ?case
  proof (cases s)
    case (Cons x xs)
    show ?thesis
    proof (cases "marker_hit TEXT s")
      case None
      then show ?thesis using Cons by simp
    next
      case (Some r)
      obtain ch' n where r: "marker_hit TEXT s = Some (ch', n)" using Some by (cases r) auto
      have cl: "close_tool P c = c" using less.prems by (simp add: close_tool_def)
      have "length (drop n s) < length s" using marker_hit_pos [OF r] Cons by simp
      from less.hyps [OF this, of c b] less.prems show ?thesis
        using gather_hit [OF r] Cons cl by (cases "ch' = TEXT") auto
    qed
  qed simp
qed

text \<open>A marker at position \<open>e\<close>, with none before it, ends the bytes of the channel.\<close>

lemma gather_found:
  assumes "\<forall>j<e. marker_hit ch (drop j s) = None" "marker_hit ch (drop e s) = Some (ch', n)" "e < length s"
  shows "gather P ch b s c =
    gather P ch' (if ch = TEXT \<and> ch' = TEXT then b \<and> e = 0 else ch = TOOL) (drop (e + n) s)
      (if ch = TEXT \<and> ch' = TOOL \<and> b \<and> e = 0 then close_tool P c
       else if e = 0 then c else collect P (ch, take e s) c)"
proof -
  let ?c = "if e = 0 then c else collect P (ch, take e s) c"
  let ?b = "b \<and> (ch \<noteq> TEXT \<or> e = 0)"
  have ne: "drop e s \<noteq> []" using assms(3) by simp
  have "gather P ch b s c = gather P ch ?b (drop e s) ?c"
    using gather_skip [of e s ch P b c] assms(1,3) by (simp only: less_imp_le)
  also have "\<dots> = gather P ch' (if ch = TEXT \<and> ch' = TEXT then ?b else ch = TOOL) (drop n (drop e s))
      (if ch = TEXT \<and> ch' = TOOL \<and> ?b then close_tool P ?c else ?c)"
    by (rule gather_hit [OF assms(2) ne])
  also have "(if ch = TEXT \<and> ch' = TEXT then ?b else ch = TOOL) =
      (if ch = TEXT \<and> ch' = TEXT then b \<and> e = 0 else ch = TOOL)" by auto
  also have "(if ch = TEXT \<and> ch' = TOOL \<and> ?b then close_tool P ?c else ?c) =
      (if ch = TEXT \<and> ch' = TOOL \<and> b \<and> e = 0 then close_tool P c else ?c)" by (auto simp del: collect.simps)
  also have "drop n (drop e s) = drop (e + n) s" by (simp add: add.commute)
  finally show ?thesis .
qed

declare gather.simps [simp del]

lemma tool_buf_collect [simp]: "ch \<noteq> TOOL \<Longrightarrow> tool_buf (collect P (ch, t) c) = []"
  by (cases ch) (simp_all add: close_tool_def Let_def)

lemma fold_push [simp]:
  "fold (collect P) (push_text p h ch) c = (if p = 0 then c else collect P (ch, take p h) c)"
  by (simp add: push_text_def)

lemma emit_head_gather:
  assumes "\<And>m. m \<in> set (markers (chan s0)) \<Longrightarrow> find_sub m (hold s0) = None"
    and "\<And>m. m \<in> set (markers (chan s0)) \<Longrightarrow> tail_keep (hold s0) m \<le> keep"
    and "emit_head s0 keep = (s1, o1, e)"
  shows "gather P (chan s0) b (hold s0 @ rest) c =
    gather P (chan s1) (b \<and> (chan s0 \<noteq> TEXT \<or> \<not> e)) (hold s1 @ rest) (fold (collect P) o1 c)"
proof (cases "length (hold s0) > keep")
  case True
  then have "s1 = s0\<lparr>hold := drop (length (hold s0) - keep) (hold s0)\<rparr>" "e"
    "o1 = [(chan s0, take (length (hold s0) - keep) (hold s0))]"
    using assms(3) by (auto simp: emit_head_def)
  then show ?thesis
    using gather_skip [of "length (hold s0) - keep" "hold s0 @ rest" "chan s0" P b c]
      held_hits [OF assms(1,2)] True
    by simp
next
  case False
  then show ?thesis using assms(3) by (simp add: emit_head_def)
qed

lemma marker_gather:
  assumes "(\<forall>j<e. marker_hit ch (drop j (h @ rest)) = None) \<and>
    marker_hit ch (drop e (h @ rest)) = Some (ch', length m) \<and> e + length m \<le> length h \<and> m \<noteq> []"
  shows "gather P ch b (h @ rest) c =
    gather P ch' (if ch = TEXT \<and> ch' = TEXT then b \<and> e = 0 else ch = TOOL) (drop (e + length m) h @ rest)
      (if ch = TEXT \<and> ch' = TOOL \<and> b \<and> e = 0 then close_tool P c
       else if e = 0 then c else collect P (ch, take e h) c)"
proof -
  have len: "e + length m \<le> length h" "0 < length m" using assms by blast+
  have "take e (h @ rest) = take e h" "drop (e + length m) (h @ rest) = drop (e + length m) h @ rest"
    using len(1) by simp_all
  moreover have "e < length (h @ rest)" unfolding length_append using len by linarith
  ultimately show ?thesis using gather_found [of e ch "h @ rest" ch' "length m" P b c] assms by metis
qed

lemma feed_iter_gather:
  assumes "feed_iter s0 = (k, s1, o1)"
  shows "gather P (chan s0) (tool_boundary s0) (hold s0 @ rest) c =
    gather P (chan s1) (tool_boundary s1) (hold s1 @ rest) (fold (collect P) o1 c)"
proof (cases "chan s0 = TEXT")
  case True
  let ?h = "hold s0"
  let ?e = "npos_min (find_sub T_OPEN ?h) (npos_min (find_sub C_OPEN ?h) (find_sub C_CLOSE ?h))"
  show ?thesis
  proof (cases ?e)
    case None
    let ?k = "max (max (tail_keep ?h T_OPEN) (tail_keep ?h C_OPEN)) (tail_keep ?h C_CLOSE)"
    obtain s2 out0 b0 where eh: "emit_head s0 ?k = (s2, out0, b0)" by (cases "emit_head s0 ?k")
    have "gather P (chan s0) (tool_boundary s0) (?h @ rest) c =
        gather P (chan s2) (tool_boundary s0 \<and> (chan s0 \<noteq> TEXT \<or> \<not> b0)) (hold s2 @ rest) (fold (collect P) out0 c)"
      using None True eh by (intro emit_head_gather) (auto simp: markers_def)
    moreover have "tool_boundary s2 = tool_boundary s0" "chan s2 = TEXT"
      using eh True by (auto simp: emit_head_def split: if_splits)
    ultimately show ?thesis
      using assms True None eh by (auto simp: feed_iter_def Let_def split: if_splits)
  next
    case (Some e)
    have least: "\<And>m k. m \<in> set (markers TEXT) \<Longrightarrow> find_sub m ?h = Some k \<Longrightarrow> e \<le> k"
      using npos_min_least [OF Some] npos_min_least
      by (cases "npos_min (find_sub C_OPEN ?h) (find_sub C_CLOSE ?h)")
        (fastforce simp: markers_def)+
    have in_markers: "T_OPEN \<in> set (markers TEXT)" "C_OPEN \<in> set (markers TEXT)"
      "C_CLOSE \<in> set (markers TEXT)" by (simp_all add: markers_def)
    let ?c = "if e = 0 then c else collect P (TEXT, take e ?h) c"
    let ?b = "tool_boundary s0 \<and> e = 0"
    have found: "gather P TEXT (tool_boundary s0) (?h @ rest) c =
        gather P ch' (if ch' = TEXT then ?b else False) (drop (e + length m0) ?h @ rest)
          (if ch' = TOOL \<and> ?b then close_tool P c else ?c)"
      if m: "m0 \<in> set (markers TEXT)" "find_sub m0 ?h = Some e"
        "ch' = (if m0 = T_OPEN then THINK else if m0 = C_OPEN then TOOL else TEXT)" for m0 ch'
    proof -
      have hits: "(\<forall>j<e. marker_hit TEXT (drop j (?h @ rest)) = None) \<and>
          marker_hit TEXT (drop e (?h @ rest)) = Some (ch', length m0) \<and> e + length m0 \<le> length ?h \<and> m0 \<noteq> []"
        unfolding m(3) using m(1,2) least by (rule found_hits)
      show ?thesis by (rule marker_gather [OF hits, simplified chan.simps simp_thms])
    qed
    consider "find_sub T_OPEN ?h = Some e"
      | "find_sub T_OPEN ?h \<noteq> Some e" "find_sub C_OPEN ?h = Some e"
      | "find_sub T_OPEN ?h \<noteq> Some e" "find_sub C_OPEN ?h \<noteq> Some e" "find_sub C_CLOSE ?h = Some e"
      using npos_min_SomeD [OF Some] npos_min_SomeD by blast
    then show ?thesis
    proof cases
      case 1
      with found [OF in_markers(1) _ refl] show ?thesis using assms True Some
        by (auto simp: feed_iter_def Let_def)
    next
      case 2
      then have "s1 = s0\<lparr>tool_boundary := False, hold := drop (e + length C_OPEN) ?h, chan := TOOL\<rparr>"
        "o1 = (if e = 0 \<and> tool_boundary s0 then [(TEXT, [])] else []) @ push_text e ?h TEXT"
        using assms True Some by (auto simp: feed_iter_def Let_def)
      moreover have "collect P (TEXT, []) c' = close_tool P c'" for c' by (simp add: Let_def)
      ultimately show ?thesis using found [OF in_markers(2) 2(2) refl] True marker_neq by auto
    next
      case 3
      then have s: "s1 = s0\<lparr>hold := drop (e + length C_CLOSE) ?h\<rparr>" "o1 = push_text e ?h TEXT"
        using assms True Some by (auto simp: feed_iter_def Let_def)
      have "gather P TEXT ?b t ?c = gather P TEXT (tool_boundary s0) t ?c" for t
        using gather_flag [of ?c P "tool_boundary s0" t] by (cases "e = 0") (auto simp del: collect.simps)
      then show ?thesis using found [OF in_markers(3) 3(3) refl] True s marker_neq by (simp add: marker_neq [symmetric])
    qed
  qed
next
  case False
  let ?h = "hold s0"
  define m where "m = (if chan s0 = THINK then T_CLOSE else C_CLOSE)"
  have m: "set (markers (chan s0)) = {m}"
    using False by (cases "chan s0") (auto simp: markers_def m_def)
  have m_neq: "m \<noteq> T_OPEN" "m \<noteq> C_OPEN" using marker_neq by (auto simp: m_def)
  show ?thesis
  proof (cases "find_sub m ?h")
    case None
    obtain s2 out0 b0 where eh: "emit_head s0 (tail_keep ?h m) = (s2, out0, b0)"
      by (cases "emit_head s0 (tail_keep ?h m)")
    have "gather P (chan s0) (tool_boundary s0) (?h @ rest) c =
        gather P (chan s2) (tool_boundary s0 \<and> (chan s0 \<noteq> TEXT \<or> \<not> b0)) (hold s2 @ rest) (fold (collect P) out0 c)"
      using None eh m by (intro emit_head_gather) auto
    moreover have "tool_boundary s2 = tool_boundary s0" using eh by (auto simp: emit_head_def split: if_splits)
    ultimately show ?thesis
      using assms False None eh by (simp add: feed_iter_def Let_def flip: m_def)
  next
    case (Some e)
    have in_m: "m \<in> set (markers (chan s0))" using m by simp
    have least: "\<And>m' k. m' \<in> set (markers (chan s0)) \<Longrightarrow> find_sub m' ?h = Some k \<Longrightarrow> e \<le> k"
      using m Some by simp
    have "(\<forall>j<e. marker_hit (chan s0) (drop j (?h @ rest)) = None) \<and>
        marker_hit (chan s0) (drop e (?h @ rest)) =
          Some (if m = T_OPEN then THINK else if m = C_OPEN then TOOL else TEXT, length m) \<and>
        e + length m \<le> length ?h \<and> m \<noteq> []"
      using in_m Some least by (rule found_hits)
    then have hits: "(\<forall>j<e. marker_hit (chan s0) (drop j (?h @ rest)) = None) \<and>
        marker_hit (chan s0) (drop e (?h @ rest)) = Some (TEXT, length m) \<and> e + length m \<le> length ?h \<and> m \<noteq> []"
      unfolding if_not_P [OF m_neq(1)] if_not_P [OF m_neq(2)] .
    have "s1 = s0\<lparr>hold := drop (e + length m) ?h, tool_boundary := (chan s0 = TOOL), chan := TEXT\<rparr>"
      "o1 = push_text e ?h (chan s0)"
      using assms False Some by (simp_all add: feed_iter_def Let_def flip: m_def)
    then show ?thesis using marker_gather [OF hits, of P "tool_boundary s0" c] False by simp
  qed
qed

lemma feed_loop_gather:
  "feed_loop s0 o1 = (s1, o2) \<Longrightarrow>
     gather P (chan s1) (tool_boundary s1) (hold s1 @ rest) (fold (collect P) o2 c) =
     gather P (chan s0) (tool_boundary s0) (hold s0 @ rest) (fold (collect P) o1 c)"
proof (induction s0 o1 arbitrary: s1 o2 rule: feed_loop.induct)
  case (1 s0 o1)
  obtain k s2 o3 where it: "feed_iter s0 = (k, s2, o3)" by (cases "feed_iter s0")
  note step = feed_iter_gather [OF it, of P rest "fold (collect P) o1 c"]
  show ?case
  proof (cases k)
    case True
    with 1 it step show ?thesis by (simp add: feed_loop.simps [of s0 o1])
  next
    case False
    with 1 it step show ?thesis by (auto simp: feed_loop.simps [of s0 o1])
  qed
qed

lemma split_feed_gather:
  "split_feed s0 piece = (s1, o1) \<Longrightarrow>
     gather P (chan s0) (tool_boundary s0) (hold s0 @ piece @ rest) c =
     gather P (chan s1) (tool_boundary s1) (hold s1 @ rest) (fold (collect P) o1 c)"
  using feed_loop_gather [of "s0\<lparr>hold := hold s0 @ piece\<rparr>" "[]" s1 o1 P rest c]
  by (simp add: split_feed_def)

lemma settled_gather:
  assumes "settled s0"
  shows "gather P (chan s0) (tool_boundary s0) (hold s0) c = fold (collect P) (snd (split_flush s0)) c"
proof -
  have "marker_hit (chan s0) (drop j (hold s0)) = None" if "j < length (hold s0)" for j
    using assms that find_sub_None [of _ "hold s0" j]
    by (auto simp: marker_hit_None_iff settled_def list_all_iff)
  from gather_skip [OF order.refl this, of P "tool_boundary s0" c] show ?thesis
    by (simp add: split_flush_def gather.simps)
qed

lemma split_stream_gather:
  "settled s0 \<Longrightarrow>
     fold (collect P) (split_stream s0 ps) c = gather P (chan s0) (tool_boundary s0) (hold s0 @ concat ps) c"
proof (induction ps arbitrary: s0 c)
  case Nil
  then show ?case by (simp add: settled_gather)
next
  case (Cons p ps)
  obtain s1 o1 where f: "split_feed s0 p = (s1, o1)" by (cases "split_feed s0 p")
  from split_feed_gather [OF f, of P "concat ps" c] Cons.IH [OF split_feed_settled [OF f]] f
  show ?case by simp
qed

text \<open>The pipeline is the splitter fed with what the gate emits.\<close>

lemma pipe_stream:
  "pipe_end P (fold (on_tok tk P) ids p) =
     (case gate_stream (ugate p) (map (\<lambda>i. decode_one tk (int i)) ids) of
        (outs, fin) \<Rightarrow> close_tool P (fold (collect P) (split_stream (sp p) (outs @ [fin])) (col p)))"
proof (induction ids arbitrary: p)
  case Nil
  show ?case
    by (simp add: pipe_end_def pipe_piece_def gate_flush_def split: prod.split)
next
  case (Cons i ids)
  obtain g piece where g: "gate_feed (ugate p) (decode_one tk (int i)) = (g, piece)" by fastforce
  obtain s1 segs where s: "split_feed (sp p) piece = (s1, segs)" by fastforce
  have "on_tok tk P i p = p\<lparr>ugate := g, sp := s1, col := fold (collect P) segs (col p)\<rparr>"
    by (simp add: on_tok_def pipe_piece_def g s)
  then show ?case using Cons.IH [of "on_tok tk P i p"] by (simp add: g s split: prod.split)
qed

lemma pipe_gathers:
  assumes "utf8_text (decode tk ids)"
  shows "pipe_end P (fold (on_tok tk P) ids (pipe_init ch)) =
    close_tool P (gather P ch False (decode tk ids) collector_init)"
proof -
  let ?ps = "map (\<lambda>i. decode_one tk (int i)) ids"
  obtain outs fin where g: "gate_stream [] ?ps = (outs, fin)" by fastforce
  have "concat outs = decode tk ids" "fin = []"
    using gate_stream_text [of "[]" ?ps] assms g by (simp_all add: utf8_partial_def decode_def)
  moreover have "settled (splitter_init\<lparr>chan := ch\<rparr>)"
    by (simp add: settled_def splitter_init_def markers_def marker_defs split: chan.split)
  ultimately show ?thesis
    using split_stream_gather [of "splitter_init\<lparr>chan := ch\<rparr>" P "outs @ [fin]" collector_init] g
    by (simp add: pipe_stream pipe_init_def splitter_init_def)
qed

section \<open>Properties\<close>

definition on_chan :: "chan \<Rightarrow> (chan \<times> char) list \<Rightarrow> string" where
  "on_chan ch tags = map snd (filter (\<lambda>(k, _). k = ch) tags)"

lemma on_chan_Cons [simp]: "on_chan ch ((k, x) # tags) = (if k = ch then x # on_chan ch tags else on_chan ch tags)"
  by (simp add: on_chan_def)

lemma close_tool_fields [simp]: "answer (close_tool P c) = answer c" "think (close_tool P c) = think c"
  by (simp_all add: close_tool_def)

text \<open>The answer and the thinking are what the reference routing sends to their channels.\<close>

lemma gather_route:
  "answer (gather P ch b s c) = answer c @ on_chan TEXT (route ch s) \<and>
   think (gather P ch b s c) = think c @ on_chan THINK (route ch s)"
proof (induction P ch b s c rule: gather.induct)
  case (1 P ch b c)
  then show ?case by (simp add: gather.simps on_chan_def)
next
  case (2 P ch b x xs c)
  show ?case
  proof (cases "marker_hit ch (x # xs)")
    case None
    with 2(1) [OF None] show ?thesis by (cases ch) (simp_all add: gather.simps Let_def)
  next
    case (Some r)
    obtain ch' n where r: "r = (ch', n)" by fastforce
    then show ?thesis using Some 2(2) [OF Some r [symmetric]] by (simp add: gather.simps)
  qed
qed

text \<open>
  C2: the reply depends on the decoded text only.  For a generation whose text is well-formed UTF-8, however it
  is cut into tokens, the handler replies as if it had read the whole text at once: the answer and the
  thinking are, byte for byte, what the reference routing sends to their channels, and the calls are
  parsed from the tool bodies that the reference gathers.  Only a batch error with nothing generated
  fails instead.
\<close>

theorem chat_reply_exact:
  assumes "utf8_text (decode tk ids)"
  shows "let P = parse_tool_call (rq_parse q) (rq_strict q);
             ch = start_chan (rq_forced q) (rq_thinking q);
             c = close_tool P (gather P ch False (decode tk ids) collector_init)
    in serve_chat tk q ids n berr = (if berr \<noteq> [] \<and> n = 0 then Failed berr else reply_of q n c) \<and>
       answer c = on_chan TEXT (route ch (decode tk ids)) \<and> think c = on_chan THINK (route ch (decode tk ids))"
  using pipe_gathers [OF assms] gather_route
  by (simp add: serve_chat_def Let_def collector_init_def)

text \<open>Two tokens that cut the closing marker of a thinking prompt.\<close>

definition pieces_tk :: "string \<Rightarrow> string \<Rightarrow> tokenizer" where
  "pieces_tk v w = \<lparr>tokens = [concat (map b2u v), concat (map b2u w)], types = [1, 1], bos = 0, eos = 0,
     tok2id = Map.empty, merge_rank = Map.empty, specials = []\<rparr>"

lemma decode_pieces: "decode (pieces_tk v w) [0, 1] = v @ w"
  by (simp add: decode_def decode_one_def pieces_tk_def gpt2.decode_word)

definition demo_pieces :: tokenizer where
  "demo_pieces = pieces_tk ''a</'' ''think>b''"

definition demo_req :: chat_req where
  "demo_req = \<lparr>rq_parse = (\<lambda>_. None), rq_dump = (\<lambda>_. []), rq_strict = False, rq_tools = JNull, rq_forced = False,
     rq_thinking = True, rq_obj = ''chat.completion'', rq_model = ''q27'', rq_created = 0, rq_rid = 7,
     rq_prompt = 3, rq_n_max = 9\<rparr>"

lemma utf8_text_ascii: "list_all (\<lambda>c. seq_len (byte c) = 1) s \<Longrightarrow> utf8_text s"
proof (induction s)
  case (Cons c s)
  then show ?case using utf8_step [of "[c]" s] by (simp add: utf8_char_def)
qed (rule utf8_Nil)

theorem chat_reply_exact_witness:
  "serve_chat demo_pieces demo_req [0, 1] 2 [] =
     reply_of demo_req 2 \<lparr>think = ''a'', answer = ''b'', tool_buf = [], calls = []\<rparr>"
proof -
  have t: "decode demo_pieces [0, 1] = ''a</think>b''"
    unfolding demo_pieces_def decode_pieces by simp
  have u: "utf8_text (decode demo_pieces [0, 1])"
    unfolding t by (rule utf8_text_ascii) (simp add: seq_len_def)
  have "close_tool (parse_tool_call (rq_parse demo_req) (rq_strict demo_req))
      (gather (parse_tool_call (rq_parse demo_req) (rq_strict demo_req))
        (start_chan (rq_forced demo_req) (rq_thinking demo_req)) False ''a</think>b'' collector_init) =
    \<lparr>think = ''a'', answer = ''b'', tool_buf = [], calls = []\<rparr>" by code_simp
  then show ?thesis using chat_reply_exact [OF u, of demo_req 2 "[]"] unfolding t Let_def by simp
qed

end
