(* ===== verification/Agent_Session.thy ===== *)
theory Agent_Session
  imports Q27_Prelude
begin

text \<open>
  The agent's ledger of the tokens its resident engine holds, \<^verbatim>\<open>experiments/ds4-agent/q27_agent_session.h\<close>,
  and the parts of \<^verbatim>\<open>q27_agent_engine.cpp\<close> that drive it: the prompt phase of a turn with its
  cancellation points, the step after an emitted token, and the bookkeeping of the last one.  The
  engine is the list of the tokens whose rows it holds, with the checks \<^verbatim>\<open>MetalEngine\<close> makes;
  what the device computes, and whether it fails, is the parameter \<open>device\<close>.  The answers of the
  caller's \<^verbatim>\<open>alive\<close> and \<^verbatim>\<open>prefill_sink\<close> callbacks are the parameter \<open>ans\<close>, numbered in the
  order of the calls.
\<close>

section \<open>The ledger\<close>

record session =
  tokens :: "nat list"
  valid :: bool
  pending :: bool

record plan =
  p_reset :: bool
  finalize_pending :: bool
  append_offset :: nat
  cached_tokens :: nat

definition empty_session :: session where
  "empty_session = \<lparr>tokens = [], valid = False, pending = False\<rparr>"

definition invalidate :: "session \<Rightarrow> session" where
  "invalidate s = s\<lparr>tokens := [], valid := False, pending := False\<rparr>"

definition make_plan :: "session \<Rightarrow> nat list \<Rightarrow> nat \<Rightarrow> plan" where
  "make_plan s prompt engine_position =
     (let none = \<lparr>p_reset = True, finalize_pending = False, append_offset = 0, cached_tokens = 0\<rparr>;
          encoded = length (tokens s) - (if pending s then 1 else 0)
      in if \<not> valid s then none
         else if encoded \<noteq> engine_position \<or> length prompt < length (tokens s) then none
         else if \<not> list_all (\<lambda>i. prompt ! i = tokens s ! i) [0..<length (tokens s)] then none
         else \<lparr>p_reset = False, finalize_pending = pending s, append_offset = length (tokens s), cached_tokens = encoded\<rparr>)"

definition commit_prompt :: "session \<Rightarrow> nat list \<Rightarrow> session" where
  "commit_prompt s prompt = s\<lparr>tokens := prompt, valid := True, pending := False\<rparr>"

definition record_emitted :: "session \<Rightarrow> nat \<Rightarrow> bool \<times> session" where
  "record_emitted s token =
     (if pending s then (False, invalidate s)
      else (True, s\<lparr>tokens := tokens s @ [token], valid := True, pending := True\<rparr>))"

definition mark_pending_encoded :: "session \<Rightarrow> bool \<times> session" where
  "mark_pending_encoded s =
     (if \<not> valid s \<or> \<not> pending s then (False, invalidate s) else (True, s\<lparr>pending := False\<rparr>))"

definition restore :: "session \<Rightarrow> nat list \<Rightarrow> bool \<Rightarrow> bool \<times> session" where
  "restore s toks pend =
     (if toks = [] \<or> (pend \<and> length toks < 1) then (False, invalidate s)
      else (True, s\<lparr>tokens := toks, valid := True, pending := pend\<rparr>))"

definition encoded_count :: "session \<Rightarrow> nat" where
  "encoded_count s = (if valid s then length (tokens s) - (if pending s then 1 else 0) else 0)"

section \<open>The engine as the ledger sees it\<close>

definition VOCAB :: nat where "VOCAB = 248320"
definition PREFILL_CHUNK_MAX :: nat where "PREFILL_CHUNK_MAX = 96"

record metal =
  rows :: "nat list"
  max_context :: nat
  chunked_prefill :: bool

text \<open>
  The device: the next token after a forward pass over the rows, the token read from the resident
  logits, and the sampled one; \<open>None\<close> is an exception.
\<close>

record device =
  forward :: "nat list \<Rightarrow> nat option"
  from_logits :: "nat list \<Rightarrow> nat option"
  sampled :: "nat list \<Rightarrow> nat option"

definition eng_reset :: "metal \<Rightarrow> metal" where
  "eng_reset e = e\<lparr>rows := []\<rparr>"

definition eng_step :: "device \<Rightarrow> metal \<Rightarrow> nat \<Rightarrow> nat option \<times> metal" where
  "eng_step d e token =
     (if token \<ge> VOCAB then (None, e)
      else if length (rows e) \<ge> max_context e then (None, e)
      else case forward d (rows e @ [token]) of
             None \<Rightarrow> (None, e)
           | Some nx \<Rightarrow> (Some nx, e\<lparr>rows := rows e @ [token]\<rparr>))"

definition eng_prefill_chunk :: "device \<Rightarrow> metal \<Rightarrow> nat list \<Rightarrow> bool \<times> metal" where
  "eng_prefill_chunk d e toks =
     (if \<not> chunked_prefill e then (False, e)
      else if length toks < 2 \<or> length toks > PREFILL_CHUNK_MAX then (False, e)
      else if length (rows e) + length toks > max_context e then (False, e)
      else if \<not> list_all (\<lambda>t. t < VOCAB) toks then (False, e)
      else case forward d (rows e @ toks) of
             None \<Rightarrow> (False, e)
           | Some _ \<Rightarrow> (True, e\<lparr>rows := rows e @ toks\<rparr>))"

section \<open>The turn\<close>

record run =
  sess :: session
  eng :: metal
  polled :: nat
  prefilled :: nat
  reported :: nat

record cfg =
  dev :: device
  ans :: "nat \<Rightarrow> bool"
  has_sink :: bool
  use_sample :: bool

datatype stop = Cancelled | Threw

type_synonym 'a result = "run \<times> (stop + 'a)"

text \<open>Cancellation and every exception drop the ledger before the turn returns.\<close>

definition cancelled :: "run \<Rightarrow> 'a result" where
  "cancelled st = (st\<lparr>sess := invalidate (sess st)\<rparr>, Inl Cancelled)"

definition threw :: "run \<Rightarrow> 'a result" where
  "threw st = (st\<lparr>sess := invalidate (sess st)\<rparr>, Inl Threw)"

definition andthen :: "'a result \<Rightarrow> (run \<Rightarrow> 'a \<Rightarrow> 'b result) \<Rightarrow> 'b result" where
  "andthen r f = (case r of (st, Inl x) \<Rightarrow> (st, Inl x) | (st, Inr a) \<Rightarrow> f st a)"

definition check_alive :: "cfg \<Rightarrow> run \<Rightarrow> unit result" where
  "check_alive c st =
     (let st1 = st\<lparr>polled := Suc (polled st)\<rparr> in if ans c (polled st) then (st1, Inr ()) else cancelled st1)"

definition publish_prefill :: "cfg \<Rightarrow> run \<Rightarrow> unit result" where
  "publish_prefill c st = (if \<not> has_sink c then (st, Inr ()) else check_alive c st)"

definition record_prefill :: "nat \<Rightarrow> run \<Rightarrow> run" where
  "record_prefill n st = st\<lparr>prefilled := prefilled st + n\<rparr>"

text \<open>The checks after every engine call: cancellation, then progress once a chunk's worth is done.\<close>

definition after_count :: "cfg \<Rightarrow> run \<Rightarrow> unit result" where
  "after_count c st =
     andthen (check_alive c st) (\<lambda>st _.
       if prefilled st - reported st \<ge> PREFILL_CHUNK_MAX
       then andthen (publish_prefill c st) (\<lambda>st' _. (st'\<lparr>reported := prefilled st\<rparr>, Inr ()))
       else (st, Inr ()))"

definition chunkable :: "metal \<Rightarrow> nat list \<Rightarrow> nat" where
  "chunkable e ids = (if chunked_prefill e then length ids - 1 else 0)"

function chunk_loop :: "cfg \<Rightarrow> nat list \<Rightarrow> nat \<Rightarrow> nat \<Rightarrow> run \<Rightarrow> nat result" where
  "chunk_loop c ids lim off st =
     (if off < lim \<and> lim - off \<ge> 2 then
        (let cnt = min PREFILL_CHUNK_MAX (lim - off)
         in case eng_prefill_chunk (dev c) (eng st) (take cnt (drop off ids)) of
              (False, e) \<Rightarrow> threw (st\<lparr>eng := e\<rparr>)
            | (True, e) \<Rightarrow>
                andthen (after_count c (record_prefill cnt (st\<lparr>eng := e\<rparr>))) (\<lambda>st _. chunk_loop c ids lim (off + cnt) st))
      else (st, Inr off))"
  by pat_completeness auto

termination
  by (relation "measure (\<lambda>(c, ids, lim, off, st). lim - off)") (auto simp: PREFILL_CHUNK_MAX_def)

declare chunk_loop.simps [simp del]

fun step_loop :: "cfg \<Rightarrow> nat list \<Rightarrow> nat \<Rightarrow> run \<Rightarrow> nat result" where
  "step_loop c [] cur st = (st, Inr cur)"
| "step_loop c (t # ts) cur st =
     (case eng_step (dev c) (eng st) t of
        (None, e) \<Rightarrow> threw (st\<lparr>eng := e\<rparr>)
      | (Some nx, e) \<Rightarrow> andthen (after_count c (record_prefill 1 (st\<lparr>eng := e\<rparr>))) (\<lambda>st _. step_loop c ts nx st))"

text \<open>The start of the prompt phase: reset, or reuse with the pending token finalised.\<close>

definition begin_prompt :: "cfg \<Rightarrow> plan \<Rightarrow> nat list \<Rightarrow> run \<Rightarrow> (nat \<times> nat) result" where
  "begin_prompt c p ids st =
     (if p_reset p then (st\<lparr>sess := invalidate (sess st), eng := eng_reset (eng st)\<rparr>, Inr (0, 0))
      else if \<not> finalize_pending p then (st, Inr (append_offset p, 0))
      else case eng_step (dev c) (eng st) (ids ! (append_offset p - 1)) of
             (None, e) \<Rightarrow> threw (st\<lparr>eng := e\<rparr>)
           | (Some nx, e) \<Rightarrow>
               (let st1 = record_prefill 1 (st\<lparr>eng := e\<rparr>); (ok, s) = mark_pending_encoded (sess st1)
                in if \<not> ok then threw (st1\<lparr>sess := s\<rparr>)
                   else andthen (check_alive c (st1\<lparr>sess := s\<rparr>)) (\<lambda>st _. (st, Inr (append_offset p, nx)))))"

definition first_token :: "cfg \<Rightarrow> plan \<Rightarrow> nat list \<Rightarrow> nat \<Rightarrow> run \<Rightarrow> nat result" where
  "first_token c p ids cur st =
     (let pick = (\<lambda>r. case r of None \<Rightarrow> threw st | Some t \<Rightarrow> (st\<lparr>sess := commit_prompt (sess st) ids\<rparr>, Inr t))
      in if use_sample c then pick (sampled (dev c) (rows (eng st)))
         else if length ids = append_offset p \<and> \<not> finalize_pending p then pick (from_logits (dev c) (rows (eng st)))
         else pick (Some cur))"

definition prompt_phase :: "cfg \<Rightarrow> nat list \<Rightarrow> run \<Rightarrow> nat result" where
  "prompt_phase c ids st =
     (let p = make_plan (sess st) ids (length (rows (eng st)))
      in andthen (check_alive c (st\<lparr>prefilled := 0, reported := 0\<rparr>)) (\<lambda>st _.
         andthen (publish_prefill c st) (\<lambda>st _.
         andthen (begin_prompt c p ids st) (\<lambda>st (off, cur).
         andthen (chunk_loop c ids (chunkable (eng st) ids) off st) (\<lambda>st off.
         andthen (step_loop c (drop off ids) cur st) (\<lambda>st cur.
         andthen (if prefilled st \<noteq> reported st then publish_prefill c st else (st, Inr ())) (\<lambda>st _.
         first_token c p ids cur st)))))))"

text \<open>After a token was streamed: record it, encode it and pick the next one.\<close>

definition advance_after_emit :: "cfg \<Rightarrow> nat \<Rightarrow> run \<Rightarrow> nat result" where
  "advance_after_emit c tok st =
     (let (ok, s) = record_emitted (sess st) tok; st0 = st\<lparr>sess := s\<rparr>
      in if \<not> ok then threw st0
         else andthen (check_alive c st0) (\<lambda>st _.
           case eng_step (dev c) (eng st) tok of
             (None, e) \<Rightarrow> threw (st\<lparr>eng := e\<rparr>)
           | (Some nx, e) \<Rightarrow>
               (let (ok, s) = mark_pending_encoded (sess st); st1 = st\<lparr>eng := e, sess := s\<rparr>
                in if \<not> ok then threw st1
                   else if use_sample c then
                     andthen (check_alive c st1) (\<lambda>st _.
                       case sampled (dev c) (rows (eng st)) of
                         None \<Rightarrow> threw st
                       | Some t \<Rightarrow> andthen (check_alive c st) (\<lambda>st _. (st, Inr t)))
                   else andthen (check_alive c st1) (\<lambda>st _. (st, Inr nx)))))"

text \<open>The last token of a turn: the result stands, whatever happens to the ledger; the flag is \<^verbatim>\<open>poisoned\<close>.\<close>

definition finalize_last :: "cfg \<Rightarrow> nat \<Rightarrow> bool \<Rightarrow> run \<Rightarrow> run \<times> bool" where
  "finalize_last c tok already_encoded st =
     (let (ok, s) = record_emitted (sess st) tok; st0 = st\<lparr>sess := s\<rparr>; drop_it = (\<lambda>st. st\<lparr>sess := invalidate (sess st)\<rparr>)
      in if \<not> ok then (drop_it st0, False)
         else if already_encoded then
           (let (ok, s) = mark_pending_encoded (sess st0); st1 = st0\<lparr>sess := s\<rparr>
            in (if ok then st1 else drop_it st1, False))
         else if length (rows (eng st0)) < max_context (eng st0) then
           (case check_alive c st0 of
              (st1, Inl _) \<Rightarrow> (st1, False)
            | (st1, Inr _) \<Rightarrow>
                (let (nx, e) = eng_step (dev c) (eng st1) tok;
                     (st2, bad) =
                       (case nx of
                          None \<Rightarrow> (drop_it (st1\<lparr>eng := e\<rparr>), True)
                        | Some _ \<Rightarrow>
                            (let (ok, s) = mark_pending_encoded (sess st1); st2 = st1\<lparr>eng := e, sess := s\<rparr>
                             in if ok then (st2, False) else (drop_it st2, True)))
                 in case check_alive c st2 of (st3, _) \<Rightarrow> (st3, bad)))
         else (st0, False))"

definition reset_agent_state :: "run \<Rightarrow> run" where
  "reset_agent_state st = st\<lparr>sess := invalidate (sess st), eng := eng_reset (eng st)\<rparr>"

section \<open>Reasoning about a turn\<close>

text \<open>
  A triple for the turn: a result that stops satisfies \<open>D\<close>, one that goes on satisfies \<open>Q\<close>.
\<close>

definition post :: "(run \<Rightarrow> bool) \<Rightarrow> 'a result \<Rightarrow> (run \<Rightarrow> 'a \<Rightarrow> bool) \<Rightarrow> bool" where
  "post D r Q \<longleftrightarrow> (case r of (st, Inl _) \<Rightarrow> D st | (st, Inr a) \<Rightarrow> Q st a)"

lemma post_Inr [simp]: "post D (st, Inr a) Q = Q st a"
  by (simp add: post_def)

lemma post_andthen:
  "post D r P \<Longrightarrow> (\<And>st a. P st a \<Longrightarrow> post D (f st a) Q) \<Longrightarrow> post D (andthen r f) Q"
  by (cases r; cases "snd r") (auto simp: post_def andthen_def)

lemma post_mono: "post D r P \<Longrightarrow> (\<And>st a. P st a \<Longrightarrow> Q st a) \<Longrightarrow> post D r Q"
  by (auto simp: post_def split: prod.splits sum.splits)

text \<open>
  A turn is \<open>healthy\<close> when nobody cancels, the device works, and the prompt fits.  A stopped turn has
  dropped the ledger, and a healthy one does not stop.
\<close>

definition healthy :: "cfg \<Rightarrow> nat list \<Rightarrow> nat \<Rightarrow> bool" where
  "healthy c ids ctx \<longleftrightarrow>
     (\<forall>n. ans c n) \<and> (\<forall>xs. forward (dev c) xs \<noteq> None \<and> from_logits (dev c) xs \<noteq> None \<and> sampled (dev c) xs \<noteq> None) \<and>
     list_all (\<lambda>t. t < VOCAB) ids \<and> length ids \<le> ctx"

definition dropped :: "bool \<Rightarrow> run \<Rightarrow> bool" where
  "dropped h st \<longleftrightarrow> sess st = empty_session \<and> \<not> h"

lemma post_threw: "\<not> h \<Longrightarrow> post (dropped h) (threw st) Q"
  by (simp add: post_def threw_def dropped_def invalidate_def empty_session_def)

text \<open>The engine and the counters a polling operation leaves alone.\<close>

definition same_run :: "run \<Rightarrow> run \<Rightarrow> bool" where
  "same_run st st' \<longleftrightarrow> sess st' = sess st \<and> eng st' = eng st \<and> prefilled st' = prefilled st"

lemma post_alive: "(h \<Longrightarrow> \<forall>n. ans c n) \<Longrightarrow> post (dropped h) (check_alive c st) (\<lambda>st' _. same_run st st')"
  by (auto simp: check_alive_def Let_def post_def cancelled_def dropped_def invalidate_def empty_session_def same_run_def)

lemma post_publish: "(h \<Longrightarrow> \<forall>n. ans c n) \<Longrightarrow> post (dropped h) (publish_prefill c st) (\<lambda>st' _. same_run st st')"
  using post_alive by (auto simp: publish_prefill_def same_run_def)

lemma post_count: "(h \<Longrightarrow> \<forall>n. ans c n) \<Longrightarrow> post (dropped h) (after_count c st) (\<lambda>st' _. same_run st st')"
  unfolding after_count_def
  by (rule post_andthen [OF post_alive], simp)
    (auto intro!: post_andthen [OF post_publish] simp: same_run_def)

text \<open>The prompt phase after \<open>n\<close> tokens of the prompt, \<open>k\<close> of which were resident.\<close>

definition at_token :: "nat list \<Rightarrow> nat \<Rightarrow> bool \<Rightarrow> nat \<Rightarrow> nat \<Rightarrow> run \<Rightarrow> bool" where
  "at_token ids ctx ch k n st \<longleftrightarrow>
     rows (eng st) = take n ids \<and> n \<le> length ids \<and> prefilled st + k = n \<and>
     max_context (eng st) = ctx \<and> chunked_prefill (eng st) = ch"

lemma at_token_same: "same_run st st' \<Longrightarrow> at_token ids ctx ch k n st \<Longrightarrow> at_token ids ctx ch k n st'"
  by (simp add: same_run_def at_token_def)

lemma list_all_take_drop: "list_all P xs \<Longrightarrow> list_all P (take a (drop b xs))"
  by (meson in_set_dropD in_set_takeD list_all_iff)

lemma chunk_outcome:
  assumes a: "at_token ids ctx True k off st" and n: "2 \<le> n" "n \<le> PREFILL_CHUNK_MAX" "off + n \<le> length ids"
  obtains e where "eng_prefill_chunk (dev c) (eng st) (take n (drop off ids)) = (True, e)"
      "at_token ids ctx True k (off + n) (record_prefill n (st\<lparr>eng := e\<rparr>))"
    | e where "eng_prefill_chunk (dev c) (eng st) (take n (drop off ids)) = (False, e)" "\<not> healthy c ids ctx"
proof -
  let ?t = "take n (drop off ids)"
  let ?e = "(eng st)\<lparr>rows := rows (eng st) @ ?t\<rparr>"
  have t: "length ?t = n" using n by simp
  have r: "rows (eng st) = take off ids" "max_context (eng st) = ctx" "chunked_prefill (eng st)"
    using a by (simp_all add: at_token_def)
  show ?thesis
  proof (cases "off + n \<le> ctx \<and> list_all (\<lambda>t. t < VOCAB) ?t \<and> forward (dev c) (rows (eng st) @ ?t) \<noteq> None")
    case True
    then have "eng_prefill_chunk (dev c) (eng st) ?t = (True, ?e)"
      using n r t by (auto simp: eng_prefill_chunk_def)
    moreover have "at_token ids ctx True k (off + n) (record_prefill n (st\<lparr>eng := ?e\<rparr>))"
      using a n by (simp add: at_token_def record_prefill_def take_add)
    ultimately show ?thesis using that(1) by blast
  next
    case False
    then have "\<not> healthy c ids ctx"
      using n list_all_take_drop [of _ ids n off] unfolding healthy_def by (meson le_trans)
    moreover have "eng_prefill_chunk (dev c) (eng st) ?t = (False, eng st)"
      using False n r t by (auto simp: eng_prefill_chunk_def)
    ultimately show ?thesis using that(2) by blast
  qed
qed

lemma step_outcome:
  assumes a: "at_token ids ctx ch k off st" and n: "off < length ids"
  obtains nx e where "eng_step (dev c) (eng st) (ids ! off) = (Some nx, e)"
      "at_token ids ctx ch k (Suc off) (record_prefill 1 (st\<lparr>eng := e\<rparr>))"
    | e where "eng_step (dev c) (eng st) (ids ! off) = (None, e)" "\<not> healthy c ids ctx"
proof -
  let ?e = "(eng st)\<lparr>rows := rows (eng st) @ [ids ! off]\<rparr>"
  have r: "rows (eng st) = take off ids" "max_context (eng st) = ctx" using a by (simp_all add: at_token_def)
  show ?thesis
  proof (cases "off < ctx \<and> ids ! off < VOCAB \<and> forward (dev c) (rows (eng st) @ [ids ! off]) \<noteq> None")
    case True
    then obtain nx where "eng_step (dev c) (eng st) (ids ! off) = (Some nx, ?e)"
      using n r by (auto simp: eng_step_def)
    moreover have "at_token ids ctx ch k (Suc off) (record_prefill 1 (st\<lparr>eng := ?e\<rparr>))"
      using a n by (simp add: at_token_def record_prefill_def take_Suc_conv_app_nth)
    ultimately show ?thesis using that(1) by blast
  next
    case False
    then have "\<not> healthy c ids ctx" using n by (auto simp: healthy_def list_all_length)
    moreover have "eng_step (dev c) (eng st) (ids ! off) = (None, eng st)"
      using False n r by (auto simp: eng_step_def)
    ultimately show ?thesis using that(2) by blast
  qed
qed

lemma post_chunks:
  assumes h: "h \<Longrightarrow> healthy c ids ctx" and "at_token ids ctx ch k off st" and lim: "lim = (if ch then length ids - 1 else 0)"
  shows "post (dropped h) (chunk_loop c ids lim off st) (\<lambda>st' off'. at_token ids ctx ch k off' st')"
  using assms(2)
proof (induction "lim - off" arbitrary: off st rule: less_induct)
  case less
  show ?case
  proof (cases "off < lim \<and> lim - off \<ge> 2")
    case False
    with less.prems show ?thesis by (subst chunk_loop.simps) auto
  next
    case True
    let ?n = "min PREFILL_CHUNK_MAX (lim - off)"
    have ch: "ch" using True lim by (cases ch) auto
    have n: "2 \<le> ?n" "?n \<le> PREFILL_CHUNK_MAX" "off + ?n \<le> length ids"
      using True lim by (auto simp: PREFILL_CHUNK_MAX_def ch)
    have dec: "lim - (off + ?n) < lim - off" using True n(1) by linarith
    have alive: "h \<Longrightarrow> \<forall>n. ans c n" using h by (simp add: healthy_def)
    from less.prems have a: "at_token ids ctx True k off st" using ch by simp
    from chunk_outcome [OF a n, of c] show ?thesis
    proof cases
      case (1 e)
      have "post (dropped h) (chunk_loop c ids lim (off + ?n) st') (\<lambda>st' off'. at_token ids ctx ch k off' st')"
        if "same_run (record_prefill ?n (st\<lparr>eng := e\<rparr>)) st'" for st'
        using less.hyps [OF dec, of st'] at_token_same [OF that] 1(2) ch by simp
      then show ?thesis
        using True 1 by (subst chunk_loop.simps) (auto simp: Let_def intro!: post_andthen [OF post_count [OF alive]])
    next
      case (2 e)
      then show ?thesis using True h by (subst chunk_loop.simps) (auto simp: Let_def intro!: post_threw)
    qed
  qed
qed

lemma post_steps:
  assumes h: "h \<Longrightarrow> healthy c ids ctx" and "at_token ids ctx ch k off st" "off \<le> length ids"
  shows "post (dropped h) (step_loop c (drop off ids) cur st) (\<lambda>st' _. at_token ids ctx ch k (length ids) st')"
  using assms(2,3)
proof (induction "length ids - off" arbitrary: off cur st)
  case 0
  then show ?case by simp
next
  case (Suc m)
  then have off: "off < length ids" and d: "drop off ids = ids ! off # drop (Suc off) ids"
    by (simp_all add: Cons_nth_drop_Suc)
  have alive: "h \<Longrightarrow> \<forall>n. ans c n" using h by (simp add: healthy_def)
  from step_outcome [OF Suc.prems(1) off, of c] show ?case
  proof cases
    case (1 nx e)
    have "post (dropped h) (step_loop c (drop (Suc off) ids) nx st') (\<lambda>st' _. at_token ids ctx ch k (length ids) st')"
      if "same_run (record_prefill 1 (st\<lparr>eng := e\<rparr>)) st'" for st'
      using Suc.hyps(1) [of "Suc off" st' nx] Suc.hyps(2) off at_token_same [OF that] 1(2) by simp
    then show ?thesis
      unfolding d using 1(1) by (auto intro!: post_andthen [OF post_count [OF alive]])
  next
    case (2 e)
    then show ?thesis unfolding d using h by (auto intro!: post_threw)
  qed
qed

section \<open>Coherence of ledger and engine\<close>

text \<open>
  When the position of the engine agrees with a valid ledger, the engine holds exactly the tokens of
  the ledger, less the pending one.  (\<^verbatim>\<open>record_emitted\<close> makes a dropped ledger valid again, so the
  ledger of an engine that holds more rows can be too short; the position then tells them apart.)
\<close>

definition coherent :: "run \<Rightarrow> bool" where
  "coherent st \<longleftrightarrow>
     (valid (sess st) \<longrightarrow>
        (length (rows (eng st)) = encoded_count (sess st) \<longrightarrow>
           rows (eng st) = take (encoded_count (sess st)) (tokens (sess st))) \<and>
        (pending (sess st) \<longrightarrow> tokens (sess st) \<noteq> []))
     \<and> (\<not> valid (sess st) \<longrightarrow> tokens (sess st) = [] \<and> \<not> pending (sess st))"

lemma coherent_invalidate [simp]: "coherent (st\<lparr>sess := invalidate s\<rparr>)"
  by (simp add: coherent_def invalidate_def)

lemma list_all_prefix:
  "list_all (\<lambda>i. xs ! i = ys ! i) [0..<length ys] \<longleftrightarrow> take (length ys) xs = ys" if "length ys \<le> length xs"
  using that by (simp add: list_all_iff list_eq_iff_nth_eq [of "take (length ys) xs"] min_absorb2 Ball_def)

text \<open>The plan resumes only where the engine holds a prefix of the prompt.\<close>

lemma make_plan_sound:
  assumes "coherent st" and p: "p = make_plan (sess st) ids (length (rows (eng st)))" and "\<not> p_reset p"
  shows "rows (eng st) = take (cached_tokens p) ids" "append_offset p \<le> length ids"
    "cached_tokens p = (if finalize_pending p then append_offset p - 1 else append_offset p)"
    "finalize_pending p \<Longrightarrow> 0 < append_offset p"
    "pending (sess st) = finalize_pending p" "valid (sess st)"
proof -
  let ?s = "sess st"
  have v: "valid ?s" and le: "length (tokens ?s) \<le> length ids" and q: "length (rows (eng st)) = encoded_count ?s" and pre: "take (length (tokens ?s)) ids = tokens ?s"
    and pp: "p = \<lparr>p_reset = False, finalize_pending = pending ?s, append_offset = length (tokens ?s),
      cached_tokens = length (tokens ?s) - (if pending ?s then 1 else 0)\<rparr>"
    using assms by (auto simp: make_plan_def encoded_count_def Let_def list_all_prefix split: if_splits)
  then show "valid ?s" "append_offset p \<le> length ids" "pending ?s = finalize_pending p"
    "cached_tokens p = (if finalize_pending p then append_offset p - 1 else append_offset p)" by simp_all
  show "finalize_pending p \<Longrightarrow> 0 < append_offset p" using assms(1) v pp by (simp add: coherent_def)
  have "take (cached_tokens p) ids = take (cached_tokens p) (tokens ?s)"
    using pre pp by (metis diff_le_self min.absorb1 plan.select_convs(4) take_take)
  then show "rows (eng st) = take (cached_tokens p) ids"
    using assms(1) v q pp by (simp add: coherent_def encoded_count_def)
qed

lemma post_begin:
  assumes h: "h \<Longrightarrow> healthy c ids ctx" and co: "coherent st0" and p: "p = make_plan (sess st0) ids (length (rows (eng st0)))"
    and s: "same_run (st0\<lparr>prefilled := 0\<rparr>) st" and x: "max_context (eng st0) = ctx" "chunked_prefill (eng st0) = ch"
  shows "post (dropped h) (begin_prompt c p ids st)
    (\<lambda>st' (off, _). at_token ids ctx ch (cached_tokens p) off st' \<and> off = append_offset p)"
proof (cases "p_reset p")
  case True
  then have "p = \<lparr>p_reset = True, finalize_pending = False, append_offset = 0, cached_tokens = 0\<rparr>"
    using p by (auto simp: make_plan_def Let_def split: if_splits)
  then show ?thesis
    using s x True by (simp add: begin_prompt_def at_token_def eng_reset_def same_run_def)
next
  case False
  note ps = make_plan_sound [OF co p False]
  have a: "at_token ids ctx ch (cached_tokens p) (cached_tokens p) st"
    using s x ps(1-3) by (auto simp: same_run_def at_token_def split: if_splits)
  have alive: "h \<Longrightarrow> \<forall>n. ans c n" using h by (simp add: healthy_def)
  show ?thesis
  proof (cases "finalize_pending p")
    case False
    then show ?thesis using a \<open>\<not> p_reset p\<close> ps(3) by (simp add: begin_prompt_def)
  next
    case True
    then have off: "cached_tokens p < length ids" "append_offset p - 1 = cached_tokens p"
      "Suc (cached_tokens p) = append_offset p" using ps by auto
    from step_outcome [OF a off(1), of c] show ?thesis
    proof cases
      case (1 nx e)
      let ?s = "(sess st)\<lparr>pending := False\<rparr>"
      have "mark_pending_encoded (sess st) = (True, ?s)"
        using ps(5,6) True s by (simp add: mark_pending_encoded_def same_run_def)
      moreover have "at_token ids ctx ch (cached_tokens p) (append_offset p) st'"
        if "same_run (record_prefill 1 (st\<lparr>eng := e\<rparr>)\<lparr>sess := ?s\<rparr>) st'" for st'
        using that 1(2) off(3) by (simp add: same_run_def at_token_def record_prefill_def)
      ultimately show ?thesis
        using 1(1) True \<open>\<not> p_reset p\<close> off(2)
        by (auto simp: begin_prompt_def Let_def record_prefill_def intro!: post_andthen [OF post_alive [OF alive]])
    next
      case (2 e)
      then show ?thesis
        using True \<open>\<not> p_reset p\<close> off(2) h by (auto simp: begin_prompt_def intro!: post_threw)
    qed
  qed
qed

definition prompt_done :: "nat list \<Rightarrow> nat \<Rightarrow> run \<Rightarrow> bool" where
  "prompt_done ids k st \<longleftrightarrow>
     rows (eng st) = ids \<and> sess st = \<lparr>tokens = ids, valid = True, pending = False\<rparr> \<and> prefilled st + k = length ids"

lemma post_first:
  assumes h: "h \<Longrightarrow> healthy c ids ctx" and a: "at_token ids ctx ch k (length ids) st"
  shows "post (dropped h) (first_token c p ids cur st) (\<lambda>st' _. prompt_done ids k st')"
proof -
  have "prompt_done ids k (st\<lparr>sess := commit_prompt (sess st) ids\<rparr>)"
    using a by (simp add: prompt_done_def at_token_def commit_prompt_def)
  moreover have "h \<Longrightarrow> sampled (dev c) (rows (eng st)) \<noteq> None" "h \<Longrightarrow> from_logits (dev c) (rows (eng st)) \<noteq> None"
    using h unfolding healthy_def by blast+
  ultimately show ?thesis
    unfolding first_token_def Let_def by (auto split: option.split intro!: post_threw)
qed

lemma same_run_trans: "same_run a b \<Longrightarrow> same_run b d \<Longrightarrow> same_run a d"
  by (simp add: same_run_def)

lemma post_prompt_phase:
  assumes h: "h \<Longrightarrow> healthy c ids (max_context (eng st))" and co: "coherent st"
  shows "post (dropped h) (prompt_phase c ids st)
    (\<lambda>st' _. prompt_done ids (cached_tokens (make_plan (sess st) ids (length (rows (eng st))))) st')"
proof -
  let ?p = "make_plan (sess st) ids (length (rows (eng st)))"
  let ?ch = "chunked_prefill (eng st)"
  have alive: "h \<Longrightarrow> \<forall>n. ans c n" using h by (simp add: healthy_def)
  note begin' = post_begin [OF h co refl _ refl refl]
  have s0: "same_run (st\<lparr>prefilled := 0\<rparr>) st'"
    if "same_run (st\<lparr>prefilled := 0, reported := 0\<rparr>) st'" for st' using that by (simp add: same_run_def)
  show ?thesis
    unfolding prompt_phase_def Let_def
  proof (rule post_andthen [OF post_alive [OF alive]], assumption, rule post_andthen [OF post_publish [OF alive]], assumption)
    fix s1 s2 a b
    assume "same_run (st\<lparr>prefilled := 0, reported := 0\<rparr>) s1" "same_run s1 s2"
    then have s: "same_run (st\<lparr>prefilled := 0\<rparr>) s2" by (rule s0 [OF same_run_trans])
    show "post (dropped h)
        (andthen (begin_prompt c ?p ids s2) (\<lambda>st (off, cur).
         andthen (chunk_loop c ids (chunkable (eng st) ids) off st) (\<lambda>st off.
         andthen (step_loop c (drop off ids) cur st) (\<lambda>st cur.
         andthen (if prefilled st \<noteq> reported st then publish_prefill c st else (st, Inr ())) (\<lambda>st _.
         first_token c ?p ids cur st)))))
      (\<lambda>st' _. prompt_done ids (cached_tokens ?p) st')"
    proof (rule post_andthen [OF begin' [OF _ s]], assumption, clarify)
      fix s3 cur
      assume a3: "at_token ids (max_context (eng st)) ?ch (cached_tokens ?p) (append_offset ?p) s3"
      then have lim: "chunkable (eng s3) ids = (if ?ch then length ids - 1 else 0)"
        by (simp add: chunkable_def at_token_def)
      show "post (dropped h)
          (andthen (chunk_loop c ids (chunkable (eng s3) ids) (append_offset ?p) s3) (\<lambda>st off.
           andthen (step_loop c (drop off ids) cur st) (\<lambda>st cur.
           andthen (if prefilled st \<noteq> reported st then publish_prefill c st else (st, Inr ())) (\<lambda>st _.
           first_token c ?p ids cur st))))
        (\<lambda>st' _. prompt_done ids (cached_tokens ?p) st')"
      proof (rule post_andthen [OF post_chunks [OF h a3 lim]], assumption, rule post_andthen [OF post_steps [OF h]], assumption, assumption)
        fix s4 off s5 cur'
        assume a5: "at_token ids (max_context (eng st)) ?ch (cached_tokens ?p) (length ids) s5"
        have "post (dropped h) (if prefilled s5 \<noteq> reported s5 then publish_prefill c s5 else (s5, Inr ())) (\<lambda>st' _. same_run s5 st')"
          using post_publish [OF alive] by (simp add: same_run_def)
        then show "post (dropped h)
            (andthen (if prefilled s5 \<noteq> reported s5 then publish_prefill c s5 else (s5, Inr ())) (\<lambda>st _.
             first_token c ?p ids cur' st))
          (\<lambda>st' _. prompt_done ids (cached_tokens ?p) st')"
          by (rule post_andthen) (rule post_first [OF h at_token_same [OF _ a5]])
      qed (simp add: at_token_def)
    qed
  qed
qed

text \<open>
  C32: the resident engine is reused soundly.  From a coherent state, the prompt phase either ends with
  the engine holding exactly the rendered prompt, the ledger naming it, and every token counted either
  as cached or as ingested; or it stops, and then the ledger is dropped.  It does not stop when nobody
  cancels, the device works and the prompt fits the vocabulary and the context.
\<close>

theorem prompt_phase_exact:
  assumes "coherent st" "ids \<noteq> []"
  shows "case prompt_phase c ids st of
      (st', Inl _) \<Rightarrow> \<not> valid (sess st') \<and> \<not> healthy c ids (max_context (eng st))
    | (st', Inr _) \<Rightarrow>
        rows (eng st') = ids \<and> sess st' = \<lparr>tokens = ids, valid = True, pending = False\<rparr> \<and>
        prefilled st' + cached_tokens (make_plan (sess st) ids (length (rows (eng st)))) = length ids"
  using post_prompt_phase [OF _ assms(1), of "healthy c ids (max_context (eng st))" c ids]
  by (auto simp: post_def dropped_def empty_session_def prompt_done_def split: prod.splits sum.splits)

definition demo_dev :: device where
  "demo_dev = \<lparr>forward = (\<lambda>xs. Some (length xs)), from_logits = (\<lambda>xs. Some 0), sampled = (\<lambda>xs. Some 7)\<rparr>"

definition demo_cfg :: cfg where
  "demo_cfg = \<lparr>dev = demo_dev, ans = (\<lambda>_. True), has_sink = True, use_sample = False\<rparr>"

definition demo_run :: run where
  "demo_run =
     \<lparr>sess = \<lparr>tokens = [1, 2, 3], valid = True, pending = True\<rparr>,
      eng = \<lparr>rows = [1, 2], max_context = 100, chunked_prefill = True\<rparr>, polled = 0, prefilled = 0, reported = 0\<rparr>"

theorem prompt_phase_exact_witness:
  "case prompt_phase demo_cfg [1, 2, 3, 4, 5, 6] demo_run of
      (st', Inl _) \<Rightarrow> False
    | (st', Inr t) \<Rightarrow>
        rows (eng st') = [1, 2, 3, 4, 5, 6] \<and>
        sess st' = \<lparr>tokens = [1, 2, 3, 4, 5, 6], valid = True, pending = False\<rparr> \<and> prefilled st' = 4"
proof -
  have "coherent demo_run" by code_simp
  moreover have "healthy demo_cfg [1, 2, 3, 4, 5, 6] (max_context (eng demo_run))"
    by (simp add: healthy_def demo_cfg_def demo_dev_def demo_run_def VOCAB_def)
  moreover have "cached_tokens (make_plan (sess demo_run) [1, 2, 3, 4, 5, 6] (length (rows (eng demo_run)))) = 2"
    by code_simp
  ultimately show ?thesis
    using prompt_phase_exact [of demo_run "[1, 2, 3, 4, 5, 6]" demo_cfg] by (auto split: prod.splits sum.splits)
qed

text \<open>
  The turns of a session: prompts, emitted tokens, the last token, a snapshot whose rows are the tokens
  it names less the pending one, and the reset of the agent.
\<close>

inductive agent_reach :: "run \<Rightarrow> bool" where
  start: "sess st = empty_session \<Longrightarrow> rows (eng st) = [] \<Longrightarrow> agent_reach st"
| prompt: "agent_reach st \<Longrightarrow> ids \<noteq> [] \<Longrightarrow> agent_reach (fst (prompt_phase c ids st))"
| emit: "agent_reach st \<Longrightarrow> agent_reach (fst (advance_after_emit c tok st))"
| last: "agent_reach st \<Longrightarrow> agent_reach (fst (finalize_last c tok False st))"
| load: "agent_reach st \<Longrightarrow> restored = (if pend then butlast toks else toks) \<Longrightarrow>
    agent_reach (st\<lparr>sess := snd (restore (sess st) toks pend), eng := (eng st)\<lparr>rows := restored\<rparr>\<rparr>)"
| clear: "agent_reach st \<Longrightarrow> agent_reach (reset_agent_state st)"

lemma coherent_alive:
  "coherent st \<Longrightarrow> check_alive c st = (st', r) \<Longrightarrow> coherent st' \<and> (r = Inr () \<longrightarrow> sess st' = sess st \<and> eng st' = eng st)"
  by (auto simp: check_alive_def Let_def cancelled_def coherent_def invalidate_def split: if_splits)

lemma coherent_alive_fst: "coherent st \<Longrightarrow> coherent (fst (check_alive c st))"
  using coherent_alive by (metis prod.collapse)

lemma coherent_step:
  assumes "coherent st" "record_emitted (sess st) tok = (True, s)" "eng_step d (eng st) tok = (Some nx, e)"
  shows "mark_pending_encoded s = (True, s\<lparr>pending := False\<rparr>)" "coherent (st\<lparr>sess := s\<lparr>pending := False\<rparr>, eng := e\<rparr>)"
  using assms
  by (auto simp: record_emitted_def mark_pending_encoded_def coherent_def encoded_count_def eng_step_def
      split: if_splits option.splits)

lemma coherent_prompt: "coherent st \<Longrightarrow> coherent (fst (prompt_phase c ids st))"
  using post_prompt_phase [of False c ids st]
  by (auto simp: post_def dropped_def empty_session_def prompt_done_def coherent_def encoded_count_def
      split: prod.splits sum.splits)

lemma coherent_cancelled [simp]: "coherent (fst (cancelled st))" "coherent (fst (threw st))"
  by (simp_all add: cancelled_def threw_def)

lemma coherent_record: "coherent st \<Longrightarrow> record_emitted (sess st) tok = (b, s) \<Longrightarrow> coherent (st\<lparr>sess := s\<rparr>)"
  by (auto simp: record_emitted_def coherent_def encoded_count_def invalidate_def split: if_splits)

lemma coherent_andthen_alive:
  assumes "coherent st" "\<And>st'. coherent st' \<Longrightarrow> sess st' = sess st \<Longrightarrow> eng st' = eng st \<Longrightarrow> coherent (fst (f st' ()))"
  shows "coherent (fst (andthen (check_alive c st) f))"
proof -
  obtain st' r where e: "check_alive c st = (st', r)" by fastforce
  then show ?thesis
    using coherent_alive [OF assms(1) e] assms(2) [of st'] by (cases r) (simp_all add: andthen_def)
qed

lemma coherent_encode:
  assumes co: "coherent st" and r: "record_emitted (sess st) tok = (True, s)"
    and st': "sess st' = s" "eng st' = eng st" and e: "eng_step d (eng st') tok = (Some nx, e)"
  shows "mark_pending_encoded (sess st') = (True, s\<lparr>pending := False\<rparr>)" "coherent (st'\<lparr>eng := e, sess := s\<lparr>pending := False\<rparr>\<rparr>)"
proof -
  note c = coherent_step [OF co r e [unfolded st'(2)]]
  show "mark_pending_encoded (sess st') = (True, s\<lparr>pending := False\<rparr>)" using c(1) st'(1) by simp
  show "coherent (st'\<lparr>eng := e, sess := s\<lparr>pending := False\<rparr>\<rparr>)" using c(2) by (simp add: coherent_def)
qed

lemma coherent_advance: "coherent st \<Longrightarrow> coherent (fst (advance_after_emit c tok st))"
proof -
  assume co: "coherent st"
  obtain b s where r: "record_emitted (sess st) tok = (b, s)" by fastforce
  show ?thesis
  proof (cases b)
    case False
    then show ?thesis using r by (simp add: advance_after_emit_def)
  next
    case True
    have "coherent (fst (case eng_step (dev c) (eng st') tok of
             (None, e) \<Rightarrow> threw (st'\<lparr>eng := e\<rparr>)
           | (Some nx, e) \<Rightarrow>
               (let (ok, s) = mark_pending_encoded (sess st'); st1 = st'\<lparr>eng := e, sess := s\<rparr>
                in if \<not> ok then threw st1
                   else if use_sample c then
                     andthen (check_alive c st1) (\<lambda>st _.
                       case sampled (dev c) (rows (eng st)) of
                         None \<Rightarrow> threw st
                       | Some t \<Rightarrow> andthen (check_alive c st) (\<lambda>st _. (st, Inr t)))
                   else andthen (check_alive c st1) (\<lambda>st _. (st, Inr nx)))))"
      if "sess st' = s" "eng st' = eng st" for st'
      using coherent_encode [OF co _ that] r True
      by (auto simp: Let_def split: option.split prod.split intro!: coherent_andthen_alive)
    then show ?thesis
      using r True coherent_record [OF co r]
      by (auto simp: advance_after_emit_def Let_def intro!: coherent_andthen_alive)
  qed
qed

lemma coherent_finalize: "coherent st \<Longrightarrow> coherent (fst (finalize_last c tok False st))"
proof -
  assume co: "coherent st"
  obtain b s where r: "record_emitted (sess st) tok = (b, s)" by fastforce
  note rec = coherent_record [OF co r]
  show ?thesis
  proof (cases "b \<and> length (rows (eng st)) < max_context (eng st)")
    case False
    then show ?thesis using r rec by (auto simp: finalize_last_def Let_def)
  next
    case True
    then have b: "b = True" by simp
    obtain st1 a where a: "check_alive c (st\<lparr>sess := s\<rparr>) = (st1, a)" by fastforce
    note al = coherent_alive [OF rec a]
    show ?thesis
    proof (cases a)
      case (Inl x)
      then show ?thesis using r True a al by (simp add: finalize_last_def Let_def)
    next
      case (Inr u)
      then have st1: "sess st1 = s" "eng st1 = eng st" using al by simp_all
      obtain nx e where e: "eng_step (dev c) (eng st1) tok = (nx, e)" by fastforce
      show ?thesis
      proof (cases nx)
        case None
        have "fst (finalize_last c tok False st) = fst (check_alive c (st1\<lparr>eng := e, sess := invalidate (sess st1)\<rparr>))"
          using r True a Inr e None by (simp add: finalize_last_def Let_def split_beta)
        then show ?thesis by (simp add: coherent_alive_fst)
      next
        case (Some t)
        note en = coherent_encode [OF co r [unfolded b] st1 e [unfolded Some]]
        have "fst (finalize_last c tok False st) = fst (check_alive c (st1\<lparr>eng := e, sess := s\<lparr>pending := False\<rparr>\<rparr>))"
          using r True a Inr e Some en(1) by (simp add: finalize_last_def Let_def split_beta)
        then show ?thesis using en(2) by (simp add: coherent_alive_fst)
      qed
    qed
  qed
qed



end
