(* ===== verification/Agent_Stall.thy ===== *)
theory Agent_Stall
  imports Q27_Prelude
begin

text \<open>
  The watchdog over generated output, \<^verbatim>\<open>experiments/ds4-agent/q27_agent_stall.h\<close>: four counters and a
  ring of the last 256 tokens, updated once per token.  The reference reads the whole stream.
\<close>

section \<open>The watcher\<close>

datatype stall_reason = NoStall | EmptyDecode | WhitespaceRun | IdenticalTokenRun | ShortTokenCycle

record watcher =
  history :: "nat list"
  history_next :: nat
  history_count :: nat
  empty_tokens :: nat
  whitespace_bytes :: nat
  identical_tokens :: nat
  previous_token :: nat
  have_previous :: bool

definition watcher_init :: watcher where
  "watcher_init =
     \<lparr>history = replicate 256 0, history_next = 0, history_count = 0, empty_tokens = 0, whitespace_bytes = 0,
      identical_tokens = 0, previous_token = 0, have_previous = False\<rparr>"

definition blank :: "char \<Rightarrow> bool" where
  "blank c \<longleftrightarrow> c = CHR '' '' \<or> c = CHR 0x09 \<or> c = CHR 0x0D \<or> c = CHR 0x0A"

text \<open>The loop over the bytes: \<open>None\<close> when the limit is reached.\<close>

fun count_blanks :: "string \<Rightarrow> nat \<Rightarrow> nat option" where
  "count_blanks [] n = Some n"
| "count_blanks (c # cs) n =
     (if blank c then (if Suc n \<ge> 256 then None else count_blanks cs (Suc n)) else count_blanks cs 0)"

definition history_at :: "watcher \<Rightarrow> nat \<Rightarrow> nat" where
  "history_at w i = history w ! ((history_next w + i) mod 256)"

definition has_cycle :: "watcher \<Rightarrow> bool" where
  "has_cycle w \<longleftrightarrow>
     list_ex (\<lambda>period. list_all (\<lambda>i. history_at w i = history_at w (i - period)) [period..<256]) [2..<9]"

definition remember :: "watcher \<Rightarrow> nat \<Rightarrow> watcher" where
  "remember w token =
     w\<lparr>history := (history w)[history_next w := token], history_next := (history_next w + 1) mod 256,
       history_count := (if history_count w < 256 then Suc (history_count w) else history_count w)\<rparr>"

definition observe_token :: "watcher \<Rightarrow> nat \<Rightarrow> stall_reason \<times> watcher" where
  "observe_token w token =
     (let repeated = have_previous w \<and> token = previous_token w;
          w1 = (if repeated then w\<lparr>identical_tokens := Suc (identical_tokens w)\<rparr>
                else w\<lparr>previous_token := token, have_previous := True, identical_tokens := 1\<rparr>)
      in if repeated \<and> identical_tokens w1 \<ge> 128 then (IdenticalTokenRun, w1)
         else let w2 = remember w1 token
              in if history_count w2 = 256 \<and> has_cycle w2 then (ShortTokenCycle, w2) else (NoStall, w2))"

definition observe :: "watcher \<Rightarrow> nat \<Rightarrow> string \<Rightarrow> stall_reason \<times> watcher" where
  "observe w token bytes =
     (if bytes = [] then
        (let w1 = w\<lparr>empty_tokens := Suc (empty_tokens w)\<rparr>
         in if empty_tokens w1 \<ge> 64 then (EmptyDecode, w1) else observe_token w1 token)
      else case count_blanks bytes (whitespace_bytes w) of
             None \<Rightarrow> (WhitespaceRun, w\<lparr>empty_tokens := 0, whitespace_bytes := 256\<rparr>)
           | Some n \<Rightarrow> observe_token (w\<lparr>empty_tokens := 0, whitespace_bytes := n\<rparr>) token)"

text \<open>The caller feeds tokens until one trips: the number of tokens seen and the reason.\<close>

fun first_stall :: "watcher \<Rightarrow> (nat \<times> string) list \<Rightarrow> nat \<Rightarrow> (nat \<times> stall_reason) option" where
  "first_stall w [] n = None"
| "first_stall w ((t, b) # xs) n =
     (case observe w t b of (r, w') \<Rightarrow> if r \<noteq> NoStall then Some (Suc n, r) else first_stall w' xs (Suc n))"

section \<open>The reference\<close>

definition ends_in :: "('a \<Rightarrow> bool) \<Rightarrow> nat \<Rightarrow> 'a list \<Rightarrow> bool" where
  "ends_in P k xs \<longleftrightarrow> k \<le> length xs \<and> list_all P (drop (length xs - k) xs)"

definition has_run :: "('a \<Rightarrow> bool) \<Rightarrow> nat \<Rightarrow> 'a list \<Rightarrow> bool" where
  "has_run P k xs \<longleftrightarrow> list_ex (\<lambda>n. ends_in P k (take n xs)) [0..<Suc (length xs)]"

definition periodic :: "nat \<Rightarrow> 'a list \<Rightarrow> bool" where
  "periodic p xs \<longleftrightarrow> list_all (\<lambda>i. xs ! i = xs ! (i - p)) [p..<length xs]"

definition ref_stall :: "(nat \<times> string) list \<Rightarrow> stall_reason" where
  "ref_stall h =
     (if ends_in (\<lambda>(t, b). b = []) 64 h then EmptyDecode
      else if has_run blank 256 (concat (map snd h)) then WhitespaceRun
      else if h \<noteq> [] \<and> ends_in (\<lambda>(t, b). t = fst (last h)) 128 h then IdenticalTokenRun
      else if 256 \<le> length h \<and> list_ex (\<lambda>p. periodic p (map fst (drop (length h - 256) h))) [2..<9] then ShortTokenCycle
      else NoStall)"

fun ref_first :: "(nat \<times> string) list \<Rightarrow> (nat \<times> string) list \<Rightarrow> (nat \<times> stall_reason) option" where
  "ref_first h [] = None"
| "ref_first h (x # xs) =
     (if ref_stall (h @ [x]) \<noteq> NoStall then Some (Suc (length h), ref_stall (h @ [x])) else ref_first (h @ [x]) xs)"

section \<open>Runs\<close>

definition trail :: "('a \<Rightarrow> bool) \<Rightarrow> 'a list \<Rightarrow> nat" where
  "trail P xs = length (takeWhile P (rev xs))"

lemma trail_Nil [simp]: "trail P [] = 0"
  by (simp add: trail_def)

lemma trail_snoc [simp]: "trail P (xs @ [x]) = (if P x then Suc (trail P xs) else 0)"
  by (simp add: trail_def)

lemma ends_in_trail: "ends_in P k xs \<longleftrightarrow> k \<le> trail P xs"
proof -
  have "k \<le> length (takeWhile P ys) \<longleftrightarrow> k \<le> length ys \<and> list_all P (take k ys)" for ys
  proof (induction ys arbitrary: k)
    case (Cons y ys)
    then show ?case by (cases k) auto
  qed simp
  from this [of "rev xs"] show ?thesis
    by (simp add: ends_in_def trail_def take_rev)
qed

lemma has_run_snoc: "has_run P k (xs @ [x]) \<longleftrightarrow> has_run P k xs \<or> ends_in P k (xs @ [x])"
  by (auto simp: has_run_def list_ex_iff)

lemma has_run_Nil [simp]: "0 < k \<Longrightarrow> \<not> has_run P k []"
  by (simp add: has_run_def ends_in_def)

lemma has_run_append: "has_run P k xs \<Longrightarrow> has_run P k (xs @ ys)"
proof (induction ys rule: rev_induct)
  case (snoc y ys)
  then show ?case using has_run_snoc [of P k "xs @ ys" y] by simp
qed simp

lemma count_blanks_run:
  assumes "\<not> has_run blank 256 a" "n = trail blank a"
  shows "count_blanks b n = (if has_run blank 256 (a @ b) then None else Some (trail blank (a @ b)))"
  using assms
proof (induction b arbitrary: a n)
  case (Cons c b)
  have r: "has_run blank 256 (a @ [c]) \<longleftrightarrow> 256 \<le> trail blank (a @ [c])"
    using Cons.prems(1) by (simp add: has_run_snoc ends_in_trail del: trail_snoc)
  show ?case
  proof (cases "256 \<le> trail blank (a @ [c])")
    case True
    with r have "has_run blank 256 (a @ [c])" by blast
    from has_run_append [OF this, of b] have "has_run blank 256 (a @ c # b)" by simp
    with True Cons.prems(2) show ?thesis by (auto split: if_splits)
  next
    case False
    with r have "\<not> has_run blank 256 (a @ [c])" by simp
    from Cons.IH [OF this refl] False Cons.prems(2) show ?thesis by (auto split: if_splits)
  qed
qed simp

section \<open>The watcher tracks the stream\<close>

definition ring_ok :: "watcher \<Rightarrow> nat list \<Rightarrow> bool" where
  "ring_ok w ts \<longleftrightarrow>
     length (history w) = 256 \<and> history_next w = length ts mod 256 \<and> history_count w = min 256 (length ts) \<and>
     (\<forall>k<length ts. length ts \<le> k + 256 \<longrightarrow> history w ! (k mod 256) = ts ! k)"

definition tracks :: "watcher \<Rightarrow> (nat \<times> string) list \<Rightarrow> bool" where
  "tracks w h \<longleftrightarrow>
     empty_tokens w = trail (\<lambda>(t, b). b = []) h \<and>
     whitespace_bytes w = trail blank (concat (map snd h)) \<and> \<not> has_run blank 256 (concat (map snd h)) \<and>
     have_previous w = (h \<noteq> []) \<and>
     (h \<noteq> [] \<longrightarrow> previous_token w = fst (last h) \<and> identical_tokens w = trail (\<lambda>(t, b). t = fst (last h)) h) \<and>
     ring_ok w (map fst h)"

lemma tracks_init: "tracks watcher_init []"
  by (simp add: tracks_def watcher_init_def ring_ok_def)

lemma ring_remember: "ring_ok w ts \<Longrightarrow> ring_ok (remember w t) (ts @ [t])"
proof -
  assume r: "ring_ok w ts"
  have "(history w)[length ts mod 256 := t] ! (k mod 256) = (ts @ [t]) ! k"
    if k: "k < Suc (length ts)" "Suc (length ts) \<le> k + 256" for k
  proof (cases "k = length ts")
    case True
    then show ?thesis using r by (simp add: ring_ok_def nth_append)
  next
    case False
    then have "k mod 256 \<noteq> length ts mod 256"
      using k mod_eq_dvd_iff_nat [of k "length ts" 256] by (auto dest: dvd_imp_le)
    then show ?thesis using r k False by (simp add: ring_ok_def nth_append)
  qed
  then show ?thesis using r by (auto simp: ring_ok_def remember_def mod_Suc_eq)
qed

lemma ring_at:
  assumes "ring_ok w ts" "256 \<le> length ts" "i < 256"
  shows "history_at w i = drop (length ts - 256) ts ! i"
proof -
  let ?k = "length ts - 256 + i"
  obtain m where m: "length ts = m + 256" using assms(2) le_Suc_ex by (metis add.commute)
  then have "(history_next w + i) mod 256 = ?k mod 256"
    using assms(1) by (simp add: ring_ok_def mod_add_left_eq)
  then show ?thesis using assms by (simp add: history_at_def ring_ok_def)
qed

lemma ring_cycle:
  assumes "ring_ok w ts" "256 \<le> length ts"
  shows "has_cycle w \<longleftrightarrow> list_ex (\<lambda>p. periodic p (drop (length ts - 256) ts)) [2..<9]"
proof -
  have "history_at w i = history_at w (i - p) \<longleftrightarrow>
      drop (length ts - 256) ts ! i = drop (length ts - 256) ts ! (i - p)" if "i < 256" for i p
    using ring_at [OF assms, of i] ring_at [OF assms, of "i - p"] that by simp
  then show ?thesis
    using assms(2) by (simp add: has_cycle_def periodic_def list_ex_iff list_all_iff)
qed

lemma trail_last:
  assumes "h \<noteq> []"
  shows "trail (\<lambda>(t, b). t = fst (last (h @ [x]))) (h @ [x]) =
    (if fst x = fst (last h) then Suc (trail (\<lambda>(t, b). t = fst (last h)) h) else 1)"
proof -
  obtain h' y where h: "h = h' @ [y]" using assms by (metis rev_exhaust)
  show ?thesis by (cases x; cases y) (auto simp: h trail_def)
qed

lemma observe_token_ref:
  assumes t: "tracks w h" and e: "empty_tokens w' = trail (\<lambda>(t, b). b = []) (h @ [(tok, b)])"
    and ws: "whitespace_bytes w' = trail blank (concat (map snd (h @ [(tok, b)])))"
      "\<not> has_run blank 256 (concat (map snd (h @ [(tok, b)])))"
    and w': "w' = w\<lparr>empty_tokens := empty_tokens w', whitespace_bytes := whitespace_bytes w'\<rparr>"
    and ne: "\<not> ends_in (\<lambda>(t, b). b = []) 64 (h @ [(tok, b)])"
  shows "fst (observe_token w' tok) = ref_stall (h @ [(tok, b)])"
    "fst (observe_token w' tok) = NoStall \<Longrightarrow> tracks (snd (observe_token w' tok)) (h @ [(tok, b)])"
proof -
  let ?h = "h @ [(tok, b)]"
  define w1 where "w1 = (if have_previous w' \<and> tok = previous_token w' then w'\<lparr>identical_tokens := Suc (identical_tokens w')\<rparr>
    else w'\<lparr>previous_token := tok, have_previous := True, identical_tokens := 1\<rparr>)"
  have f: "have_previous w' = (h \<noteq> [])" "h \<noteq> [] \<Longrightarrow> previous_token w' = fst (last h)"
    "h \<noteq> [] \<Longrightarrow> identical_tokens w' = trail (\<lambda>(t, b). t = fst (last h)) h" "ring_ok w' (map fst h)"
    using t by (subst w', simp add: tracks_def ring_ok_def)+
  have run: "identical_tokens w1 = trail (\<lambda>(t, b). t = fst (last ?h)) ?h"
    using f trail_last [of h "(tok, b)"] by (cases "h = []") (auto simp: w1_def trail_def)
  have idt: "(have_previous w' \<and> tok = previous_token w') \<and> 128 \<le> identical_tokens w1 \<longleftrightarrow>
      ends_in (\<lambda>(t, b). t = fst (last ?h)) 128 ?h"
    unfolding ends_in_trail run [symmetric] by (auto simp: w1_def)
  have ring: "ring_ok (remember w1 tok) (map fst ?h)"
    using ring_remember [of w1 "map fst h" tok] f(4) by (auto simp: w1_def ring_ok_def)
  have cyc: "history_count (remember w1 tok) = 256 \<and> has_cycle (remember w1 tok) \<longleftrightarrow>
      256 \<le> length ?h \<and> list_ex (\<lambda>p. periodic p (map fst (drop (length ?h - 256) ?h))) [2..<9]"
    using ring_cycle [OF ring] ring by (auto simp: ring_ok_def drop_map simp del: map_append)
  have obs: "observe_token w' tok =
      (if ends_in (\<lambda>(t, b). t = fst (last ?h)) 128 ?h then (IdenticalTokenRun, w1)
       else if 256 \<le> length ?h \<and> list_ex (\<lambda>p. periodic p (map fst (drop (length ?h - 256) ?h))) [2..<9]
       then (ShortTokenCycle, remember w1 tok) else (NoStall, remember w1 tok))"
    unfolding observe_token_def Let_def w1_def [symmetric] idt [symmetric] cyc [symmetric] ..
  show "fst (observe_token w' tok) = ref_stall ?h"
    unfolding obs ref_stall_def
    by (simp only: ne ws(2) if_False if_distrib [of fst] fst_conv append_is_Nil_conv list.distinct simp_thms)
  have "tracks (remember w1 tok) ?h"
    using e ws ring run by (auto simp: tracks_def remember_def w1_def simp del: map_append trail_snoc)
  then show "fst (observe_token w' tok) = NoStall \<Longrightarrow> tracks (snd (observe_token w' tok)) ?h"
    by (auto simp: obs split: if_splits)
qed

lemma observe_ref:
  assumes t: "tracks w h"
  shows "fst (observe w tok b) = ref_stall (h @ [(tok, b)])"
    "fst (observe w tok b) = NoStall \<Longrightarrow> tracks (snd (observe w tok b)) (h @ [(tok, b)])"
proof -
  let ?h = "h @ [(tok, b)]"
  have "fst (observe w tok b) = ref_stall ?h \<and> (fst (observe w tok b) = NoStall \<longrightarrow> tracks (snd (observe w tok b)) ?h)"
  proof (cases "b = []")
    case True
    let ?w = "w\<lparr>empty_tokens := Suc (empty_tokens w)\<rparr>"
    have e: "empty_tokens ?w = trail (\<lambda>(t, b). b = []) ?h" using t True by (simp add: tracks_def)
    have ws: "whitespace_bytes ?w = trail blank (concat (map snd ?h))" "\<not> has_run blank 256 (concat (map snd ?h))"
      using t True by (simp_all add: tracks_def)
    show ?thesis
    proof (cases "64 \<le> empty_tokens ?w")
      case True
      then show ?thesis
        using \<open>b = []\<close> e by (simp add: observe_def ref_stall_def ends_in_trail del: trail_snoc)
    next
      case False
      then have "\<not> ends_in (\<lambda>(t, b). b = []) 64 ?h" using e by (simp add: ends_in_trail)
      from observe_token_ref [OF t e ws _ this] False True show ?thesis by (simp add: observe_def)
    qed
  next
    case False
    let ?bs = "concat (map snd ?h)"
    have c: "count_blanks b (whitespace_bytes w) = (if has_run blank 256 ?bs then None else Some (trail blank ?bs))"
      using count_blanks_run [of "concat (map snd h)" "whitespace_bytes w" b] t by (simp add: tracks_def)
    have ne: "\<not> ends_in (\<lambda>(t, b). b = []) 64 ?h" using False by (simp add: ends_in_trail)
    show ?thesis
    proof (cases "has_run blank 256 ?bs")
      case True
      then show ?thesis using False c ne by (simp add: observe_def ref_stall_def)
    next
      case nr: False
      let ?w = "w\<lparr>empty_tokens := 0, whitespace_bytes := trail blank ?bs\<rparr>"
      have "empty_tokens ?w = trail (\<lambda>(t, b). b = []) ?h" using False by simp
      from observe_token_ref [OF t this _ nr _ ne] show ?thesis using False c nr by (simp add: observe_def)
    qed
  qed
  then show "fst (observe w tok b) = ref_stall ?h"
    "fst (observe w tok b) = NoStall \<Longrightarrow> tracks (snd (observe w tok b)) ?h" by simp_all
qed

lemma first_stall_ref: "tracks w h \<Longrightarrow> first_stall w xs (length h) = ref_first h xs"
proof (induction xs arbitrary: w h)
  case (Cons x xs)
  obtain t b where x: "x = (t, b)" by fastforce
  obtain r w' where o: "observe w t b = (r, w')" by fastforce
  note ref = observe_ref [OF Cons.prems, of t b, unfolded o]
  have "first_stall w' xs (length (h @ [x])) = ref_first (h @ [x]) xs" if "r = NoStall"
    using ref(2) that x by (intro Cons.IH) simp
  then show ?case using ref(1) x o by auto
qed simp

text \<open>
  C34: the watchdog is exact.  On every stream of tokens the counters and the ring trip at the first
  token, and with the reason, that the reference finds in the whole stream: 64 tokens in a row that
  decode to nothing, 256 blank bytes in a row anywhere across token borders, 128 equal tokens in a row,
  or a last window of 256 tokens with a period of two to eight.
\<close>

theorem stall_exact: "first_stall watcher_init xs 0 = ref_first [] xs"
  using first_stall_ref [OF tracks_init, of xs] by simp

end
