(* ===== verification/Agent_Sha256.thy ===== *)
theory Agent_Sha256
  imports Q27_Prelude "HOL-Library.Word"
begin

text \<open>
  The digest the agent uses for files and snapshots, \<^verbatim>\<open>experiments/ds4-agent/q27_agent_sha256.c\<close>.
  The context is the record of the header file, with 32-bit words, a 64-bit byte counter and a
  \<^verbatim>\<open>size_t\<close> index; arithmetic wraps as in C.  The reference is the text of FIPS 180-4: the
  padded message, the message schedule as a recursion on its index, and the compression as a recursion
  over the blocks.
\<close>

unbundle bit_operations_syntax

type_synonym byte8 = "8 word"
type_synonym word32 = "32 word"

record sha_ctx =
  state :: "word32 list"
  bytes :: "64 word"
  block :: "byte8 list"
  used :: "64 word"

section \<open>The code\<close>

definition rotr :: "word32 \<Rightarrow> nat \<Rightarrow> word32" where
  "rotr x n = (drop_bit n x) OR (push_bit (32 - n) x)"

definition load_be32 :: "byte8 list \<Rightarrow> nat \<Rightarrow> word32" where
  "load_be32 p i =
     push_bit 24 (ucast (p ! i)) OR push_bit 16 (ucast (p ! (i + 1))) OR push_bit 8 (ucast (p ! (i + 2))) OR
     ucast (p ! (i + 3))"

definition store_be32 :: "word32 \<Rightarrow> byte8 list" where
  "store_be32 x = [ucast (drop_bit 24 x), ucast (drop_bit 16 x), ucast (drop_bit 8 x), ucast x]"

definition sha_k :: "word32 list" where
  "sha_k =
     [0x428a2f98, 0x71374491, 0xb5c0fbcf, 0xe9b5dba5,
      0x3956c25b, 0x59f111f1, 0x923f82a4, 0xab1c5ed5,
      0xd807aa98, 0x12835b01, 0x243185be, 0x550c7dc3,
      0x72be5d74, 0x80deb1fe, 0x9bdc06a7, 0xc19bf174,
      0xe49b69c1, 0xefbe4786, 0x0fc19dc6, 0x240ca1cc,
      0x2de92c6f, 0x4a7484aa, 0x5cb0a9dc, 0x76f988da,
      0x983e5152, 0xa831c66d, 0xb00327c8, 0xbf597fc7,
      0xc6e00bf3, 0xd5a79147, 0x06ca6351, 0x14292967,
      0x27b70a85, 0x2e1b2138, 0x4d2c6dfc, 0x53380d13,
      0x650a7354, 0x766a0abb, 0x81c2c92e, 0x92722c85,
      0xa2bfe8a1, 0xa81a664b, 0xc24b8b70, 0xc76c51a3,
      0xd192e819, 0xd6990624, 0xf40e3585, 0x106aa070,
      0x19a4c116, 0x1e376c08, 0x2748774c, 0x34b0bcb5,
      0x391c0cb3, 0x4ed8aa4a, 0x5b9cca4f, 0x682e6ff3,
      0x748f82ee, 0x78a5636f, 0x84c87814, 0x8cc70208,
      0x90befffa, 0xa4506ceb, 0xbef9a3f7, 0xc67178f2]"

text \<open>The two loops that fill \<^verbatim>\<open>w\<close>: the list holds the entries written so far.\<close>

definition sched_step :: "word32 list \<Rightarrow> nat \<Rightarrow> word32 list" where
  "sched_step w i =
     (let s0 = rotr (w ! (i - 15)) 7 XOR rotr (w ! (i - 15)) 18 XOR drop_bit 3 (w ! (i - 15));
          s1 = rotr (w ! (i - 2)) 17 XOR rotr (w ! (i - 2)) 19 XOR drop_bit 10 (w ! (i - 2))
      in w @ [w ! (i - 16) + s0 + w ! (i - 7) + s1])"

definition schedule :: "byte8 list \<Rightarrow> word32 list" where
  "schedule blk = foldl sched_step (map (\<lambda>i. load_be32 blk (i * 4)) [0..<16]) [16..<64]"

text \<open>One pass of the loop over the working variables \<^verbatim>\<open>a\<close> to \<^verbatim>\<open>h\<close>, kept in that order.\<close>

fun sha_round :: "word32 list \<Rightarrow> word32 list \<Rightarrow> nat \<Rightarrow> word32 list" where
  "sha_round w [a, b, c, d, e, f, g, h] i =
     (let s1 = rotr e 6 XOR rotr e 11 XOR rotr e 25;
          ch = (e AND f) XOR (NOT e AND g);
          t1 = h + s1 + ch + sha_k ! i + w ! i;
          s0 = rotr a 2 XOR rotr a 13 XOR rotr a 22;
          maj = (a AND b) XOR (a AND c) XOR (b AND c);
          t2 = s0 + maj
      in [t1 + t2, a, b, c, d + t1, e, f, g])"
| "sha_round w vs i = vs"

definition transform :: "sha_ctx \<Rightarrow> byte8 list \<Rightarrow> sha_ctx" where
  "transform ctx blk =
     (let w = schedule blk; vs = foldl (sha_round w) (state ctx) [0..<64]
      in ctx\<lparr>state := map2 (+) (state ctx) vs\<rparr>)"

definition sha_init :: sha_ctx where
  "sha_init =
     \<lparr>state = [0x6a09e667, 0xbb67ae85, 0x3c6ef372, 0xa54ff53a, 0x510e527f, 0x9b05688c, 0x1f83d9ab, 0x5be0cd19],
      bytes = 0, block = replicate 64 0, used = 0\<rparr>"

text \<open>\<^verbatim>\<open>memcpy\<close> and \<^verbatim>\<open>memset\<close> into the block.\<close>

definition write_at :: "byte8 list \<Rightarrow> nat \<Rightarrow> byte8 list \<Rightarrow> byte8 list" where
  "write_at b off xs = take off b @ xs @ drop (off + length xs) b"

text \<open>
  The loop of \<^verbatim>\<open>update\<close>; \<^verbatim>\<open>64 - used\<close> is a \<^verbatim>\<open>size_t\<close> subtraction and wraps.
\<close>

definition sha_fill :: "sha_ctx \<Rightarrow> byte8 list \<Rightarrow> sha_ctx" where
  "sha_fill ctx piece =
     (let c1 = ctx\<lparr>block := write_at (block ctx) (unat (used ctx)) piece, used := used ctx + of_nat (length piece)\<rparr>
      in if used c1 = 64 then (transform c1 (block c1))\<lparr>used := 0\<rparr> else c1)"

definition sha_take :: "sha_ctx \<Rightarrow> byte8 list \<Rightarrow> nat" where
  "sha_take ctx data = min (unat (64 - used ctx)) (length data)"

lemma used_fill [simp]:
  "used (sha_fill ctx piece) = (if used ctx + of_nat (length piece) = 64 then 0 else used ctx + of_nat (length piece))"
  by (simp add: sha_fill_def transform_def Let_def)

function sha_loop :: "sha_ctx \<Rightarrow> byte8 list \<Rightarrow> sha_ctx" where
  "sha_loop ctx data =
     (if data = [] then ctx
      else sha_loop (sha_fill ctx (take (sha_take ctx data) data)) (drop (sha_take ctx data) data))"
  by pat_completeness auto

lemma sha_take_0: "data \<noteq> [] \<Longrightarrow> sha_take ctx data = 0 \<longleftrightarrow> used ctx = 64"
  by (auto simp: sha_take_def min_def unat_eq_0)

termination sha_loop
proof (relation "measures [\<lambda>(c, d). length d, \<lambda>(c, d). unat (used c)]")
  show "wf (measures [\<lambda>(c :: sha_ctx, d :: byte8 list). length d, \<lambda>(c, d). unat (used c)])" by simp
next
  fix ctx and data :: "byte8 list" assume ne: "data \<noteq> []"
  show "((sha_fill ctx (take (sha_take ctx data) data), drop (sha_take ctx data) data), ctx, data)
     \<in> measures [\<lambda>(c, d). length d, \<lambda>(c, d). unat (used c)]"
  proof (cases "sha_take ctx data = 0")
    case True
    moreover from this ne have "used ctx = 64" by (simp add: sha_take_0)
    ultimately show ?thesis by simp
  next
    case False
    with ne show ?thesis by (simp add: diff_less)
  qed
qed

declare sha_loop.simps [simp del]

definition sha_update :: "sha_ctx \<Rightarrow> byte8 list \<Rightarrow> sha_ctx" where
  "sha_update ctx data = sha_loop (ctx\<lparr>bytes := bytes ctx + of_nat (length data)\<rparr>) data"

text \<open>The final block; the context is wiped and returned with the digest.\<close>

definition sha_pad :: "sha_ctx \<Rightarrow> sha_ctx" where
  "sha_pad ctx =
     (let c1 = ctx\<lparr>block := write_at (block ctx) (unat (used ctx)) [0x80], used := used ctx + 1\<rparr>
      in if used c1 > 56
         then (transform c1 (write_at (block c1) (unat (used c1)) (replicate (unat (64 - used c1)) 0)))
                \<lparr>block := write_at (block c1) (unat (used c1)) (replicate (unat (64 - used c1)) 0), used := 0\<rparr>
         else c1)"

definition sha_final :: "sha_ctx \<Rightarrow> byte8 list \<times> sha_ctx" where
  "sha_final ctx =
     (let bits = bytes ctx * 8;
          c1 = sha_pad ctx;
          b1 = write_at (block c1) (unat (used c1)) (replicate (unat (56 - used c1)) 0);
          b2 = foldl (\<lambda>b i. b[63 - i := ucast (drop_bit (i * 8) bits)]) b1 [0..<8];
          c2 = transform (c1\<lparr>block := b2\<rparr>) b2
      in (concat (map store_be32 (state c2)),
          \<lparr>state = replicate 8 0, bytes = 0, block = replicate 64 0, used = 0\<rparr>))"

definition sha256 :: "byte8 list \<Rightarrow> byte8 list" where
  "sha256 data = fst (sha_final (sha_update sha_init data))"

section \<open>The standard\<close>

text \<open>The functions of FIPS 180-4, sections 4.1.2, 5 and 6.2, with rotations of words.\<close>

definition fips_sigma0 :: "word32 \<Rightarrow> word32" where
  "fips_sigma0 x = word_rotr 7 x XOR word_rotr 18 x XOR drop_bit 3 x"

definition fips_sigma1 :: "word32 \<Rightarrow> word32" where
  "fips_sigma1 x = word_rotr 17 x XOR word_rotr 19 x XOR drop_bit 10 x"

definition fips_Sigma0 :: "word32 \<Rightarrow> word32" where
  "fips_Sigma0 x = word_rotr 2 x XOR word_rotr 13 x XOR word_rotr 22 x"

definition fips_Sigma1 :: "word32 \<Rightarrow> word32" where
  "fips_Sigma1 x = word_rotr 6 x XOR word_rotr 11 x XOR word_rotr 25 x"

definition be_word :: "byte8 list \<Rightarrow> word32" where
  "be_word bs = of_nat (foldl (\<lambda>n b. 256 * n + unat b) 0 bs)"

text \<open>The message schedule by its recurrence.\<close>

fun fips_W :: "byte8 list \<Rightarrow> nat \<Rightarrow> word32" where
  "fips_W m t =
     (if t < 16 then be_word (take 4 (drop (4 * t) m))
      else fips_sigma1 (fips_W m (t - 2)) + fips_W m (t - 7) + fips_sigma0 (fips_W m (t - 15)) + fips_W m (t - 16))"

declare fips_W.simps [simp del]

fun fips_round :: "byte8 list \<Rightarrow> nat \<Rightarrow> word32 list \<Rightarrow> word32 list" where
  "fips_round m t [a, b, c, d, e, f, g, h] =
     (let T1 = h + fips_Sigma1 e + ((e AND f) XOR (NOT e AND g)) + sha_k ! t + fips_W m t;
          T2 = fips_Sigma0 a + ((a AND b) XOR (a AND c) XOR (b AND c))
      in [T1 + T2, a, b, c, d + T1, e, f, g])"
| "fips_round m t vs = vs"

primrec fips_rounds :: "byte8 list \<Rightarrow> nat \<Rightarrow> word32 list \<Rightarrow> word32 list" where
  "fips_rounds m 0 vs = vs"
| "fips_rounds m (Suc t) vs = fips_round m t (fips_rounds m t vs)"

definition fips_compress :: "word32 list \<Rightarrow> byte8 list \<Rightarrow> word32 list" where
  "fips_compress H m = map2 (+) H (fips_rounds m 64 H)"

text \<open>The whole blocks of a message, and the padded message.\<close>

function fips_blocks :: "byte8 list \<Rightarrow> byte8 list list" where
  "fips_blocks m = (if length m < 64 then [] else take 64 m # fips_blocks (drop 64 m))"
  by pat_completeness auto

termination by (relation "measure length") auto

declare fips_blocks.simps [simp del]

definition be_bytes :: "nat \<Rightarrow> nat \<Rightarrow> byte8 list" where
  "be_bytes k n = map (\<lambda>j. of_nat (n div 256 ^ (k - 1 - j))) [0..<k]"

definition fips_pad :: "byte8 list \<Rightarrow> byte8 list" where
  "fips_pad m = m @ [0x80] @ replicate ((119 - length m mod 64) mod 64) 0 @ be_bytes 8 (8 * length m)"

definition fips_sha256 :: "byte8 list \<Rightarrow> byte8 list" where
  "fips_sha256 m =
     concat (map (\<lambda>w. be_bytes 4 (unat w)) (foldl fips_compress (state sha_init) (fips_blocks (fips_pad m))))"

section \<open>The words agree\<close>

lemma rotr_word_rotr:
  assumes "0 < n" "n < 32" shows "rotr x n = word_rotr n x"
proof (rule bit_word_eqI)
  fix i assume i: "i < LENGTH(32)"
  show "bit (rotr x n) i = bit (word_rotr n x) i"
  proof (cases "i + n < 32")
    case True
    then have "\<not> 32 - n \<le> i" by simp
    with True i assms show ?thesis
      by (simp add: rotr_def bit_or_iff bit_push_bit_iff bit_drop_bit_eq bit_word_rotr_iff add.commute [of n])
  next
    case False
    then have "(i + n) mod 32 = i + n - 32" "i - (32 - n) = i + n - 32" "32 - n \<le> i" "\<not> bit x (i + n)"
      using i assms bit_imp_le_length [of x "i + n"] by (auto simp: mod_if)
    with False i assms show ?thesis
      by (simp add: rotr_def bit_or_iff bit_push_bit_iff bit_drop_bit_eq bit_word_rotr_iff add.commute [of n])
  qed
qed

lemma word_or_add: "a AND b = 0 \<Longrightarrow> a OR b = a + b" for a b :: word32
  by (simp add: disjunctive_add_eq_or)

lemma be_word4:
  "be_word [a, b, c, d] = push_bit 24 (ucast a) OR push_bit 16 (ucast b) OR push_bit 8 (ucast c) OR ucast d"
proof -
  have z: "push_bit 8 (ucast c) AND (ucast d :: word32) = 0"
    "push_bit 16 (ucast b) AND (push_bit 8 (ucast c) OR (ucast d :: word32)) = 0"
    "push_bit 24 (ucast a) AND (push_bit 16 (ucast b) OR (push_bit 8 (ucast c) OR (ucast d :: word32))) = 0"
    by (rule bit_word_eqI; auto simp: bit_and_iff bit_or_iff bit_push_bit_iff bit_ucast_iff dest: bit_imp_le_length)+
  show ?thesis
    unfolding or.assoc word_or_add [OF z(1)] word_or_add [OF z(2) [unfolded word_or_add [OF z(1)]]]
      word_or_add [OF z(3) [unfolded word_or_add [OF z(1)] word_or_add [OF z(2) [unfolded word_or_add [OF z(1)]]]]]
    by (simp add: be_word_def push_bit_eq_mult)
qed

lemma ucast_drop_bit: "(ucast (drop_bit k x) :: byte8) = of_nat (unat x div 2 ^ k)" for x :: "'a::len word"
  by (metis drop_bit_eq_div of_nat_unat unat_drop_bit_eq)

lemma store_be32_bytes: "store_be32 x = be_bytes 4 (unat x)"
  using ucast_drop_bit [of 24 x] ucast_drop_bit [of 16 x] ucast_drop_bit [of 8 x] ucast_drop_bit [of 0 x]
  by (simp add: store_be32_def be_bytes_def upt_rec)

lemma load_be32_word:
  assumes "i < 16" "length m = 64" shows "load_be32 m (i * 4) = be_word (take 4 (drop (4 * i) m))"
proof -
  have "take 4 (drop (4 * i) m) = map (\<lambda>k. m ! (4 * i + k)) [0..<4]"
    using assms by (intro nth_equalityI) auto
  then have "take 4 (drop (4 * i) m) = [m ! (i * 4), m ! (i * 4 + 1), m ! (i * 4 + 2), m ! (i * 4 + 3)]"
    by (simp add: upt_rec mult.commute eval_nat_numeral)
  then show ?thesis by (simp add: be_word4 load_be32_def)
qed

section \<open>The compression\<close>

lemma sched_prefix:
  assumes "length m = 64" "16 \<le> n" "n \<le> 64"
  shows "foldl sched_step (map (\<lambda>i. load_be32 m (i * 4)) [0..<16]) [16..<n] = map (fips_W m) [0..<n]"
  using assms(2,3)
proof (induction n rule: dec_induct)
  case base
  show ?case using assms(1) by (simp add: load_be32_word fips_W.simps)
next
  case (step n)
  then have "[16..<Suc n] = [16..<n] @ [n]" by simp
  moreover have "sched_step (map (fips_W m) [0..<n]) n = map (fips_W m) [0..<Suc n]"
    using step.hyps
    by (simp add: sched_step_def Let_def rotr_word_rotr fips_W.simps [of m n] fips_sigma0_def fips_sigma1_def algebra_simps)
  ultimately show ?case using step by simp
qed

lemma sha_round_fips:
  assumes "length m = 64" "t < 64" shows "sha_round (map (fips_W m) [0..<64]) vs t = fips_round m t vs"
proof (cases "(m, t, vs)" rule: fips_round.cases)
  case (1 m' t' a b c d e f g h)
  with assms show ?thesis by (simp add: rotr_word_rotr fips_Sigma0_def fips_Sigma1_def Let_def)
qed auto

lemma transform_fips:
  assumes "length m = 64" shows "transform c m = c\<lparr>state := fips_compress (state c) m\<rparr>"
proof -
  have "foldl (sha_round (map (fips_W m) [0..<64])) v [0..<n] = fips_rounds m n v" if "n \<le> 64" for n v
    using that by (induction n) (simp_all add: sha_round_fips assms)
  then show ?thesis
    using sched_prefix [OF assms, of 64]
    by (simp add: transform_def fips_compress_def schedule_def Let_def)
qed

section \<open>Feeding the message\<close>

lemma blocks_short [simp]: "length m < 64 \<Longrightarrow> fips_blocks m = []"
  by (subst fips_blocks.simps) simp

lemma blocks_step: "64 \<le> length m \<Longrightarrow> fips_blocks m = take 64 m # fips_blocks (drop 64 m)"
  by (subst fips_blocks.simps) simp

lemma blocks_append:
  "length a mod 64 = 0 \<Longrightarrow> fips_blocks (a @ b) = fips_blocks a @ fips_blocks b"
proof (induction a rule: fips_blocks.induct)
  case (1 m)
  show ?case
  proof (cases "length m < 64")
    case True
    with 1(2) have "m = []" by simp
    then show ?thesis by simp
  next
    case False
    with 1 show ?thesis by (simp add: blocks_step mod_if [of "length m"])
  qed
qed

text \<open>
  The context after a message: the message is whole blocks \<open>a\<close>, which the state holds, and a rest
  \<open>r\<close> in the block buffer.
\<close>

definition absorbed :: "sha_ctx \<Rightarrow> byte8 list \<Rightarrow> byte8 list \<Rightarrow> bool" where
  "absorbed c a r \<longleftrightarrow>
     length (block c) = 64 \<and> length a mod 64 = 0 \<and> length r < 64 \<and> unat (used c) = length r \<and>
     take (length r) (block c) = r \<and> state c = foldl fips_compress (state sha_init) (fips_blocks a)"

lemma absorbed_bytes: "absorbed (c\<lparr>bytes := n\<rparr>) a r = absorbed c a r"
  by (simp add: absorbed_def)

lemma unat_small: "k \<le> 64 \<Longrightarrow> unat (of_nat k :: 64 word) = k"
  by (simp add: unat_of_nat take_bit_nat_eq_self_iff)

lemma used_plus: "unat (u + of_nat k) = unat u + k" if "unat u + k \<le> 64" for u :: "64 word"
  using that by (simp add: unat_small unat_plus_if')

lemma used_full: "u + of_nat k = 64 \<longleftrightarrow> unat u + k = 64" if "unat u + k \<le> 64" for u :: "64 word"
proof -
  have "unat (64 :: 64 word) = 64" by simp
  then show ?thesis using used_plus [OF that] by (metis word_unat_eq_iff)
qed

lemma sha_fill_absorbed:
  assumes c: "absorbed c a r" and k: "length r + length p \<le> 64"
  shows "if length r + length p = 64 then absorbed (sha_fill c p) (a @ r @ p) [] else absorbed (sha_fill c p) a (r @ p)"
proof -
  let ?b = "write_at (block c) (length r) p"
  have u: "unat (used c + of_nat (length p)) = length r + length p" and
    f: "used c + of_nat (length p) = 64 \<longleftrightarrow> length r + length p = 64"
    using c k by (simp_all add: absorbed_def used_plus used_full)
  have b: "take (length r + length p) ?b = r @ p" "length ?b = 64"
    using c k by (simp_all add: write_at_def absorbed_def)
  show ?thesis
  proof (cases "length r + length p = 64")
    case True
    with b have "?b = r @ p" by simp
    moreover have "fips_blocks (a @ r @ p) = fips_blocks a @ fips_blocks (r @ p)"
      using c by (intro blocks_append) (simp add: absorbed_def)
    moreover have "fips_blocks (r @ p) = [r @ p]" using True by (subst blocks_step) simp_all
    ultimately show ?thesis
      using c True b f by (simp add: absorbed_def sha_fill_def Let_def transform_fips)
  next
    case False
    with k b u f c show ?thesis by (simp add: absorbed_def sha_fill_def Let_def)
  qed
qed

lemma bytes_fill [simp]: "bytes (sha_fill c p) = bytes c"
  by (simp add: sha_fill_def transform_def Let_def)

lemma sha_loop_absorbed:
  assumes "absorbed c a r"
  shows "\<exists>a' r'. absorbed (sha_loop c d) a' r' \<and> a' @ r' = a @ r @ d \<and> bytes (sha_loop c d) = bytes c"
  using assms
proof (induction c d arbitrary: a r rule: sha_loop.induct)
  case (1 c d)
  show ?case
  proof (cases "d = []")
    case True
    then have "sha_loop c d = c" by (subst sha_loop.simps) simp
    then show ?thesis using 1(2) True by auto
  next
    case False
    let ?p = "take (sha_take c d) d" and ?d = "drop (sha_take c d) d"
    have u: "unat (64 - used c) = 64 - length r"
      using 1(2) by (simp add: absorbed_def unat_sub word_le_nat_alt)
    then have "length r + length ?p \<le> 64" using 1(2) by (auto simp: sha_take_def absorbed_def)
    from sha_fill_absorbed [OF 1(2) this] obtain a1 r1
      where "absorbed (sha_fill c ?p) a1 r1" and e: "a1 @ r1 = a @ r @ ?p"
      by (auto split: if_splits)
    moreover have "sha_loop c d = sha_loop (sha_fill c ?p) ?d" using False by (subst sha_loop.simps) simp
    ultimately show ?thesis
      using 1(1) [OF False] by (metis append.assoc append_take_drop_id bytes_fill)
  qed
qed

lemma sha_update_absorbed:
  assumes "absorbed c a r" "bytes c = of_nat (length (a @ r))"
  shows "\<exists>a' r'. absorbed (sha_update c d) a' r' \<and> a' @ r' = a @ r @ d \<and>
    bytes (sha_update c d) = of_nat (length (a' @ r'))"
proof -
  let ?c = "c\<lparr>bytes := bytes c + of_nat (length d)\<rparr>"
  obtain a' r' where h: "absorbed (sha_loop ?c d) a' r'" "a' @ r' = a @ r @ d" "bytes (sha_loop ?c d) = bytes ?c"
    using sha_loop_absorbed [of ?c a r d] assms(1) by (auto simp: absorbed_bytes)
  moreover have "bytes ?c = of_nat (length (a' @ r'))" unfolding h(2) using assms(2) by simp
  ultimately show ?thesis unfolding sha_update_def by metis
qed

lemma sha_updates_absorbed:
  assumes "absorbed c a r" "bytes c = of_nat (length (a @ r))"
  shows "\<exists>a' r'. absorbed (foldl sha_update c ds) a' r' \<and> a' @ r' = a @ r @ concat ds \<and>
    bytes (foldl sha_update c ds) = of_nat (length (a' @ r'))"
  using assms
proof (induction ds arbitrary: c a r)
  case (Cons d ds)
  from sha_update_absorbed [OF Cons.prems] obtain a1 r1
    where 1: "absorbed (sha_update c d) a1 r1" "a1 @ r1 = a @ r @ d"
      "bytes (sha_update c d) = of_nat (length (a1 @ r1))" by blast
  from Cons.IH [OF 1(1,3)] 1(2) show ?case by (metis append.assoc concat.simps(2) foldl_Cons)
qed auto

section \<open>The last blocks\<close>

lemma write_at_twice:
  "write_at (write_at b n xs) (n + length xs) ys = write_at b n (xs @ ys)" if "n + length xs \<le> length b"
  using that by (simp add: write_at_def add.commute add.left_commute)

lemma sha_pad_fill:
  assumes "absorbed c a r"
  shows "sha_pad c = sha_fill c (0x80 # replicate (if length r < 56 then 0 else 63 - length r) 0)"
proof -
  have r: "length r < 64" "unat (used c) = length r" "length (block c) = 64" using assms by (simp_all add: absorbed_def)
  have u: "unat (used c + 1) = length r + 1" using used_plus [of "used c" 1] r by simp
  then have g: "used c + 1 > 56 \<longleftrightarrow> \<not> length r < 56" by (auto simp: word_less_nat_alt)
  show ?thesis
  proof (cases "length r < 56")
    case True
    moreover from this have "used c + 1 \<noteq> 64" using used_full [of "used c" 1] r by simp
    ultimately show ?thesis using g r by (simp add: sha_pad_def sha_fill_def Let_def)
  next
    case False
    let ?z = "replicate (63 - length r) 0 :: byte8 list"
    have s: "unat (64 - (used c + 1)) = 63 - length r"
      using r u by (simp add: unat_sub word_le_nat_alt)
    have f: "used c + of_nat (length (0x80 # ?z)) = 64"
      using r by (subst used_full) auto
    have w: "write_at (write_at (block c) (length r) [0x80]) (Suc (length r)) ?z = write_at (block c) (length r) (0x80 # ?z)"
      using write_at_twice [of "length r" "[0x80]" "block c" ?z] r by simp
    show ?thesis
      using False g r s f u w by (simp add: sha_pad_def sha_fill_def Let_def transform_def)
  qed
qed

lemma length_bits:
  assumes "length b = 64"
  shows "foldl (\<lambda>b i. b[63 - i := ucast (drop_bit (i * 8) (x :: 64 word))]) b [0..<8] =
    take 56 b @ be_bytes 8 (unat x)"
proof -
  let ?d = "drop 56 b"
  have "length ?d = 8" using assms by simp
  then have "?d = map ((!) ?d) [0..<8]" by (metis map_nth)
  then obtain d0 d1 d2 d3 d4 d5 d6 d7 where "?d = [d0, d1, d2, d3, d4, d5, d6, d7]"
    by (simp add: upt_rec)
  then have b: "b = take 56 b @ [d0, d1, d2, d3, d4, d5, d6, d7]" by (metis append_take_drop_id)
  have l: "length (take 56 b) = 56" using assms by simp
  show ?thesis
    using ucast_drop_bit [of 0 x] assms
    by (subst b) (simp add: l upt_rec list_update_append be_bytes_def ucast_drop_bit)
qed

text \<open>The message with its padding, block by block.\<close>

lemma fips_pad_split:
  "fips_pad (a @ r) =
     (a @ r @ 0x80 # replicate (if length r < 56 then 0 else 63 - length r) 0) @
     replicate (if length r < 56 then 55 - length r else 56) 0 @ be_bytes 8 (8 * length (a @ r))"
  if "length a mod 64 = 0" "length r < 64"
proof -
  have "length (a @ r) mod 64 = length r" using that by (simp add: mod_add_eq [symmetric])
  moreover have "(119 - length r) mod 64 = (if length r < 56 then 55 - length r else 119 - length r)"
    using that by (simp add: mod_if)
  ultimately show ?thesis using that by (simp add: fips_pad_def replicate_add [symmetric])
qed

lemma sha_final_fips:
  assumes c: "absorbed c a r" and n: "bytes c = of_nat (length (a @ r))" and small: "length (a @ r) < 2 ^ 61"
  shows "fst (sha_final c) = fips_sha256 (a @ r)"
proof -
  let ?p = "0x80 # replicate (if length r < 56 then 0 else 63 - length r) 0 :: byte8 list"
  let ?z = "if length r < 56 then 55 - length r else 56"
  let ?e = "be_bytes 8 (8 * length (a @ r))"
  have r: "length a mod 64 = 0" "length r < 64" using c by (simp_all add: absorbed_def)
  have bits: "unat (bytes c * 8) = 8 * length (a @ r)"
    using small by (simp add: n unat_mult_lem unat_of_nat take_bit_nat_eq_self_iff unat_word_ariths)
  obtain a1 r1 where 1: "absorbed (sha_fill c ?p) a1 r1" "a1 @ r1 = a @ r @ ?p" "length r1 = 56 - ?z"
  proof (cases "length r < 56")
    case True
    then show ?thesis using that [of a "r @ ?p"] sha_fill_absorbed [OF c, of ?p] by simp
  next
    case False
    then show ?thesis using that [of "a @ r @ ?p" "[]"] sha_fill_absorbed [OF c, of ?p] r by simp
  qed
  then have l: "length (replicate ?z (0 :: byte8)) = 56 - length r1" "length r1 \<le> 56" by auto
  let ?c = "sha_pad c"
  have c1: "absorbed ?c a1 r1" using 1(1) sha_pad_fill [OF c] by simp
  then have u: "unat (used ?c) = length r1" "unat (56 - used ?c) = ?z"
    using l by (auto simp: absorbed_def unat_sub word_le_nat_alt)
  let ?b = "r1 @ replicate ?z 0 @ ?e"
  have "length ?e = 8" by (simp add: be_bytes_def)
  with l have lb: "length ?b = 64" by simp
  have b1: "take 56 (write_at (block ?c) (length r1) (replicate ?z 0)) = r1 @ replicate ?z 0"
    and b64: "length (write_at (block ?c) (length r1) (replicate ?z 0)) = 64"
    using c1 l by (simp_all add: write_at_def absorbed_def)
  have "fips_blocks (fips_pad (a @ r)) = fips_blocks (a1 @ ?b)"
    using fips_pad_split [OF r] 1(2) by (metis append.assoc)
  also have "\<dots> = fips_blocks a1 @ [?b]"
    using c1 lb by (subst blocks_append) (simp_all add: absorbed_def blocks_step)
  finally show ?thesis
    using c1 lb by (simp add: sha_final_def Let_def u bits length_bits [OF b64] b1 transform_fips fips_sha256_def
        absorbed_def store_be32_bytes [abs_def])
qed

text \<open>
  C31: the digest is SHA-256.  Whatever the pieces in which a message of fewer than \<open>2\<^sup>6\<^sup>1\<close> bytes is
  handed to \<^verbatim>\<open>q27_agent_sha256_update\<close>, the bytes \<^verbatim>\<open>q27_agent_sha256_final\<close> writes are those the
  standard assigns to the whole message, and the context is wiped.
\<close>

theorem sha256_fips:
  assumes "length (concat ds) < 2 ^ 61"
  shows "sha_final (foldl sha_update sha_init ds) =
    (fips_sha256 (concat ds), \<lparr>state = replicate 8 0, bytes = 0, block = replicate 64 0, used = 0\<rparr>)"
proof -
  have "absorbed sha_init [] []" "bytes sha_init = of_nat (length ([] @ [] :: byte8 list))"
    by (simp_all add: absorbed_def sha_init_def)
  from sha_updates_absorbed [OF this, of ds] obtain a r
    where "absorbed (foldl sha_update sha_init ds) a r" "a @ r = concat ds"
      "bytes (foldl sha_update sha_init ds) = of_nat (length (a @ r))"
    unfolding append_Nil by blast
  with sha_final_fips [of "foldl sha_update sha_init ds" a r] assms show ?thesis
    by (simp add: prod_eq_iff) (simp add: sha_final_def Let_def)
qed

theorem sha256_fips_witness:
  "sha_final (foldl sha_update sha_init [[0x61], [], [0x62, 0x63]]) =
    (fips_sha256 [0x61, 0x62, 0x63], \<lparr>state = replicate 8 0, bytes = 0, block = replicate 64 0, used = 0\<rparr>)"
  using sha256_fips [of "[[0x61], [], [0x62, 0x63]]"] by simp

section \<open>The constants\<close>

definition primes64 :: "int list" where
  "primes64 = [2, 3, 5, 7, 11, 13, 17, 19, 23, 29, 31, 37, 41, 43, 47, 53, 59, 61, 67, 71, 73, 79, 83, 89, 97, 101,
     103, 107, 109, 113, 127, 131, 137, 139, 149, 151, 157, 163, 167, 173, 179, 181, 191, 193, 197, 199, 211, 223,
     227, 229, 233, 239, 241, 251, 257, 263, 269, 271, 277, 281, 283, 293, 307, 311]"

text \<open>
  The tables are those of the standard.  The round constants are the first 32 bits of the fractional
  parts of the cube roots of the first 64 primes, and the initial state those of the square roots of the
  first eight: with the integer part \<open>q\<close> of the root, \<open>q \<cdot> 2\<^sup>3\<^sup>2 + k\<close> is the root of \<open>p \<cdot> 2\<^sup>9\<^sup>6\<close>
  (of \<open>p \<cdot> 2\<^sup>6\<^sup>4\<close>) rounded down.
\<close>

theorem sha_constants:
  "list_all2 (\<lambda>p k. \<exists>q\<in>{1..6}. (q * 2 ^ 32 + uint k) ^ 3 \<le> p * 2 ^ 96 \<and> p * 2 ^ 96 < (q * 2 ^ 32 + uint k + 1) ^ 3)
     primes64 sha_k \<and>
   list_all2 (\<lambda>p h. \<exists>q\<in>{1..4}. (q * 2 ^ 32 + uint h) ^ 2 \<le> p * 2 ^ 64 \<and> p * 2 ^ 64 < (q * 2 ^ 32 + uint h + 1) ^ 2)
     (take 8 primes64) (state sha_init)"
  by code_simp

end
