(* ===== verification/Agent_Tui.thy ===== *)
theory Agent_Tui
  imports Utf8_Gate
begin

text \<open>
  The terminal helpers of the agent, \<^verbatim>\<open>experiments/ds4-agent/q27_agent_tui.c\<close>: the sanitizer of bytes
  that go to the terminal, the collapse of tool output to a few lines, the progress bar and the queue of
  prompts typed while a turn runs.  A buffer of \<^verbatim>\<open>out_cap\<close> bytes is the text written to it without the
  closing NUL.  The specification of the sanitizer speaks of code points: what it writes is the UTF-8
  encoding of printable characters and newlines.  An allocation that may fail is a Boolean argument.
\<close>

unbundle bit_operations_syntax

section \<open>Sanitizing bytes\<close>

definition need_of :: "nat \<Rightarrow> nat" where
  "need_of c =
     (if 0xC2 \<le> c \<and> c \<le> 0xDF then 2 else if 0xE0 \<le> c \<and> c \<le> 0xEF then 3
      else if 0xF0 \<le> c \<and> c \<le> 0xF4 then 4 else 0)"

text \<open>Whether a well-formed multi-byte sequence starts here.\<close>

definition seq_valid :: "string \<Rightarrow> bool" where
  "seq_valid s =
     (let c = byte (hd s); need = need_of c; c1 = byte (s ! 1)
      in need > 0 \<and> need \<le> length s \<and> list_all is_cont (tl (take need s)) \<and>
         \<not> (c = 0xE0 \<and> c1 < 0xA0) \<and> \<not> (c = 0xED \<and> c1 > 0x9F) \<and>
         \<not> (c = 0xF0 \<and> c1 < 0x90) \<and> \<not> (c = 0xF4 \<and> c1 > 0x8F))"

text \<open>One turn of the loop: what it writes and how many bytes it consumes.\<close>

definition san_step :: "string \<Rightarrow> string \<times> nat" where
  "san_step s =
     (let c = byte (hd s)
      in if c \<ge> 0x80 then
           (if seq_valid s then
              (if need_of c = 2 \<and> c = 0xC2 \<and> byte (s ! 1) \<le> 0x9F then (''.'', 2)
               else (take (need_of c) s, need_of c))
            else (''.'', 1))
         else if hd s = CHR 0x0A then ([CHR 0x0A], 1)
         else if hd s = CHR 0x09 then ('' '', 1)
         else if c < 0x20 \<or> c = 0x7F then (''.'', 1)
         else ([hd s], 1))"

lemma san_step_consumes [q27_len]: "0 < snd (san_step s)"
  by (simp add: san_step_def need_of_def seq_valid_def Let_def)

function san_loop :: "nat \<Rightarrow> nat \<Rightarrow> string \<Rightarrow> string" where
  "san_loop out_cap o' s =
     (if s = [] then []
      else case san_step s of
             (emit, k) \<Rightarrow>
               if o' + length emit \<ge> out_cap then []
               else emit @ san_loop out_cap (o' + length emit) (drop k s))"
  by pat_completeness auto
termination san_loop
  by (relation "measure (\<lambda>(out_cap, o', s). length s)") (auto dest: arg_cong [of _ _ snd] simp: q27_len)

declare san_loop.simps [simp del]

definition sanitize_bytes :: "string \<Rightarrow> nat \<Rightarrow> string" where
  "sanitize_bytes s out_cap = (if out_cap = 0 then [] else san_loop out_cap 0 s)"

text \<open>The single-line form: \<open>s\<close> is a C string, so it holds no NUL; newlines become spaces.\<close>

definition sanitize_display :: "string \<Rightarrow> nat \<Rightarrow> string" where
  "sanitize_display s out_len =
     map (\<lambda>c. if c = CHR 0x0A then CHR '' '' else c) (sanitize_bytes s out_len)"

section \<open>Collapsing text\<close>

definition cp_len_at :: "string \<Rightarrow> nat" where
  "cp_len_at s =
     (let c = byte (hd s);
          l = (if 0xC2 \<le> c \<and> c \<le> 0xDF then 2 else if 0xE0 \<le> c \<and> c \<le> 0xEF then 3
               else if 0xF0 \<le> c \<and> c \<le> 0xF4 then 4 else 1)
      in if l > length s then 1 else l)"

lemma cp_len_at_pos [q27_len]: "0 < cp_len_at s"
  by (simp add: cp_len_at_def Let_def)

text \<open>The copy loop: the text written, the rest of the input and whether it stopped for lack of room.\<close>

function copy_loop :: "nat \<Rightarrow> nat \<Rightarrow> nat \<Rightarrow> nat \<Rightarrow> string \<Rightarrow> string \<Rightarrow> string \<times> string \<times> bool" where
  "copy_loop max_lines max_chars buf_len nl w s =
     (if s = [] \<or> \<not> nl < max_lines then (w, s, False)
      else let l = cp_len_at s
           in if length w + l > max_chars \<or> length w + l \<ge> buf_len then (w, s, True)
              else copy_loop max_lines max_chars buf_len
                     (if hd s = CHR 0x0A then nl + 1 else nl) (w @ take l s) (drop l s))"
  by pat_completeness auto
termination copy_loop
  by (relation "measure (\<lambda>(max_lines, max_chars, buf_len, nl, w, s). length s)") (auto simp: q27_len)

declare copy_loop.simps [simp del]

definition ELLIPSIS :: string where "ELLIPSIS = [CHR 0xE2, CHR 0x80, CHR 0xA6]"

definition more_note :: "string \<Rightarrow> nat \<Rightarrow> string" where
  "more_note w rem =
     (if w \<noteq> [] \<and> last w \<noteq> CHR 0x0A then [CHR 0x0A] else []) @ ELLIPSIS @ '' ('' @ to_string rem @
       '' more bytes)'' @ [CHR 0x0A]"

text \<open>
  \<open>None\<close> is the result -1.  \<open>max_lines\<close> and \<open>max_chars\<close> are \<^verbatim>\<open>int\<close>; the copy for the clean text is
  \<open>alloc\<close>.
\<close>

definition collapse_text :: "bool \<Rightarrow> string \<Rightarrow> int \<Rightarrow> int \<Rightarrow> nat \<Rightarrow> string option" where
  "collapse_text alloc txt0 max_lines0 max_chars0 buf_len =
     (if buf_len = 0 then None
      else
        let max_lines = max 1 max_lines0;
            mc = max 16 max_chars0;
            max_chars = (if mc + 64 > int buf_len then int buf_len - 64 else mc)
        in if max_chars < 1 then None
           else if txt0 \<noteq> [] \<and> \<not> alloc then None
           else
             let clean = (if txt0 = [] then [] else sanitize_bytes txt0 (length txt0 + 1))
             in case copy_loop (nat max_lines) (nat max_chars) buf_len 0 [] clean of
                  (w, rest, stopped) \<Rightarrow>
                    if stopped \<or> rest \<noteq> [] then
                      (if length (more_note w (length rest)) \<ge> buf_len - length w then None
                       else Some (w @ more_note w (length rest)))
                    else Some w)"

section \<open>Progress bar\<close>

definition progress_bar :: "int \<Rightarrow> int \<Rightarrow> int \<Rightarrow> nat \<Rightarrow> string" where
  "progress_bar done0 total0 width0 buf_len =
     (if buf_len = 0 then []
      else
        let w4 = max 4 width0;
            w = (if w4 + 3 > int buf_len then int buf_len - 3 else w4)
        in if w < 1 then []
           else
             let tot = (if total0 \<le> 0 then 1 else total0);
                 d = min (max 0 done0) tot;
                 filled = min (max 0 ((d * w) div tot)) w
             in ''['' @ map (\<lambda>i. if int i < filled then CHR ''#'' else CHR ''-'') [0..<nat w] @ '']'')"

section \<open>The prompt queue\<close>

record prompt_queue =
  items :: "string list"
  qcap :: nat
  max_len :: nat

definition prompt_queue_init :: "nat \<Rightarrow> prompt_queue" where
  "prompt_queue_init m = \<lparr>items = [], qcap = 0, max_len = (if m \<noteq> 0 then m else 8)\<rparr>"

text \<open>The two allocations of a push; the second is for the copy of the text.\<close>

definition prompt_queue_push :: "bool \<Rightarrow> bool \<Rightarrow> string \<Rightarrow> prompt_queue \<Rightarrow> bool \<times> prompt_queue" where
  "prompt_queue_push grow_ok copy_ok t q =
     (if length (items q) \<ge> max_len q then (False, q)
      else
        let ncap = min (if qcap q \<noteq> 0 then qcap q * 2 else 4) (max_len q);
            full = (length (items q) = qcap q)
        in if full \<and> (ncap \<le> qcap q \<or> \<not> grow_ok) then (False, q)
           else
             let q1 = (if full then q\<lparr>qcap := ncap\<rparr> else q)
             in if \<not> copy_ok then (False, q1) else (True, q1\<lparr>items := items q1 @ [t]\<rparr>))"

definition prompt_queue_pop :: "prompt_queue \<Rightarrow> string option \<times> prompt_queue" where
  "prompt_queue_pop q =
     (case items q of [] \<Rightarrow> (None, q) | t # ts \<Rightarrow> (Some t, q\<lparr>items := ts\<rparr>))"

section \<open>What may reach the terminal\<close>

definition cp_ok :: "nat \<Rightarrow> bool" where
  "cp_ok n \<longleftrightarrow> n = 10 \<or> 0x20 \<le> n \<and> n \<le> 0x7E \<or>
     0xA0 \<le> n \<and> n \<le> 0x10FFFF \<and> \<not> (0xD800 \<le> n \<and> n \<le> 0xDFFF)"

definition utf8_enc :: "nat \<Rightarrow> string" where
  "utf8_enc n =
     (if n < 0x80 then [char_of n]
      else if n < 0x800 then [char_of (0xC0 + n div 64), char_of (0x80 + n mod 64)]
      else if n < 0x10000 then [char_of (0xE0 + n div 4096), char_of (0x80 + n div 64 mod 64), char_of (0x80 + n mod 64)]
      else [char_of (0xF0 + n div 262144), char_of (0x80 + n div 4096 mod 64), char_of (0x80 + n div 64 mod 64),
            char_of (0x80 + n mod 64)])"

definition display_text :: "string \<Rightarrow> bool" where
  "display_text s \<longleftrightarrow> (\<exists>cps. list_all cp_ok cps \<and> s = concat (map utf8_enc cps))"

lemma and_C0: "(n :: nat) < 256 \<Longrightarrow> (n AND 0xC0 = 0x80) = (128 \<le> n \<and> n < 192)"
proof -
  assume n: "n < 256"
  have c0: "(0xC0 :: nat) = push_bit 6 (mask 2)" by (simp add: mask_eq_exp_minus_1 push_bit_eq_mult)
  have "n AND push_bit 6 (mask 2) = push_bit 6 (take_bit 2 (drop_bit 6 n))"
    by (rule bit_eqI) (auto simp: bit_simps)
  also have "\<dots> = n div 64 mod 4 * 64" by (simp add: push_bit_eq_mult take_bit_eq_mod drop_bit_eq_div)
  also have "n div 64 mod 4 = n div 64" using n by simp
  finally have "(n AND 0xC0 = 0x80) = (n div 64 = 2)" unfolding c0 [symmetric] by simp
  also have "\<dots> = (128 \<le> n \<and> n < 192)" by linarith
  finally show ?thesis .
qed

lemma is_cont_iff: "is_cont c \<longleftrightarrow> 128 \<le> byte c \<and> byte c < 192"
  unfolding is_cont_def by (rule and_C0) simp

lemma char_eqI: "byte c = n \<Longrightarrow> char_of n = c"
  by auto

lemma offset: "k \<le> n \<Longrightarrow> \<exists>x. n = k + x" for n :: nat
  by (simp add: le_iff_add)

lemma base64: "z < 64 \<Longrightarrow> (q * 64 + z) div 64 = q \<and> (q * 64 + z) mod 64 = z" for q z :: nat
  by simp

lemma div_pow64: "n div 4096 = n div 64 div 64" "n div 262144 = n div 64 div 64 div 64" for n :: nat
  by (simp_all flip: div_mult2_eq)

text \<open>The three forms of a well-formed sequence, read back as a code point.\<close>

lemma seq2_enc:
  assumes "0xC2 \<le> byte a" "byte a \<le> 0xDF" "is_cont b"
  shows "\<exists>n. [a, b] = utf8_enc n \<and> 0x80 \<le> n \<and> n < 0x800 \<and> (0xA0 \<le> n \<longleftrightarrow> \<not> (byte a = 0xC2 \<and> byte b \<le> 0x9F))"
proof -
  obtain x y where xy: "byte a = 0xC0 + x" "byte b = 0x80 + y" "y < 64" "2 \<le> x" "x < 32"
    using assms offset [of "0xC0" "byte a"] offset [of "0x80" "byte b"] by (auto simp: is_cont_iff)
  have "[a, b] = utf8_enc (x * 64 + y)"
    using xy base64 [OF xy(3), where q = x] by (simp add: utf8_enc_def char_eqI)
  moreover have "0x80 \<le> x * 64 + y" "x * 64 + y < 0x800" "0xA0 \<le> x * 64 + y \<longleftrightarrow> \<not> (x = 2 \<and> y \<le> 0x1F)"
    using xy by linarith+
  ultimately show ?thesis using xy by (intro exI [of _ "x * 64 + y"]) simp
qed

lemma seq3_enc:
  assumes "0xE0 \<le> byte a" "byte a \<le> 0xEF" "is_cont b" "is_cont c"
    and "\<not> (byte a = 0xE0 \<and> byte b < 0xA0)" "\<not> (byte a = 0xED \<and> byte b > 0x9F)"
  shows "\<exists>n. [a, b, c] = utf8_enc n \<and> 0x800 \<le> n \<and> n < 0x10000 \<and> \<not> (0xD800 \<le> n \<and> n \<le> 0xDFFF)"
proof -
  obtain x y z where xyz: "byte a = 0xE0 + x" "byte b = 0x80 + y" "byte c = 0x80 + z" "y < 64" "z < 64" "x < 16"
    using assms(1-4) offset [of "0xE0" "byte a"] offset [of "0x80" "byte b"] offset [of "0x80" "byte c"]
    by (auto simp: is_cont_iff)
  let ?n = "(x * 64 + y) * 64 + z"
  have r: "1 \<le> x \<or> 32 \<le> y" "x \<le> 12 \<or> 14 \<le> x \<or> x = 13 \<and> y < 32" using assms(5,6) xyz(1,2) by auto
  have n: "0x800 \<le> ?n" "?n < 0x10000" using r(1) xyz(4-6) by (auto simp: algebra_simps)
  have s: "\<not> (0xD800 \<le> ?n \<and> ?n \<le> 0xDFFF)" using r(2) xyz(4-6) by (elim disjE) auto
  have "[a, b, c] = utf8_enc ?n"
    using xyz n base64 [OF xyz(5), where q = "x * 64 + y"] base64 [OF xyz(4), where q = x]
    by (simp add: utf8_enc_def char_eqI div_pow64)
  with n s show ?thesis by blast
qed

lemma seq4_enc:
  assumes "0xF0 \<le> byte a" "byte a \<le> 0xF4" "is_cont b" "is_cont c" "is_cont d"
    and "\<not> (byte a = 0xF0 \<and> byte b < 0x90)" "\<not> (byte a = 0xF4 \<and> byte b > 0x8F)"
  shows "\<exists>n. [a, b, c, d] = utf8_enc n \<and> 0x10000 \<le> n \<and> n \<le> 0x10FFFF"
proof -
  obtain w x y z where e: "byte a = 0xF0 + w" "byte b = 0x80 + x" "byte c = 0x80 + y" "byte d = 0x80 + z"
    "x < 64" "y < 64" "z < 64" "w \<le> 4"
    using assms(1-5) offset [of "0xF0" "byte a"] offset [of "0x80" "byte b"] offset [of "0x80" "byte c"]
      offset [of "0x80" "byte d"]
    by (auto simp: is_cont_iff)
  let ?n = "((w * 64 + x) * 64 + y) * 64 + z"
  have r: "1 \<le> w \<or> 16 \<le> x" "w \<le> 3 \<or> w = 4 \<and> x < 16" using assms(6,7) e(1,2,8) by auto
  have n: "0x10000 \<le> ?n" "?n \<le> 0x10FFFF" using r e(5-8) by (auto simp: algebra_simps)
  have "[a, b, c, d] = utf8_enc ?n"
    using e n base64 [OF e(7), where q = "(w * 64 + x) * 64 + y"] base64 [OF e(6), where q = "w * 64 + x"] base64 [OF e(5), where q = w]
    by (simp add: utf8_enc_def char_eqI div_pow64)
  with n show ?thesis by blast
qed

lemma ascii_enc: "byte c < 0x80 \<Longrightarrow> [c] = utf8_enc (byte c)"
  by (simp add: utf8_enc_def)

lemma dot_enc: "''.'' = utf8_enc 0x2E" "'' '' = utf8_enc 0x20" "[CHR 0x0A] = utf8_enc 10"
  by code_simp+

lemma seq_valid_enc:
  assumes "seq_valid s" "s \<noteq> []"
  shows "\<exists>n. take (need_of (byte (hd s))) s = utf8_enc n \<and> need_of (byte (hd s)) \<le> length s \<and> 0x80 \<le> n \<and> n \<le> 0x10FFFF \<and>
    \<not> (0xD800 \<le> n \<and> n \<le> 0xDFFF) \<and>
    (need_of (byte (hd s)) = 2 \<and> byte (hd s) = 0xC2 \<and> byte (s ! 1) \<le> 0x9F \<or> 0xA0 \<le> n)"
proof -
  obtain a t where s: "s = a # t" using assms(2) by (cases s) auto
  consider "0xC2 \<le> byte a" "byte a \<le> 0xDF" | "0xE0 \<le> byte a" "byte a \<le> 0xEF" | "0xF0 \<le> byte a" "byte a \<le> 0xF4"
    using assms(1) s by (auto simp: seq_valid_def need_of_def Let_def split: if_splits)
  then show ?thesis
  proof cases
    case 1
    then have n: "need_of (byte a) = 2" by (simp add: need_of_def)
    then obtain b t' where t: "t = b # t'" "is_cont b"
      using assms(1) s by (cases t) (auto simp: seq_valid_def Let_def)
    show ?thesis using seq2_enc [OF 1 t(2)] n s t by (auto simp: numeral_2_eq_2)
  next
    case 2
    then have n: "need_of (byte a) = 3" by (simp add: need_of_def)
    then obtain b c t' where t: "t = b # c # t'" "is_cont b" "is_cont c"
      using assms(1) s by (cases t; cases "tl t") (auto simp: seq_valid_def Let_def)
    have "\<not> (byte a = 0xE0 \<and> byte b < 0xA0)" "\<not> (byte a = 0xED \<and> byte b > 0x9F)"
      using assms(1) s t by (auto simp: seq_valid_def Let_def)
    from seq3_enc [OF 2 t(2,3) this] show ?thesis using n s t by (auto simp: numeral_3_eq_3)
  next
    case 3
    then have n: "need_of (byte a) = 4" by (simp add: need_of_def)
    then obtain b c d t' where t: "t = b # c # d # t'" "is_cont b" "is_cont c" "is_cont d"
      using assms(1) s by (cases t; cases "tl t"; cases "tl (tl t)") (auto simp: seq_valid_def Let_def)
    have "\<not> (byte a = 0xF0 \<and> byte b < 0x90)" "\<not> (byte a = 0xF4 \<and> byte b > 0x8F)"
      using assms(1) s t by (auto simp: seq_valid_def Let_def)
    from seq4_enc [OF 3 t(2-4) this] obtain m where "[a, b, c, d] = utf8_enc m" "0x10000 \<le> m" "m \<le> 0x10FFFF" by blast
    then show ?thesis using n s t by (intro exI [of _ m]) simp
  qed
qed

lemma san_step_display:
  assumes "s \<noteq> []" "san_step s = (em, k)"
  shows "(\<exists>n. cp_ok n \<and> em = utf8_enc n) \<and> k \<le> length s"
proof (cases "byte (hd s) \<ge> 0x80 \<and> seq_valid s")
  case True
  from seq_valid_enc [OF conjunct2 [OF True] assms(1)] obtain n where
    n: "take (need_of (byte (hd s))) s = utf8_enc n" "need_of (byte (hd s)) \<le> length s" "0x80 \<le> n" "n \<le> 0x10FFFF"
      "\<not> (0xD800 \<le> n \<and> n \<le> 0xDFFF)"
      "need_of (byte (hd s)) = 2 \<and> byte (hd s) = 0xC2 \<and> byte (s ! 1) \<le> 0x9F \<or> 0xA0 \<le> n" by blast
  show ?thesis
  proof (cases "need_of (byte (hd s)) = 2 \<and> byte (hd s) = 0xC2 \<and> byte (s ! 1) \<le> 0x9F")
    case True2: True
    then have "em = ''.''" "k = 2" using True assms(2) by (simp_all add: san_step_def need_of_def Let_def)
    then show ?thesis using n(2) True2 dot_enc(1)
      by (intro conjI exI [of _ "0x2E"]) (simp_all add: cp_ok_def need_of_def)
  next
    case False
    then have "em = utf8_enc n" "k = need_of (byte (hd s))" "0xA0 \<le> n"
      using True assms(2) n(1,6) by (auto simp: san_step_def Let_def split: if_splits)
    then show ?thesis using n(2,4,5) by (auto simp: cp_ok_def)
  qed
next
  case False
  have len: "1 \<le> length s" using assms(1) by (simp add: Suc_le_eq)
  have dots: "cp_ok 0x2E" "cp_ok 0x20" "cp_ok 10" by (simp_all add: cp_ok_def)
  from False assms(2) have k: "k = 1" by (auto simp: san_step_def Let_def split: if_splits)
  have "em = ''.'' \<or> em = '' '' \<or> em = [CHR 0x0A] \<or> em = [hd s] \<and> 0x20 \<le> byte (hd s) \<and> byte (hd s) \<le> 0x7E"
    using False assms(2) by (auto simp: san_step_def Let_def split: if_splits)
  then have "\<exists>n. cp_ok n \<and> em = utf8_enc n"
  proof (elim disjE conjE)
    assume "em = [hd s]" "0x20 \<le> byte (hd s)" "byte (hd s) \<le> 0x7E"
    then show ?thesis using ascii_enc [of "hd s"] by (intro exI [of _ "byte (hd s)"]) (simp add: cp_ok_def)
  qed (use dots dot_enc in metis)+
  with k len show ?thesis by simp
qed

lemma byte_char_of: "m < 256 \<Longrightarrow> byte (char_of m) = m"
  by simp

lemma san_step_enc:
  assumes "cp_ok n"
  shows "san_step (utf8_enc n @ t) = (utf8_enc n, length (utf8_enc n))"
proof -
  consider "n = 10" | "0x20 \<le> n" "n \<le> 0x7E" | "0xA0 \<le> n" "n < 0x800"
    | "0x800 \<le> n" "n < 0x10000" "\<not> (0xD800 \<le> n \<and> n \<le> 0xDFFF)" | "0x10000 \<le> n" "n \<le> 0x10FFFF"
    using assms unfolding cp_ok_def by linarith
  then show ?thesis
  proof cases
    case 1
    then show ?thesis by (simp add: san_step_def flip: dot_enc(3))
  next
    case 2
    then have "char_of n \<noteq> CHR 0x0A" "char_of n \<noteq> CHR 0x09" by (auto dest: arg_cong [of _ _ byte])
    with 2 show ?thesis by (simp add: san_step_def utf8_enc_def)
  next
    case 3
    then have "2 \<le> n div 64" "n div 64 < 32" "n div 64 = 2 \<Longrightarrow> 32 \<le> n mod 64" "n mod 64 < 64"
      by (linarith, linarith, simp add: modulo_nat_def, simp)
    with 3 show ?thesis
      by (auto simp: san_step_def utf8_enc_def seq_valid_def need_of_def is_cont_iff Let_def numeral_2_eq_2)
  next
    case 4
    define q where "q = n div 64"
    have "32 \<le> q" "q < 1024" "q < 864 \<or> 896 \<le> q" using 4 unfolding q_def by linarith+
    then have "q div 64 < 16" "q div 64 = 0 \<Longrightarrow> 32 \<le> q mod 64" "q div 64 = 13 \<Longrightarrow> q mod 64 < 32"
      by (linarith, simp add: div_eq_0_iff, unfold modulo_nat_def, linarith)
    moreover have "n div 4096 = q div 64" by (simp add: q_def div_pow64)
    moreover have "n mod 64 < 64" "q mod 64 < 64" by simp_all
    ultimately show ?thesis using 4
      by (auto simp: san_step_def utf8_enc_def seq_valid_def need_of_def is_cont_iff Let_def simp flip: q_def)
  next
    case 5
    define q where "q = n div 4096"
    have "16 \<le> q" "q < 272" using 5 unfolding q_def by linarith+
    then have "q div 64 \<le> 4" "q div 64 = 0 \<Longrightarrow> 16 \<le> q mod 64" "q div 64 = 4 \<Longrightarrow> q mod 64 < 16"
      by (linarith, simp add: div_eq_0_iff, simp add: modulo_nat_def)
    moreover have "n div 262144 = q div 64" by (simp add: q_def div_pow64)
    moreover have "n mod 64 < 64" "n div 64 mod 64 < 64" "q mod 64 < 64" by simp_all
    ultimately show ?thesis using 5
      by (auto simp: san_step_def utf8_enc_def seq_valid_def need_of_def is_cont_iff Let_def simp flip: q_def)
  qed
qed

lemma display_text_Nil: "display_text []"
  unfolding display_text_def by (intro exI [of _ "[]"]) simp

lemma display_text_step: "cp_ok n \<Longrightarrow> display_text s \<Longrightarrow> display_text (utf8_enc n @ s)"
proof -
  assume "cp_ok n" "display_text s"
  then obtain cps where "list_all cp_ok (n # cps)" "s = concat (map utf8_enc cps)" by (auto simp: display_text_def)
  then show ?thesis unfolding display_text_def by (intro exI [of _ "n # cps"]) simp
qed

lemma display_text_append: "display_text s \<Longrightarrow> display_text t \<Longrightarrow> display_text (s @ t)"
  unfolding display_text_def by (metis concat_append list_all_append map_append)

lemma san_loop_display:
  "display_text (san_loop out_cap k s) \<and> (k < out_cap \<longrightarrow> k + length (san_loop out_cap k s) < out_cap)"
proof (induction out_cap k s rule: san_loop.induct)
  case (1 out_cap k s)
  show ?case
  proof (cases "s = []")
    case True
    then show ?thesis by (simp add: san_loop.simps display_text_Nil)
  next
    case False
    obtain em n where st: "san_step s = (em, n)" by fastforce
    from san_step_display [OF False st] obtain m where m: "cp_ok m" "em = utf8_enc m" by blast
    show ?thesis
    proof (cases "k + length em \<ge> out_cap")
      case True
      then show ?thesis using False st by (simp add: san_loop.simps [of out_cap k s] display_text_Nil)
    next
      case room: False
      have "san_loop out_cap k s = em @ san_loop out_cap (k + length em) (drop n s)"
        using False st room by (simp add: san_loop.simps [of out_cap k s])
      then show ?thesis
        using 1 [OF False st [symmetric] room] display_text_step [OF m(1)] m(2) room by auto
    qed
  qed
qed

lemma utf8_enc_nonempty [simp]: "utf8_enc n \<noteq> []"
  by (simp add: utf8_enc_def)

lemma san_loop_id:
  "list_all cp_ok cps \<Longrightarrow> k + length (concat (map utf8_enc cps)) < out_cap \<Longrightarrow>
     san_loop out_cap k (concat (map utf8_enc cps)) = concat (map utf8_enc cps)"
proof (induction cps arbitrary: k)
  case Nil
  then show ?case by (simp add: san_loop.simps)
next
  case (Cons n cps)
  from Cons.prems have st: "san_step (utf8_enc n @ concat (map utf8_enc cps)) = (utf8_enc n, length (utf8_enc n))"
    by (intro san_step_enc) simp
  have "san_loop out_cap (k + length (utf8_enc n)) (concat (map utf8_enc cps)) = concat (map utf8_enc cps)"
    using Cons.prems by (intro Cons.IH) simp_all
  then show ?case using Cons.prems st by (simp add: san_loop.simps [of out_cap k "utf8_enc n @ concat (map utf8_enc cps)"])
qed

text \<open>
  C9: what reaches the terminal.  Whatever bytes a tool printed, the sanitizer writes the UTF-8 encoding of
  printable characters and newlines only: no control byte, no escape, no C1 control, no malformed
  sequence.  It leaves room for the closing NUL, and text that is already of this form and fits passes
  unchanged, so sanitizing twice changes nothing.
\<close>

theorem sanitize_bytes_safe:
  "display_text (sanitize_bytes s out_cap) \<and> (0 < out_cap \<longrightarrow> length (sanitize_bytes s out_cap) < out_cap) \<and>
   (display_text s \<and> length s < out_cap \<longrightarrow> sanitize_bytes s out_cap = s) \<and>
   sanitize_bytes (sanitize_bytes s out_cap) out_cap = sanitize_bytes s out_cap"
proof -
  have d: "display_text (sanitize_bytes t out_cap)" and l: "0 < out_cap \<longrightarrow> length (sanitize_bytes t out_cap) < out_cap" for t
    using san_loop_display [of out_cap 0 t] display_text_Nil by (auto simp: sanitize_bytes_def)
  have i: "sanitize_bytes t out_cap = t" if "display_text t" "length t < out_cap" for t
    using that san_loop_id [of _ 0 out_cap] by (auto simp: display_text_def sanitize_bytes_def)
  have "sanitize_bytes (sanitize_bytes s out_cap) out_cap = sanitize_bytes s out_cap"
    using i [OF d] l by (cases "out_cap = 0") (simp_all add: sanitize_bytes_def)
  with d l i show ?thesis by blast
qed

text \<open>An escape sequence, the C1 introducer and a broken character are defused; the euro sign stays.\<close>

theorem sanitize_bytes_safe_witness:
  "display_text (sanitize_bytes [CHR 0x1B, CHR ''['', CHR 0xC2, CHR 0x9B, CHR 0xFF, CHR 0xE2, CHR 0x82, CHR 0xAC] 16) \<and>
   sanitize_bytes [CHR 0x1B, CHR ''['', CHR 0xC2, CHR 0x9B, CHR 0xFF, CHR 0xE2, CHR 0x82, CHR 0xAC] 16 =
     ''.[..'' @ [CHR 0xE2, CHR 0x82, CHR 0xAC]"
proof -
  let ?s = "[CHR 0x1B, CHR ''['', CHR 0xC2, CHR 0x9B, CHR 0xFF, CHR 0xE2, CHR 0x82, CHR 0xAC]"
  have "sanitize_bytes ?s 16 = ''.[..'' @ [CHR 0xE2, CHR 0x82, CHR 0xAC]" by code_simp
  with sanitize_bytes_safe [of ?s 16] show ?thesis by simp
qed

section \<open>Collapsed output fits its buffer\<close>

lemma cp_len_enc: "cp_ok n \<Longrightarrow> cp_len_at (utf8_enc n @ t) = length (utf8_enc n)"
proof -
  assume ok: "cp_ok n"
  consider "n < 0x80" | "0xA0 \<le> n" "n < 0x800" | "0x800 \<le> n" "n < 0x10000" | "0x10000 \<le> n" "n \<le> 0x10FFFF"
    using ok unfolding cp_ok_def by linarith
  then show ?thesis
  proof cases
    case 1
    then show ?thesis by (simp add: cp_len_at_def utf8_enc_def Let_def)
  next
    case 2
    then have "2 \<le> n div 64" "n div 64 < 32" by linarith+
    with 2 show ?thesis by (simp add: cp_len_at_def utf8_enc_def Let_def)
  next
    case 3
    then have "n div 4096 < 16" by linarith
    with 3 show ?thesis by (simp add: cp_len_at_def utf8_enc_def Let_def)
  next
    case 4
    then have "n div 262144 \<le> 4" by linarith
    with 4 show ?thesis by (simp add: cp_len_at_def utf8_enc_def Let_def)
  qed
qed

abbreviation newlines :: "string \<Rightarrow> nat" where
  "newlines s \<equiv> count_list s (CHR 0x0A)"

lemma newline_enc:
  assumes "cp_ok n"
  shows "newlines (utf8_enc n) = (if n = 10 then 1 else 0) \<and> (hd (utf8_enc n) = CHR 0x0A \<longleftrightarrow> n = 10)"
proof -
  have nl: "char_of m = CHR 0x0A \<longleftrightarrow> m = 10" if "m < 256" for m :: nat
  proof
    assume "char_of m = CHR 0x0A"
    then have "byte (char_of m) = byte (CHR 0x0A)" by simp
    then show "m = 10" using byte_char_of [OF that] by simp
  next
    show "m = 10 \<Longrightarrow> char_of m = CHR 0x0A" using dot_enc(3) by (simp add: utf8_enc_def)
  qed
  have "n div 64 < 32" if "n < 0x800" using that by linarith
  moreover have "n div 4096 < 16" if "n < 0x10000" using that by linarith
  moreover have "n div 262144 \<le> 4" using assms by (auto simp: cp_ok_def)
  ultimately show ?thesis using assms by (auto simp: utf8_enc_def nl cp_ok_def)
qed

lemma copy_loop_spec:
  assumes "list_all cp_ok cps" "copy_loop ml mc bl k w (concat (map utf8_enc cps)) = (w', s', b)"
    and "length w \<le> mc" "length w < bl" "newlines w = k" "k \<le> ml"
  shows "\<exists>cps1 cps2. cps = cps1 @ cps2 \<and> w' = w @ concat (map utf8_enc cps1) \<and> s' = concat (map utf8_enc cps2) \<and>
    length w' \<le> mc \<and> length w' < bl \<and> newlines w' \<le> ml \<and> (b \<longrightarrow> s' \<noteq> [])"
  using assms
proof (induction cps arbitrary: k w)
  case Nil
  then show ?case by (auto simp: copy_loop.simps)
next
  case (Cons n cps)
  let ?s = "utf8_enc n @ concat (map utf8_enc cps)"
  have ok: "cp_ok n" "list_all cp_ok cps" using Cons.prems(1) by simp_all
  have l: "cp_len_at ?s = length (utf8_enc n)" using cp_len_enc [OF ok(1)] by simp
  have ne: "?s \<noteq> []" by simp
  note nl = newline_enc [OF ok(1)]
  show ?case
  proof (cases "k < ml \<and> length w + length (utf8_enc n) \<le> mc \<and> length w + length (utf8_enc n) < bl")
    case True
    have "hd ?s = CHR 0x0A \<longleftrightarrow> n = 10" using nl by simp
    then have "copy_loop ml mc bl (if n = 10 then k + 1 else k) (w @ utf8_enc n) (concat (map utf8_enc cps)) = (w', s', b)"
      using Cons.prems(2) True ne l by (simp add: copy_loop.simps [of ml mc bl k w ?s] Let_def)
    from Cons.IH [OF ok(2) this] True Cons.prems nl obtain cps1 cps2 where
      "cps = cps1 @ cps2" "w' = (w @ utf8_enc n) @ concat (map utf8_enc cps1)" "s' = concat (map utf8_enc cps2)"
      "length w' \<le> mc" "length w' < bl" "newlines w' \<le> ml" "b \<longrightarrow> s' \<noteq> []" by auto
    then show ?thesis by (intro exI [of _ "n # cps1"] exI [of _ cps2]) auto
  next
    case False
    then have "w' = w \<and> s' = ?s" using Cons.prems(2) ne l
      by (auto simp: copy_loop.simps [of ml mc bl k w ?s] Let_def split: if_splits)
    then show ?thesis using Cons.prems(3-6) ne by (intro exI [of _ "[]"] exI [of _ "n # cps"]) auto
  qed
qed

lemma display_ascii: "list_all (\<lambda>c. cp_ok (byte c) \<and> byte c < 0x80) s \<Longrightarrow> display_text s"
proof (induction s)
  case (Cons c s)
  then have "utf8_enc (byte c) @ s = c # s" using ascii_enc [of c] by (metis append_Cons append_Nil list.pred_inject(2))
  then show ?case using Cons display_text_step [of "byte c" s] by simp
qed (rule display_text_Nil)

lemma to_string_digits: "list_all (\<lambda>c. 48 \<le> byte c \<and> byte c < 58) (to_string n)"
  by (induction n rule: to_string.induct) (auto simp: to_string.simps)

lemma length_to_string: "n < 10 ^ k \<Longrightarrow> 0 < k \<Longrightarrow> length (to_string n) \<le> k"
proof (induction n arbitrary: k rule: to_string.induct)
  case (1 n)
  show ?case
  proof (cases "n < 10")
    case True
    then show ?thesis using 1(3) by (simp add: to_string.simps)
  next
    case False
    then obtain j where k: "k = Suc j" "0 < j" using 1(2,3) by (cases k; cases "k - 1") auto
    have "n div 10 < 10 ^ j" using 1(2) k by (simp add: less_mult_imp_div_less mult.commute)
    from 1(1) [OF False this k(2)] k False show ?thesis by (simp add: to_string.simps [of n])
  qed
qed

lemma more_note_display: "display_text (more_note w rem)"
proof -
  have "ELLIPSIS = utf8_enc 0x2026"
    using char_eqI [of "CHR 0xE2" "0xE2"] char_eqI [of "CHR 0x80" "0x80"] char_eqI [of "CHR 0xA6" "0xA6"]
    by (simp add: ELLIPSIS_def utf8_enc_def)
  then have e: "display_text ELLIPSIS"
    using display_text_step [OF _ display_text_Nil, of "0x2026"] by (simp add: cp_ok_def)
  have d: "display_text (to_string rem)"
    using to_string_digits [of rem] by (intro display_ascii) (auto simp: list_all_iff cp_ok_def)
  have a: "display_text [CHR 0x0A]" "display_text '' (''" "display_text '' more bytes)''"
    by (rule display_ascii, simp add: cp_ok_def)+
  show ?thesis unfolding more_note_def using a e d display_text_Nil
    by (auto intro!: display_text_append simp del: append_Cons append_Nil)
qed

lemma more_note_length: "rem < 10 ^ 20 \<Longrightarrow> length (more_note w rem) \<le> 39"
  using length_to_string [of rem 20] by (simp add: more_note_def ELLIPSIS_def)

lemma more_note_newlines: "newlines (more_note w rem) \<le> 2"
proof -
  have "CHR 0x0A \<notin> set (to_string rem)" using to_string_digits [of rem] by (auto simp: list_all_iff)
  then show ?thesis by (simp add: more_note_def ELLIPSIS_def count_notin)
qed

text \<open>
  Collapsed output.  With a buffer of more than 64 bytes the collapse always succeeds: the result fits the buffer
  with its closing NUL, is fit for the terminal, has at most the asked lines and two more for the note,
  and is the sanitized text or a prefix of it, cut between characters, with the note of how many bytes
  are left out.
\<close>

theorem collapse_text_fits:
  assumes "length txt0 < 10 ^ 20" "64 < buf_len"
  shows "\<exists>w rest. sanitize_bytes txt0 (length txt0 + 1) = w @ rest \<and> display_text w \<and>
    (let res = (if rest = [] then w else w @ more_note w (length rest))
     in collapse_text True txt0 max_lines max_chars buf_len = Some res \<and> length res < buf_len \<and> display_text res \<and>
        newlines res \<le> nat (max 1 max_lines) + 2)"
proof -
  let ?clean = "sanitize_bytes txt0 (length txt0 + 1)"
  let ?mc = "if max 16 max_chars + 64 > int buf_len then int buf_len - 64 else max 16 max_chars"
  obtain cps where cps: "list_all cp_ok cps" "?clean = concat (map utf8_enc cps)"
    using sanitize_bytes_safe [of txt0 "length txt0 + 1"] by (auto simp: display_text_def)
  obtain w rest b where loop: "copy_loop (nat (max 1 max_lines)) (nat ?mc) buf_len 0 [] ?clean = (w, rest, b)"
    by (cases "copy_loop (nat (max 1 max_lines)) (nat ?mc) buf_len 0 [] ?clean")
  obtain cps1 cps2 where c: "cps = cps1 @ cps2" "w = concat (map utf8_enc cps1)" "rest = concat (map utf8_enc cps2)"
    "length w \<le> nat ?mc" "length w < buf_len" "newlines w \<le> nat (max 1 max_lines)" "b \<longrightarrow> rest \<noteq> []"
    using copy_loop_spec [OF cps(1) loop [unfolded cps(2)]] assms(2) by auto
  have split: "?clean = w @ rest" using cps(2) c(1-3) by simp
  have disp: "display_text w" using cps(1) c(1,2) by (auto simp: display_text_def)
  have "length ?clean < length txt0 + 1" using sanitize_bytes_safe [of txt0 "length txt0 + 1"] by simp
  then have "length rest < 10 ^ 20" using split assms(1) by simp
  then have note_len: "length (more_note w (length rest)) \<le> 39" by (rule more_note_length)
  have room: "length w + 64 \<le> buf_len" using c(4) assms(2) by (auto split: if_splits)
  have mc: "\<not> ?mc < 1" using assms(2) by auto
  have clean: "(if txt0 = [] then [] else ?clean) = ?clean" by (simp add: sanitize_bytes_def san_loop.simps)
  have "collapse_text True txt0 max_lines max_chars buf_len =
      Some (if rest = [] then w else w @ more_note w (length rest))"
    using assms(2) mc loop c(7) note_len room unfolding collapse_text_def Let_def clean by auto
  moreover have "display_text (if rest = [] then w else w @ more_note w (length rest))"
    using disp more_note_display display_text_append by auto
  moreover have "length (if rest = [] then w else w @ more_note w (length rest)) < buf_len"
    using room note_len by auto
  moreover have "newlines (if rest = [] then w else w @ more_note w (length rest)) \<le> nat (max 1 max_lines) + 2"
    using c(6) more_note_newlines [of w "length rest"] by auto
  ultimately show ?thesis using split disp unfolding Let_def by blast
qed

definition demo_output :: string where
  "demo_output = ''one'' @ [CHR 0x0A] @ ''two'' @ [CHR 0x0A] @ ''three''"

theorem collapse_text_fits_witness:
  "collapse_text True demo_output 1 100 80 = Some (''one'' @ [CHR 0x0A] @ ELLIPSIS @ '' (9 more bytes)'' @ [CHR 0x0A]) \<and>
   display_text (''one'' @ [CHR 0x0A] @ ELLIPSIS @ '' (9 more bytes)'' @ [CHR 0x0A])"
proof -
  have c: "collapse_text True demo_output 1 100 80 =
      Some (''one'' @ [CHR 0x0A] @ ELLIPSIS @ '' (9 more bytes)'' @ [CHR 0x0A])" by code_simp
  have l: "length demo_output < 10 ^ 20" by (simp add: demo_output_def)
  from collapse_text_fits [OF l, of 80 1 100] c show ?thesis by (auto simp: Let_def)
qed

lemma progress_bar_fits: "0 < buf_len \<Longrightarrow> length (progress_bar d t w buf_len) < buf_len"
  by (auto simp: progress_bar_def Let_def)

section \<open>The prompt queue is a bounded FIFO queue\<close>

text \<open>A client's run of pushes and pops: what was accepted, what was delivered, and the queue it leaves.\<close>

fun queue_run ::
    "('a \<Rightarrow> 'q \<Rightarrow> bool \<times> 'q) \<Rightarrow> ('q \<Rightarrow> 'a option \<times> 'q) \<Rightarrow> 'a option list \<Rightarrow> 'q \<Rightarrow> 'a list \<times> 'a list \<times> 'q" where
  "queue_run push pop [] q = ([], [], q)"
| "queue_run push pop (Some x # os) q =
     (case push x q of
        (b, q') \<Rightarrow> (case queue_run push pop os q' of (ins, outs, r) \<Rightarrow> (if b then x # ins else ins, outs, r)))"
| "queue_run push pop (None # os) q =
     (case pop q of
        (y, q') \<Rightarrow>
          (case queue_run push pop os q' of
             (ins, outs, r) \<Rightarrow> (ins, case y of Some x \<Rightarrow> x # outs | None \<Rightarrow> outs, r)))"

text \<open>
  The contract of a bounded queue, for a client that pushes and pops: \<open>cont\<close> is the content, \<open>bound\<close> the
  most it may hold, \<open>inv\<close> what every operation keeps.
\<close>

locale bounded_queue =
  fixes inv :: "'q \<Rightarrow> bool" and cont :: "'q \<Rightarrow> 'a list" and bound :: "'q \<Rightarrow> nat"
    and push :: "'a \<Rightarrow> 'q \<Rightarrow> bool \<times> 'q" and pop :: "'q \<Rightarrow> 'a option \<times> 'q"
  assumes push_inv: "inv q \<Longrightarrow> inv (snd (push x q)) \<and> bound (snd (push x q)) = bound q"
    and push_cont: "inv q \<Longrightarrow> cont (snd (push x q)) = (if fst (push x q) then cont q @ [x] else cont q)"
    and push_full: "inv q \<Longrightarrow> fst (push x q) \<Longrightarrow> length (cont q) < bound q"
    and pop_inv: "inv q \<Longrightarrow> inv (snd (pop q)) \<and> bound (snd (pop q)) = bound q"
    and pop_cont: "inv q \<Longrightarrow>
      (case cont q of [] \<Rightarrow> fst (pop q) = None \<and> cont (snd (pop q)) = []
       | x # xs \<Rightarrow> fst (pop q) = Some x \<and> cont (snd (pop q)) = xs)"
begin

lemma run_fifo:
  "queue_run push pop os q = (ins, outs, r) \<Longrightarrow> inv q \<Longrightarrow> length (cont q) \<le> bound q \<Longrightarrow>
     cont q @ ins = outs @ cont r \<and> inv r \<and> length (cont r) \<le> bound r \<and> bound r = bound q"
proof (induction os arbitrary: q ins outs r)
  case (Cons a os)
  show ?case
  proof (cases a)
    case (Some x)
    obtain b q' where p: "push x q = (b, q')" by fastforce
    obtain ins' where rr: "queue_run push pop os q' = (ins', outs, r)" "ins = (if b then x # ins' else ins')"
      using Cons.prems(1) p Some by (auto split: prod.splits)
    have q': "inv q'" "bound q' = bound q" "cont q' = (if b then cont q @ [x] else cont q)" "b \<Longrightarrow> length (cont q) < bound q"
      using push_inv [OF Cons.prems(2), of x] push_cont [OF Cons.prems(2), of x] push_full [OF Cons.prems(2), of x] p by auto
    have "length (cont q') \<le> bound q'" using q' Cons.prems(3) by auto
    from Cons.IH [OF rr(1) q'(1) this] q' rr show ?thesis by (auto split: if_splits)
  next
    case None
    obtain y q' where p: "pop q = (y, q')" by fastforce
    obtain outs' where rr: "queue_run push pop os q' = (ins, outs', r)"
        "outs = (case y of Some x \<Rightarrow> x # outs' | None \<Rightarrow> outs')"
      using Cons.prems(1) p None by (auto split: prod.splits)
    have q': "inv q'" "bound q' = bound q" using pop_inv [OF Cons.prems(2)] p by auto
    have c: "case cont q of [] \<Rightarrow> y = None \<and> cont q' = [] | x # xs \<Rightarrow> y = Some x \<and> cont q' = xs"
      using pop_cont [OF Cons.prems(2)] p by (simp split: list.splits)
    then have "length (cont q') \<le> bound q'" using q' Cons.prems(3) by (auto split: list.splits)
    from Cons.IH [OF rr(1) q'(1) this] q' rr c show ?thesis by (auto split: list.splits)
  qed
qed auto

end

definition prompt_queue_inv :: "prompt_queue \<Rightarrow> bool" where
  "prompt_queue_inv q \<longleftrightarrow> length (items q) \<le> qcap q \<and> qcap q \<le> max_len q \<and> 0 < max_len q"

interpretation prompts: bounded_queue prompt_queue_inv items max_len "prompt_queue_push g c" prompt_queue_pop for g c
  by unfold_locales
    (auto simp: prompt_queue_inv_def prompt_queue_push_def prompt_queue_pop_def Let_def split: list.splits if_splits)

lemma prompt_queue_init_inv: "prompt_queue_inv (prompt_queue_init m)"
  by (simp add: prompt_queue_inv_def prompt_queue_init_def)

text \<open>
  A push fails only when the queue is full or an allocation fails, and the array the text is stored in has
  room for it.
\<close>

lemma prompt_queue_push_total:
  assumes "prompt_queue_inv q"
  shows "fst (prompt_queue_push True True t q) \<longleftrightarrow> length (items q) < max_len q"
  using assms by (auto simp: prompt_queue_inv_def prompt_queue_push_def Let_def)

text \<open>
  Prompts typed while a turn runs are delivered in order.  In every run of pushes and pops from a fresh
  queue, what was accepted is what was delivered followed by what is queued, never more than the bound
  is held and the array has room for it; a push is refused only when the queue is full.
\<close>

theorem prompt_queue_fifo:
  "case queue_run (prompt_queue_push True True) prompt_queue_pop ops (prompt_queue_init m) of
     (ins, outs, q) \<Rightarrow>
       ins = outs @ items q \<and> length (items q) \<le> qcap q \<and> qcap q \<le> max_len q \<and>
       max_len q = (if m = 0 then 8 else m) \<and>
       (fst (prompt_queue_push True True t q) \<longleftrightarrow> length (items q) < max_len q)"
proof -
  obtain ins outs q where r: "queue_run (prompt_queue_push True True) prompt_queue_pop ops (prompt_queue_init m) = (ins, outs, q)"
    by (cases "queue_run (prompt_queue_push True True) prompt_queue_pop ops (prompt_queue_init m)")
  have "items (prompt_queue_init m) = []" "max_len (prompt_queue_init m) = (if m = 0 then 8 else m)" by (simp_all add: prompt_queue_init_def)
  with prompts.run_fifo [OF r prompt_queue_init_inv] have
    "ins = outs @ items q" "prompt_queue_inv q" "max_len q = (if m = 0 then 8 else m)" by auto
  then show ?thesis using r prompt_queue_push_total by (auto simp: prompt_queue_inv_def)
qed

end
