(* ===== verification/Agent_Selections.thy ===== *)
theory Agent_Selections
  imports Q27_Prelude
begin

text \<open>
  The ledger of edit selections, \<^verbatim>\<open>experiments/ds4-agent/q27_agent_selections.c\<close>: a read or search gives
  the model short handles for the ranges it returned, and an edit names a handle to get the exact bytes,
  range and file digest back.  The ledger is a ring of 256 entries.  Sizes and offsets are naturals: every
  sum of 64-bit numbers in the code is behind a guard that keeps it in range, and the guards are written
  out with \<open>UINT64_MAX\<close>.  The result of an allocation is an argument; pointers are not null.

  The specification is the list of all selections ever recorded: a handle resolves exactly when it is one
  of the last 256 and the path matches.
\<close>

section \<open>Data\<close>

definition SELECTION_LEDGER_CAP :: nat where "SELECTION_LEDGER_CAP = 256"
definition FILE_MAX_BYTES :: nat where "FILE_MAX_BYTES = 8 * 1024 * 1024"
definition MAX_SELECTIONS :: nat where "MAX_SELECTIONS = 32"
definition UINT64_MAX :: nat where "UINT64_MAX = 2 ^ 64 - 1"

record edit_selection =
  sel_id :: string
  sel_path :: string
  sel_bytes :: string
  sel_offset :: nat
  sel_sha :: string

record ledger =
  entries :: "edit_selection option list"
  nonce :: "32 word"
  next_id :: nat

record tool_selection =
  file_offset :: nat
  slen :: nat
  output_offset :: nat
  output_length :: nat
  first_line :: nat
  last_line :: nat

record tool_result =
  exit_code :: int
  tr_flags :: "32 word"
  output_bytes :: nat
  file_sha256 :: "string option"
  file_size :: nat
  selections :: "tool_selection list"
  tr_message :: string

datatype tool_kind = NO_TOOL | READ | SEARCH | EDIT | SHELL | WRITE | OVERWRITE
  | WRITE_PREFLIGHT | EDIT_PREFLIGHT | OVERWRITE_PREFLIGHT

text \<open>
  A pointer with its length is an optional text, \<open>None\<close> for the null pointer; a null path is the empty
  path, which every check treats alike.
\<close>

record tool_request =
  rq_kind :: tool_kind
  rq_path :: string
  rq_input :: "string option"
  rq_replacement :: "string option"
  rq_selection :: "(nat \<times> nat \<times> string) option"
  rq_timeout_ms :: nat
  rq_max_output :: nat

section \<open>Handles\<close>

definition hex_nibble :: "nat \<Rightarrow> char" where
  "hex_nibble d = (if d < 10 then char_of (48 + d) else char_of (87 + d))"

text \<open>\<^verbatim>\<open>"s%08x-%llu"\<close>\<close>

definition hex8 :: "32 word \<Rightarrow> string" where
  "hex8 n = map (\<lambda>i. hex_nibble (unat n div 16 ^ (7 - i) mod 16)) [0..<8]"

definition handle :: "32 word \<Rightarrow> nat \<Rightarrow> string" where
  "handle nc number = ''s'' @ hex8 nc @ ''-'' @ to_string number"

section \<open>Operations\<close>

definition ledger_create :: "32 word \<Rightarrow> ledger" where
  "ledger_create nc = \<lparr>entries = replicate SELECTION_LEDGER_CAP None, nonce = nc, next_id = 0\<rparr>"

fun find_in :: "string \<Rightarrow> edit_selection option list \<Rightarrow> edit_selection option" where
  "find_in h [] = None"
| "find_in h (None # es) = find_in h es"
| "find_in h (Some e # es) = (if sel_id e = h then Some e else find_in h es)"

definition find_selection :: "ledger \<Rightarrow> string \<Rightarrow> edit_selection option" where
  "find_selection l h = find_in h (entries l)"

text \<open>\<open>None\<close> is the null result; then the ledger is as before.\<close>

definition add_selection ::
    "bool \<Rightarrow> ledger \<Rightarrow> string \<Rightarrow> string \<Rightarrow> nat \<Rightarrow> string \<Rightarrow> (edit_selection \<times> ledger) option" where
  "add_selection alloc l path sha off bs =
     (if path = [] \<or> bs = [] \<or> next_id l = UINT64_MAX then None
      else if \<not> alloc then None
      else
        let number = next_id l + 1;
            e = \<lparr>sel_id = handle (nonce l) number, sel_path = path, sel_bytes = bs, sel_offset = off, sel_sha = sha\<rparr>
        in Some (e, l\<lparr>next_id := number, entries := (entries l)[(number - 1) mod SELECTION_LEDGER_CAP := Some e]\<rparr>))"

definition range_ok :: "tool_result \<Rightarrow> nat \<Rightarrow> tool_selection \<Rightarrow> bool" where
  "range_ok res raw_len s \<longleftrightarrow>
     \<not> (slen s = 0 \<or> first_line s = 0 \<or> last_line s < first_line s \<or> file_offset s > file_size res \<or>
        slen s > file_size res - file_offset s \<or> output_offset s > raw_len \<or> output_length s \<noteq> slen s \<or>
        output_length s > raw_len - output_offset s)"

definition sel_line :: "string \<Rightarrow> tool_selection \<Rightarrow> string" where
  "sel_line h s =
     ''['' @ h @ ''] lines '' @ to_string (first_line s) @ ''-'' @ to_string (last_line s) @ '' bytes '' @
     to_string (file_offset s) @ ''-'' @ to_string (file_offset s + slen s) @ [CHR 0x0A]"

text \<open>
  The first pass: \<open>None\<close> on a bad range or a text that does not fit its buffer of 32 or 160 bytes,
  otherwise the bytes needed.
\<close>

fun needed_bytes :: "ledger \<Rightarrow> tool_result \<Rightarrow> nat \<Rightarrow> nat \<Rightarrow> tool_selection list \<Rightarrow> nat \<Rightarrow> nat option" where
  "needed_bytes l res raw_len i [] n = Some n"
| "needed_bytes l res raw_len i (s # ss) n =
     (if \<not> range_ok res raw_len s then None
      else
        let h = handle (nonce l) (next_id l + i + 1); line = sel_line h s
        in if length h \<ge> 32 \<or> length line \<ge> 160 then None
           else needed_bytes l res raw_len (i + 1) ss (n + length line))"

definition OPEN_TAG :: string where
  "OPEN_TAG = [CHR 0x0A] @ ''<q27_selections>'' @ [CHR 0x0A] @
     ''Use edit_selection with the same path and one handle below.'' @ [CHR 0x0A]"

definition CLOSE_TAG :: string where
  "CLOSE_TAG = ''</q27_selections>'' @ [CHR 0x0A]"

text \<open>
  The second pass: \<open>ok i\<close> says whether the copies for selection \<open>i\<close> can be allocated, \<open>grow j\<close> whether the
  annotation can be grown the \<open>j\<close>-th time.  A failure leaves the entries recorded so far in the ledger.
\<close>

fun build_lines ::
    "(nat \<Rightarrow> bool) \<Rightarrow> (nat \<Rightarrow> bool) \<Rightarrow> string \<Rightarrow> string \<Rightarrow> string \<Rightarrow> nat \<Rightarrow> tool_selection list \<Rightarrow> ledger \<Rightarrow> string \<Rightarrow>
     string option \<times> ledger" where
  "build_lines ok grow path sha raw i [] l out' = (Some out', l)"
| "build_lines ok grow path sha raw i (s # ss) l out' =
     (case add_selection (ok i) l path sha (file_offset s) (substr raw (output_offset s) (output_length s)) of
        None \<Rightarrow> (None, l)
      | Some (e, l') \<Rightarrow>
          if \<not> grow (i + 1) then (None, l')
          else build_lines ok grow path sha raw (i + 1) ss l' (out' @ sel_line (sel_id e) s))"

text \<open>The return value, the annotation and the ledger.\<close>

definition annotate ::
    "(nat \<Rightarrow> bool) \<Rightarrow> (nat \<Rightarrow> bool) \<Rightarrow> ledger \<Rightarrow> tool_request \<Rightarrow> tool_result \<Rightarrow> string \<Rightarrow> nat \<Rightarrow>
     bool \<times> string option \<times> ledger" where
  "annotate ok grow l rq res raw cap =
     (case file_sha256 res of
        None \<Rightarrow> (exit_code res \<noteq> 0 \<or> selections res = [], None, l)
      | Some sha \<Rightarrow>
          if exit_code res \<noteq> 0 \<or> selections res = [] then (True, None, l)
          else if \<not> (rq_kind rq = READ \<or> rq_kind rq = SEARCH) \<or> rq_path rq = [] \<or> length (selections res) > MAX_SELECTIONS \<or>
                  file_size res > FILE_MAX_BYTES \<or> next_id l > UINT64_MAX - length (selections res)
          then (False, None, l)
          else case needed_bytes l res (length raw) 0 (selections res) (length OPEN_TAG + length CLOSE_TAG) of
                 None \<Rightarrow> (False, None, l)
               | Some needed \<Rightarrow>
                   if length raw > cap \<or> needed > cap - length raw then (True, None, l)
                   else if \<not> grow 0 then (False, None, l)
                   else case build_lines ok grow (rq_path rq) sha raw 0 (selections res) l OPEN_TAG of
                          (None, l') \<Rightarrow> (False, None, l')
                        | (Some t, l') \<Rightarrow>
                            if \<not> grow (length (selections res) + 1) then (False, None, l')
                            else (True, Some (t @ CLOSE_TAG), l'))"

datatype sel_error = NotEmpty | UnknownSelection | PathMismatch | OutOfMemory

definition resolve :: "bool \<Rightarrow> ledger \<Rightarrow> string \<Rightarrow> string \<Rightarrow> tool_request \<Rightarrow> sel_error + tool_request" where
  "resolve alloc l h path rq =
     (if rq_kind rq \<noteq> EDIT \<or> rq_input rq \<noteq> None \<or> rq_selection rq \<noteq> None then Inl NotEmpty
      else case find_selection l h of
             None \<Rightarrow> Inl UnknownSelection
           | Some e \<Rightarrow>
               if path \<noteq> sel_path e then Inl PathMismatch
               else if \<not> alloc then Inl OutOfMemory
               else Inr (rq\<lparr>rq_input := Some (sel_bytes e),
                            rq_selection := Some (sel_offset e, length (sel_bytes e), sel_sha e)\<rparr>))"

section \<open>The ring holds the last 256 selections\<close>

text \<open>The log: path, digest, offset and bytes of every selection recorded so far.\<close>

type_synonym sel_log = "(string \<times> string \<times> nat \<times> string) list"

definition entry_of :: "32 word \<Rightarrow> nat \<Rightarrow> string \<times> string \<times> nat \<times> string \<Rightarrow> edit_selection" where
  "entry_of nc number = (\<lambda>(path, sha, off, bs).
     \<lparr>sel_id = handle nc number, sel_path = path, sel_bytes = bs, sel_offset = off, sel_sha = sha\<rparr>)"

definition in_window :: "sel_log \<Rightarrow> nat \<Rightarrow> bool" where
  "in_window log k \<longleftrightarrow> k < length log \<and> length log \<le> k + 256"

definition ring_inv :: "ledger \<Rightarrow> sel_log \<Rightarrow> bool" where
  "ring_inv l log \<longleftrightarrow>
     next_id l = length log \<and> length log \<le> UINT64_MAX \<and> length (entries l) = 256 \<and>
     (\<forall>k. in_window log k \<longrightarrow> entries l ! (k mod 256) = Some (entry_of (nonce l) (k + 1) (log ! k))) \<and>
     (\<forall>i. length log \<le> i \<and> i < 256 \<longrightarrow> entries l ! i = None)"

lemma ring_inv_create: "ring_inv (ledger_create nc) []"
  by (simp add: ring_inv_def ledger_create_def in_window_def SELECTION_LEDGER_CAP_def)

lemma mod_256_inj: "k < n \<Longrightarrow> n < k + 256 \<Longrightarrow> k mod 256 \<noteq> n mod 256" for k n :: nat
proof
  assume "k < n" "n < k + 256" "k mod 256 = n mod 256"
  then have "256 dvd n - k" by (metis mod_eq_dvd_iff_nat less_imp_le)
  then show False using \<open>k < n\<close> \<open>n < k + 256\<close> by (auto dest!: dvd_imp_le)
qed

lemma add_selection_inv:
  assumes "ring_inv l log" "add_selection alloc l path sha off bs = Some (e, l')"
  shows "ring_inv l' (log @ [(path, sha, off, bs)]) \<and> e = entry_of (nonce l) (next_id l + 1) (path, sha, off, bs) \<and>
    nonce l' = nonce l \<and> next_id l' = next_id l + 1"
proof -
  let ?n = "length log" and ?x = "(path, sha, off, bs)"
  have g: "next_id l \<noteq> UINT64_MAX" and e: "e = entry_of (nonce l) (?n + 1) ?x"
    and l': "l' = l\<lparr>next_id := ?n + 1, entries := (entries l)[?n mod 256 := Some e]\<rparr>"
    using assms by (auto simp: add_selection_def Let_def ring_inv_def entry_of_def SELECTION_LEDGER_CAP_def split: if_splits)
  have len: "length (entries l) = 256" "?n \<le> UINT64_MAX" "next_id l = ?n" using assms(1) by (simp_all add: ring_inv_def)
  have "entries l' ! (k mod 256) = Some (entry_of (nonce l) (k + 1) ((log @ [?x]) ! k))" if k: "in_window (log @ [?x]) k" for k
  proof (cases "k = ?n")
    case True
    then show ?thesis using len(1) by (simp add: l' e)
  next
    case False
    then have "k < ?n" "?n < k + 256" using k by (simp_all add: in_window_def)
    then show ?thesis using assms(1) mod_256_inj [of k ?n] by (simp add: l' ring_inv_def in_window_def nth_append)
  qed
  moreover have "entries l' ! i = None" if "?n + 1 \<le> i" "i < 256" for i
    using that assms(1) by (simp add: l' ring_inv_def)
  ultimately show ?thesis using g e len by (auto simp: ring_inv_def l')
qed

lemma ring_entries:
  assumes "ring_inv l log"
  shows "Some e \<in> set (entries l) \<longleftrightarrow> (\<exists>k. in_window log k \<and> e = entry_of (nonce l) (k + 1) (log ! k))"
proof
  assume "Some e \<in> set (entries l)"
  then obtain i where i: "i < 256" "entries l ! i = Some e" using assms by (auto simp: in_set_conv_nth ring_inv_def)
  then have "i < length log" using assms by (auto simp: ring_inv_def not_le [symmetric])
  define k where "k = i + 256 * ((length log - 1 - i) div 256)"
  have "k mod 256 = i" using i(1) by (simp add: k_def)
  moreover have "256 * ((length log - 1 - i) div 256) \<le> length log - 1 - i"
    "length log - 1 - i < 256 * ((length log - 1 - i) div 256) + 256" by (simp_all add: algebra_simps)
  then have "in_window log k" using \<open>i < length log\<close> by (auto simp: in_window_def k_def)
  ultimately show "\<exists>k. in_window log k \<and> e = entry_of (nonce l) (k + 1) (log ! k)"
    using assms i(2) by (intro exI [of _ k]) (auto simp: ring_inv_def)
next
  assume "\<exists>k. in_window log k \<and> e = entry_of (nonce l) (k + 1) (log ! k)"
  then obtain k where "in_window log k" "e = entry_of (nonce l) (k + 1) (log ! k)" by blast
  then have "entries l ! (k mod 256) = Some e" "k mod 256 < length (entries l)" using assms by (simp_all add: ring_inv_def)
  then show "Some e \<in> set (entries l)" by (metis nth_mem)
qed

lemma find_in_SomeD: "find_in h es = Some e \<Longrightarrow> Some e \<in> set es \<and> sel_id e = h"
  by (induction h es rule: find_in.induct) (auto split: if_splits)

lemma find_in_NoneD: "find_in h es = None \<Longrightarrow> Some e \<in> set es \<Longrightarrow> sel_id e \<noteq> h"
  by (induction h es rule: find_in.induct) (auto split: if_splits)

lemma handle_inject: "handle nc a = handle nc b \<longleftrightarrow> a = b"
  by (simp add: handle_def to_string_inject)

lemma sel_id_entry [simp]: "sel_id (entry_of nc n x) = handle nc n"
  by (simp add: entry_of_def split: prod.split)

lemma find_selection_iff:
  assumes "ring_inv l log"
  shows "find_selection l h = Some e \<longleftrightarrow>
    (\<exists>k. in_window log k \<and> h = handle (nonce l) (k + 1) \<and> e = entry_of (nonce l) (k + 1) (log ! k))"
proof
  assume "find_selection l h = Some e"
  then have e: "Some e \<in> set (entries l)" "sel_id e = h"
    using find_in_SomeD [of h "entries l" e] unfolding find_selection_def by blast+
  from e(1) obtain k where k: "in_window log k" "e = entry_of (nonce l) (k + 1) (log ! k)"
    unfolding ring_entries [OF assms] by blast
  then have "h = handle (nonce l) (k + 1)" using e(2) by (simp only: sel_id_entry)
  with k show "\<exists>k. in_window log k \<and> h = handle (nonce l) (k + 1) \<and> e = entry_of (nonce l) (k + 1) (log ! k)" by blast
next
  assume "\<exists>k. in_window log k \<and> h = handle (nonce l) (k + 1) \<and> e = entry_of (nonce l) (k + 1) (log ! k)"
  then obtain k where k: "in_window log k" "h = handle (nonce l) (k + 1)" "e = entry_of (nonce l) (k + 1) (log ! k)" by blast
  then have m: "Some e \<in> set (entries l)" "sel_id e = h" using ring_entries [OF assms] by auto
  then obtain e' where e': "find_selection l h = Some e'"
    using find_in_NoneD by (cases "find_selection l h") (auto simp: find_selection_def)
  then have "Some e' \<in> set (entries l)" and h': "sel_id e' = h" using find_in_SomeD by (auto simp: find_selection_def)
  then obtain k' where k': "e' = entry_of (nonce l) (k' + 1) (log ! k')" unfolding ring_entries [OF assms] by blast
  with h' have "handle (nonce l) (k' + 1) = h" by (simp only: sel_id_entry)
  with k' have "e' = entry_of (nonce l) (k' + 1) (log ! k')" "handle (nonce l) (k' + 1) = h" by blast+
  then show "find_selection l h = Some e" using k e' by (simp add: handle_inject)
qed

section \<open>Reachable ledgers\<close>

text \<open>What a result asks to record.\<close>

definition recorded :: "string \<Rightarrow> string \<Rightarrow> string \<Rightarrow> tool_selection list \<Rightarrow> sel_log" where
  "recorded path sha raw ss =
     map (\<lambda>s. (path, sha, file_offset s, substr raw (output_offset s) (output_length s))) ss"

inductive ledger_reach :: "ledger \<Rightarrow> bool" where
  create: "ledger_reach (ledger_create nc)"
| annotate: "ledger_reach l \<Longrightarrow> annotate ok grow l rq res raw cap = (b, a, l') \<Longrightarrow> ledger_reach l'"

lemma build_lines_inv:
  assumes "build_lines ok grow path sha raw i ss l out' = (r, l')" "ring_inv l log"
  shows "\<exists>m \<le> length ss. ring_inv l' (log @ recorded path sha raw (take m ss)) \<and> nonce l' = nonce l \<and>
    (r \<noteq> None \<longrightarrow> m = length ss)"
  using assms
proof (induction ok grow path sha raw i ss l out' arbitrary: log rule: build_lines.induct)
  case (1 ok grow path sha raw i l out')
  then show ?case by (simp add: recorded_def)
next
  case (2 ok grow path sha raw i s ss l out')
  show ?case
  proof (cases "add_selection (ok i) l path sha (file_offset s) (substr raw (output_offset s) (output_length s))")
    case None
    then show ?thesis using 2(2,3) by (intro exI [of _ 0]) (simp add: recorded_def)
  next
    case (Some p)
    obtain e l1 where p: "p = (e, l1)" by fastforce
    let ?x = "(path, sha, file_offset s, substr raw (output_offset s) (output_length s))"
    have a: "ring_inv l1 (log @ [?x])" "nonce l1 = nonce l" using add_selection_inv [OF 2(3)] Some p by auto
    show ?thesis
    proof (cases "grow (i + 1)")
      case True
      then have "build_lines ok grow path sha raw (i + 1) ss l1 (out' @ sel_line (sel_id e) s) = (r, l')"
        using 2(2) Some p by simp
      from 2(1) [OF Some p [symmetric] _ this a(1)] True obtain m where m: "m \<le> length ss"
        "ring_inv l' ((log @ [?x]) @ recorded path sha raw (take m ss))" "nonce l' = nonce l1" "r \<noteq> None \<longrightarrow> m = length ss"
        by auto
      then show ?thesis using a(2) by (intro exI [of _ "Suc m"]) (simp add: recorded_def)
    next
      case False
      then show ?thesis using 2(2) Some p a by (intro exI [of _ 1]) (simp add: recorded_def)
    qed
  qed
qed

lemma annotate_inv:
  assumes "annotate ok grow l rq res raw cap = (b, a, l')" "ring_inv l log"
  shows "\<exists>log'. ring_inv l' (log @ log') \<and> nonce l' = nonce l"
proof -
  have "l' = l \<or> (\<exists>sha r. build_lines ok grow (rq_path rq) sha raw 0 (selections res) l OPEN_TAG = (r, l'))"
    using assms(1) by (auto simp: annotate_def split: option.splits if_splits prod.splits)
  then show ?thesis using assms(2) build_lines_inv by (metis append_Nil2)
qed

lemma ledger_reach_inv: "ledger_reach l \<Longrightarrow> \<exists>log. ring_inv l log"
proof (induction rule: ledger_reach.induct)
  case (create nc)
  show ?case using ring_inv_create by blast
next
  case (annotate l ok grow rq res raw cap b a l')
  then show ?case using annotate_inv by blast
qed

section \<open>Properties\<close>

definition filled :: "tool_request \<Rightarrow> string \<times> string \<times> nat \<times> string \<Rightarrow> tool_request" where
  "filled rq = (\<lambda>(path, sha, off, bs). rq\<lparr>rq_input := Some bs, rq_selection := Some (off, length bs, sha)\<rparr>)"

definition empty_edit :: "tool_request \<Rightarrow> bool" where
  "empty_edit rq \<longleftrightarrow> rq_kind rq = EDIT \<and> rq_input rq = None \<and> rq_selection rq = None"

lemma entry_fields:
  "sel_path (entry_of nc n x) = fst x"
  "rq\<lparr>rq_input := Some (sel_bytes (entry_of nc n x)),
      rq_selection := Some (sel_offset (entry_of nc n x), length (sel_bytes (entry_of nc n x)), sel_sha (entry_of nc n x))\<rparr> =
    filled rq x"
  by (cases x; simp add: entry_of_def filled_def)+

lemma resolve_iff:
  assumes "ring_inv l log"
  shows "resolve True l h path rq = Inr rq' \<longleftrightarrow>
    empty_edit rq \<and> (\<exists>k. in_window log k \<and> h = handle (nonce l) (k + 1) \<and> fst (log ! k) = path \<and> rq' = filled rq (log ! k))"
proof (cases "empty_edit rq")
  case True
  have "resolve True l h path rq = Inr rq' \<longleftrightarrow>
      (\<exists>e. find_selection l h = Some e \<and> path = sel_path e \<and>
         rq' = rq\<lparr>rq_input := Some (sel_bytes e), rq_selection := Some (sel_offset e, length (sel_bytes e), sel_sha e)\<rparr>)"
    using True by (cases "find_selection l h") (auto simp: resolve_def empty_edit_def)
  also have "\<dots> \<longleftrightarrow> (\<exists>k. in_window log k \<and> h = handle (nonce l) (k + 1) \<and> fst (log ! k) = path \<and> rq' = filled rq (log ! k))"
    unfolding find_selection_iff [OF assms] by (auto simp: entry_fields)
  finally show ?thesis using True by simp
next
  case False
  then show ?thesis by (auto simp: resolve_def empty_edit_def)
qed

text \<open>A build that succeeds lists one line for each selection under the number it got.\<close>

lemma build_lines_text:
  assumes "build_lines ok grow path sha raw i ss l out' = (Some t, l')" "ring_inv l log"
  shows "t = out' @ concat (map (\<lambda>j. sel_line (handle (nonce l) (length log + j + 1)) (ss ! j)) [0..<length ss])"
  using assms
proof (induction ok grow path sha raw i ss l out' arbitrary: log rule: build_lines.induct)
  case (2 ok grow path sha raw i s ss l out')
  let ?x = "(path, sha, file_offset s, substr raw (output_offset s) (output_length s))"
  obtain e l1 where a: "add_selection (ok i) l path sha (file_offset s) (substr raw (output_offset s) (output_length s)) = Some (e, l1)"
    and g: "grow (i + 1)" and b: "build_lines ok grow path sha raw (i + 1) ss l1 (out' @ sel_line (sel_id e) s) = (Some t, l')"
    using 2(2) by (auto split: option.splits if_splits)
  have id: "next_id l = length log" using 2(3) by (simp add: ring_inv_def)
  have inv: "ring_inv l1 (log @ [?x])" "nonce l1 = nonce l" "sel_id e = handle (nonce l) (length log + 1)"
    using add_selection_inv [OF 2(3) a] by (simp_all add: id)
  have "t = (out' @ sel_line (sel_id e) s) @
      concat (map (\<lambda>j. sel_line (handle (nonce l1) (length (log @ [?x]) + j + 1)) (ss ! j)) [0..<length ss])"
    by (rule 2(1) [OF a refl _ b inv(1)]) (use g in simp)
  moreover have "[0..<length (s # ss)] = 0 # map Suc [0..<length ss]"
    using upt_conv_Cons [of 0 "length (s # ss)"] map_Suc_upt [of 0 "length ss"] by simp
  ultimately show ?case unfolding inv(2,3) by (simp add: comp_def)
qed simp

text \<open>
  A handle resolves to what was recorded under it.  In every reachable ledger there is the log of everything
  recorded, and resolving a handle for an empty edit request succeeds exactly when the handle is that of
  one of the last 256 selections and the path is the selection's; the request then carries exactly its
  bytes, offset, length and file digest.
\<close>

theorem selection_resolve_exact:
  assumes "ledger_reach l"
  shows "\<exists>log. next_id l = length log \<and>
    (\<forall>h path rq rq'. resolve True l h path rq = Inr rq' \<longleftrightarrow>
       empty_edit rq \<and> (\<exists>k<length log. length log \<le> k + 256 \<and> h = handle (nonce l) (k + 1) \<and>
         fst (log ! k) = path \<and> rq' = filled rq (log ! k)))"
proof -
  obtain log where inv: "ring_inv l log" using ledger_reach_inv [OF assms] by blast
  then show ?thesis using resolve_iff [OF inv] by (intro exI [of _ log]) (auto simp: ring_inv_def in_window_def)
qed

text \<open>The examples below read a file of one line.\<close>

definition hello_res :: tool_result where
  "hello_res = \<lparr>exit_code = 0, tr_flags = 0, output_bytes = 8, file_sha256 = Some ''digest'', file_size = 6,
     selections = [\<lparr>file_offset = 0, slen = 6, output_offset = 2, output_length = 6, first_line = 1, last_line = 1\<rparr>],
     tr_message = []\<rparr>"

definition hello_read :: tool_request where
  "hello_read = \<lparr>rq_kind = READ, rq_path = ''a.c'', rq_input = None, rq_replacement = None, rq_selection = None,
     rq_timeout_ms = 0, rq_max_output = 1000\<rparr>"

definition hello_edit :: tool_request where
  "hello_edit = \<lparr>rq_kind = EDIT, rq_path = ''a.c'', rq_input = None, rq_replacement = Some ''bye;'', rq_selection = None,
     rq_timeout_ms = 0, rq_max_output = 1000\<rparr>"

definition hello_run :: "bool \<times> string option \<times> ledger" where
  "hello_run = annotate (\<lambda>_. True) (\<lambda>_. True) (ledger_create 7) hello_read hello_res ''1 hello;'' 1000"

lemma hello_reach: "ledger_reach (ledger_create 7)" "ledger_reach (snd (snd hello_run))"
  using ledger_reach.create ledger_reach.annotate [OF ledger_reach.create, of "\<lambda>_. True" "\<lambda>_. True" 7 hello_read hello_res]
  by (metis surjective_pairing hello_run_def)+

lemma hello_empty: "empty_edit hello_edit"
  by (simp add: empty_edit_def hello_edit_def)

theorem selection_resolve_exact_witness:
  "\<exists>log. next_id (snd (snd hello_run)) = length log \<and>
    (\<forall>h path rq rq'. resolve True (snd (snd hello_run)) h path rq = Inr rq' \<longleftrightarrow>
       empty_edit rq \<and> (\<exists>k<length log. length log \<le> k + 256 \<and> h = handle (nonce (snd (snd hello_run))) (k + 1) \<and>
         fst (log ! k) = path \<and> rq' = filled rq (log ! k)))"
  by (rule selection_resolve_exact [OF hello_reach(2)])

text \<open>
  An annotation can be used.  When a read or search is annotated, the annotation and the output fit the cap,
  it lists one line for each selection, and each handle it lists resolves, for the same path, to exactly
  the bytes of the output at the selection's place and the digest of the file.
\<close>

theorem annotate_resolves:
  assumes "ledger_reach l" "annotate ok grow l rd res raw cap = (True, Some a, l')" "empty_edit rq"
  shows "length raw + length a \<le> cap \<and>
    a = OPEN_TAG @ concat (map (\<lambda>i. sel_line (handle (nonce l) (next_id l + i + 1)) (selections res ! i))
          [0..<length (selections res)]) @ CLOSE_TAG \<and>
    (\<forall>i<length (selections res).
       let s = selections res ! i
       in resolve True l' (handle (nonce l) (next_id l + i + 1)) (rq_path rd) rq =
            Inr (filled rq (rq_path rd, the (file_sha256 res), file_offset s, substr raw (output_offset s) (output_length s))))"
proof -
  obtain log where inv: "ring_inv l log" using ledger_reach_inv [OF assms(1)] by blast
  obtain sha needed t where sha: "file_sha256 res = Some sha" "length (selections res) \<le> 32"
      and nb: "needed_bytes l res (length raw) 0 (selections res) (length OPEN_TAG + length CLOSE_TAG) = Some needed"
      and cap: "length raw \<le> cap" "needed \<le> cap - length raw"
      and b: "build_lines ok grow (rq_path rd) sha raw 0 (selections res) l OPEN_TAG = (Some t, l')" and a: "a = t @ CLOSE_TAG"
    using assms(2) by (auto simp: annotate_def MAX_SELECTIONS_def not_less split: option.splits if_splits prod.splits)
  let ?n = "length (selections res)" and ?rec = "recorded (rq_path rd) sha raw (selections res)"
  have id: "next_id l = length log" using inv by (simp add: ring_inv_def)
  have inv': "ring_inv l' (log @ ?rec)" "nonce l' = nonce l" using build_lines_inv [OF b inv] by auto
  have t: "t = OPEN_TAG @ concat (map (\<lambda>j. sel_line (handle (nonce l) (length log + j + 1)) (selections res ! j)) [0..<?n])"
    by (rule build_lines_text [OF b inv])
  have "needed_bytes l res k j ss m = Some n \<Longrightarrow>
      n = m + length (concat (map (\<lambda>i. sel_line (handle (nonce l) (next_id l + (j + i) + 1)) (ss ! i)) [0..<length ss]))" for k j ss m n
  proof (induction l res k j ss m rule: needed_bytes.induct)
    case (2 l res k j s ss m)
    have "[0..<length (s # ss)] = 0 # map Suc [0..<length ss]"
      using upt_conv_Cons [of 0 "length (s # ss)"] map_Suc_upt [of 0 "length ss"] by simp
    with 2 show ?case by (auto simp: Let_def comp_def split: if_splits)
  qed simp
  from this [OF nb] have "needed = length a" unfolding a t id by simp
  then have fits: "length raw + length a \<le> cap" using cap by simp
  have "resolve True l' (handle (nonce l) (next_id l + i + 1)) (rq_path rd) rq = Inr (filled rq (?rec ! i))" if i: "i < ?n" for i
  proof -
    have "in_window (log @ ?rec) (length log + i)" using i sha(2) by (simp add: in_window_def recorded_def)
    moreover have "(log @ ?rec) ! (length log + i) = ?rec ! i" by simp
    moreover have "fst (?rec ! i) = rq_path rd" using i by (simp add: recorded_def)
    ultimately show ?thesis unfolding resolve_iff [OF inv'(1)] inv'(2) id using assms(3)
      by (intro conjI exI [of _ "length log + i"]) simp_all
  qed
  then show ?thesis using fits a t id sha(1) by (simp add: Let_def recorded_def)
qed

text \<open>The handle of the example is what the format prints.\<close>

lemma hello_handle: "handle 7 1 = ''s00000007-1''"
  by (simp add: handle_def hex8_def hex_nibble_def to_string.simps upt_rec char_of_def bit_iff_odd)

lemma hello_ok: "\<exists>a. hello_run = (True, Some a, snd (snd hello_run))"
proof -
  have "fst hello_run \<and> fst (snd hello_run) \<noteq> None"
    using hello_handle
    by (simp add: hello_run_def annotate_def hello_read_def hello_res_def ledger_create_def add_selection_def range_ok_def substr_def Let_def
        MAX_SELECTIONS_def FILE_MAX_BYTES_def UINT64_MAX_def OPEN_TAG_def CLOSE_TAG_def sel_line_def to_string.simps)
  then show ?thesis by (metis not_None_eq prod.collapse)
qed

theorem annotate_resolves_witness:
  "resolve True (snd (snd hello_run)) (handle 7 1) ''a.c'' hello_edit =
     Inr (hello_edit\<lparr>rq_input := Some ''hello;'', rq_selection := Some (0, 6, ''digest'')\<rparr>)"
proof -
  obtain a where a: "hello_run = (True, Some a, snd (snd hello_run))" using hello_ok by blast
  then have "annotate (\<lambda>_. True) (\<lambda>_. True) (ledger_create 7) hello_read hello_res ''1 hello;'' 1000 =
      (True, Some a, snd (snd hello_run))" by (simp add: hello_run_def)
  from annotate_resolves [OF hello_reach(1) this hello_empty] show ?thesis
    by (simp add: hello_res_def hello_read_def ledger_create_def filled_def substr_def Let_def)
qed

end
