(* ===== verification/Agent_Match.thy ===== *)
theory Agent_Match
  imports Q27_Prelude
begin

text \<open>
  The byte matcher of the file tools, \<^verbatim>\<open>kmp_table\<close>, \<^verbatim>\<open>kmp_contains\<close> and \<^verbatim>\<open>kmp_matches\<close> of
  \<^verbatim>\<open>experiments/ds4-agent/q27_agent_tools.c\<close>.  The inner loop walks back through the table and would not
  end on a bad one, so it is a partial function and \<open>None\<close> stands for a loop that never ends; that it ends
  is part of what is proved.  The answer of the liveness callback when it is asked at position \<open>i\<close> is
  \<open>alive i\<close>.

  The specification is the list of positions at which the needle occurs, overlapping ones included.
\<close>

unbundle bit_operations_syntax

section \<open>The loops\<close>

partial_function (option) kmp_back :: "nat list \<Rightarrow> string \<Rightarrow> char \<Rightarrow> nat \<Rightarrow> nat option" where
  "kmp_back table needle c matched =
     (if matched \<noteq> 0 \<and> c \<noteq> needle ! matched then kmp_back table needle c (table ! (matched - 1)) else Some matched)"

declare kmp_back.simps [code]

definition kmp_step :: "nat list \<Rightarrow> string \<Rightarrow> char \<Rightarrow> nat \<Rightarrow> nat option" where
  "kmp_step table needle c matched =
     (case kmp_back table needle c matched of
        None \<Rightarrow> None
      | Some m \<Rightarrow> Some (if c = needle ! m then m + 1 else m))"

definition poll :: "(nat \<Rightarrow> bool) \<Rightarrow> nat \<Rightarrow> bool" where
  "poll alive i \<longleftrightarrow> \<not> (i AND 65535 = 0 \<and> \<not> alive i)"

datatype kmp_tab = No_Memory | Halted | Table "nat list"

function table_loop :: "(nat \<Rightarrow> bool) \<Rightarrow> string \<Rightarrow> nat \<Rightarrow> nat \<Rightarrow> nat list \<Rightarrow> kmp_tab option" where
  "table_loop alive needle i matched table =
     (if i < length needle then
        (if \<not> poll alive i then Some Halted
         else case kmp_step table needle (needle ! i) matched of
                None \<Rightarrow> None
              | Some m \<Rightarrow> table_loop alive needle (i + 1) m (table[i := m]))
      else Some (Table table))"
  by pat_completeness auto
termination table_loop
  by (relation "measure (\<lambda>(alive, needle, i, matched, table). length needle - i)") auto

declare table_loop.simps [simp del]

definition kmp_table :: "bool \<Rightarrow> (nat \<Rightarrow> bool) \<Rightarrow> string \<Rightarrow> kmp_tab option" where
  "kmp_table alloc alive needle =
     (if \<not> alloc then Some No_Memory else table_loop alive needle 1 0 (replicate (length needle) 0))"

text \<open>\<open>Cancelled\<close> is a scan that the callback has stopped.\<close>

datatype 'a polled = Cancelled | Done 'a

fun contains_loop :: "(nat \<Rightarrow> bool) \<Rightarrow> nat list \<Rightarrow> string \<Rightarrow> nat \<Rightarrow> nat \<Rightarrow> string \<Rightarrow> bool polled option" where
  "contains_loop alive table needle i matched [] = Some (Done False)"
| "contains_loop alive table needle i matched (c # hs) =
     (if \<not> poll alive i then Some Cancelled
      else case kmp_step table needle c matched of
             None \<Rightarrow> None
           | Some m \<Rightarrow>
               if m = length needle then Some (Done True)
               else contains_loop alive table needle (i + 1) m hs)"

definition kmp_contains :: "(nat \<Rightarrow> bool) \<Rightarrow> nat list \<Rightarrow> string \<Rightarrow> string \<Rightarrow> bool polled option" where
  "kmp_contains alive table needle haystack = contains_loop alive table needle 0 0 haystack"

fun matches_loop ::
    "(nat \<Rightarrow> bool) \<Rightarrow> nat list \<Rightarrow> string \<Rightarrow> nat \<Rightarrow> nat \<Rightarrow> nat \<Rightarrow> nat \<Rightarrow> string \<Rightarrow> (nat \<times> nat) polled option" where
  "matches_loop alive table needle i matched n lst [] = Some (Done (n, lst))"
| "matches_loop alive table needle i matched n lst (c # hs) =
     (if \<not> poll alive i then Some Cancelled
      else case kmp_step table needle c matched of
             None \<Rightarrow> None
           | Some m \<Rightarrow>
               if m = length needle
               then matches_loop alive table needle (i + 1) (table ! (m - 1)) (n + 1) (i + 1 - length needle) hs
               else matches_loop alive table needle (i + 1) m n lst hs)"

definition kmp_matches :: "(nat \<Rightarrow> bool) \<Rightarrow> nat list \<Rightarrow> string \<Rightarrow> string \<Rightarrow> (nat \<times> nat) polled option" where
  "kmp_matches alive table needle haystack = matches_loop alive table needle 0 0 0 0 haystack"

section \<open>Occurrences\<close>

definition occurrences :: "string \<Rightarrow> string \<Rightarrow> nat list" where
  "occurrences p h = filter (\<lambda>j. prefix p (drop j h)) [0..<length h + 1 - length p]"

lemma occurrences_snoc:
  assumes "p \<noteq> []"
  shows "occurrences p (u @ [c]) = occurrences p u @ (if suffix p (u @ [c]) then [length u + 1 - length p] else [])"
proof (cases "length p \<le> length u + 1")
  case True
  have 1: "prefix p (drop j (u @ [c])) = prefix p (drop j u)" if "j < length u + 1 - length p" for j
  proof -
    have "p \<noteq> drop j u @ [c]" using that by (auto dest: arg_cong [of _ _ length])
    then show ?thesis using that by (simp add: prefix_snoc)
  qed
  let ?d = "drop (length u + 1 - length p) (u @ [c])"
  have "length ?d = length p" using True by simp
  then have "prefix p ?d \<longleftrightarrow> ?d = p" by (metis append_Nil2 append_eq_append_conv prefix_def)
  also have "\<dots> \<longleftrightarrow> suffix p (u @ [c])"
  proof
    assume "suffix p (u @ [c])"
    then obtain v where v: "u @ [c] = v @ p" by (auto simp: suffix_def)
    then have "length u + 1 - length p = length v" by (auto dest: arg_cong [of _ _ length])
    with v show "?d = p" by simp
  qed (metis suffix_drop)
  finally have 2: "prefix p ?d = suffix p (u @ [c])" .
  have 3: "filter (\<lambda>j. prefix p (drop j (u @ [c]))) [0..<length u + 1 - length p] = occurrences p u"
    unfolding occurrences_def by (rule filter_cong [OF refl]) (metis 1 atLeastLessThan_iff set_upt)
  have "[0..<length (u @ [c]) + 1 - length p] = [0..<length u + 1 - length p] @ [length u + 1 - length p]"
    using True by (simp add: Suc_diff_le)
  then have "occurrences p (u @ [c]) = occurrences p u @ filter (\<lambda>j. prefix p (drop j (u @ [c]))) [length u + 1 - length p]"
    unfolding occurrences_def [of p "u @ [c]"] 3 [symmetric] by (simp only: filter_append)
  then show ?thesis by (simp only: filter.simps 2)
next
  case False
  then have "\<not> suffix p (u @ [c])" by (auto dest: suffix_length_le)
  then show ?thesis using False by (simp add: occurrences_def)
qed

lemma occurrences_sublist: "p \<noteq> [] \<Longrightarrow> occurrences p h \<noteq> [] \<longleftrightarrow> sublist p h"
proof
  assume "occurrences p h \<noteq> []"
  then obtain j where "prefix p (drop j h)" by (auto simp: occurrences_def filter_empty_conv)
  then show "sublist p h" by (meson prefix_imp_sublist sublist_drop sublist_order.order.trans)
next
  assume "p \<noteq> []" "sublist p h"
  then obtain a b where h: "h = a @ p @ b" by (auto simp: sublist_def)
  then have "length a \<in> set (occurrences p h)" by (simp add: occurrences_def)
  then show "occurrences p h \<noteq> []" by auto
qed

section \<open>The table\<close>

text \<open>
  Entry \<open>i\<close> is the longest proper border of the first \<open>i + 1\<close> bytes of the needle.
\<close>

definition table_ok :: "string \<Rightarrow> nat list \<Rightarrow> nat \<Rightarrow> bool" where
  "table_ok p t n \<longleftrightarrow> length t = length p \<and>
     (\<forall>i<n. t ! i \<le> i \<and> suffix (take (t ! i) p) (take (Suc i) p) \<and>
        (\<forall>k\<le>i. suffix (take k p) (take (Suc i) p) \<longrightarrow> k \<le> t ! i))"

text \<open>\<open>m\<close> is the length of the longest prefix of the needle, shorter than \<open>b\<close>, that ends the text \<open>u\<close>.\<close>

definition longest_pre :: "string \<Rightarrow> nat \<Rightarrow> string \<Rightarrow> nat \<Rightarrow> bool" where
  "longest_pre p b u m \<longleftrightarrow> m < b \<and> suffix (take m p) u \<and> (\<forall>k<b. suffix (take k p) u \<longrightarrow> k \<le> m)"

lemma border_of_suffix:
  assumes "suffix (take m p) u" "k \<le> m"
  shows "suffix (take k p) u \<longleftrightarrow> suffix (take k p) (take m p)"
proof
  assume "suffix (take k p) u"
  then show "suffix (take k p) (take m p)" using assms by (auto intro: suffix_length_suffix)
qed (use assms(1) suffix_order.trans in blast)

lemma kmp_back_correct:
  assumes "table_ok p t n" "m \<le> n" "m < length p" "suffix (take m p) u"
    "\<forall>k<length p. suffix (take k p) u \<and> p ! k = c \<longrightarrow> k \<le> m"
  shows "\<exists>m'\<le>m. kmp_back t p c m = Some m' \<and> suffix (take m' p) u \<and> (m' = 0 \<or> p ! m' = c) \<and>
    (\<forall>k<length p. suffix (take k p) u \<and> p ! k = c \<longrightarrow> k \<le> m')"
  using assms(2-)
proof (induction m rule: less_induct)
  case (less m)
  show ?case
  proof (cases "m \<noteq> 0 \<and> c \<noteq> p ! m")
    case True
    let ?b = "t ! (m - 1)"
    have b: "?b \<le> m - 1" "suffix (take ?b p) (take m p)" "\<forall>k\<le>m - 1. suffix (take k p) (take m p) \<longrightarrow> k \<le> ?b"
      using assms(1) less.prems(1) True by (auto simp: table_ok_def dest: spec [of _ "m - 1"])
    have "k \<le> ?b" if "k < length p" "suffix (take k p) u" "p ! k = c" for k
    proof -
      have "k \<le> m - 1" using less.prems(4) that True by (metis Suc_pred' le_neq_implies_less less_Suc_eq_le neq0_conv)
      moreover from this have "suffix (take k p) (take m p)"
        using that(2) border_of_suffix [OF less.prems(3), of k] by simp
      ultimately show ?thesis using b(3) by blast
    qed
    moreover have "suffix (take ?b p) u" using b(2) less.prems(3) by (rule suffix_order.trans)
    moreover have "?b < m" using b(1) True by linarith
    moreover have "?b \<le> n" "?b < length p" using \<open>?b < m\<close> less.prems(1,2) by linarith+
    ultimately obtain m' where "m' \<le> ?b" "kmp_back t p c ?b = Some m'" "suffix (take m' p) u" "m' = 0 \<or> p ! m' = c"
      "\<forall>k<length p. suffix (take k p) u \<and> p ! k = c \<longrightarrow> k \<le> m'"
      using less.IH [of ?b] by blast
    then show ?thesis using True \<open>?b < m\<close> by (intro exI [of _ m']) (auto simp: kmp_back.simps [of t p c m])
  next
    case False
    then show ?thesis using less.prems by (intro exI [of _ m]) (auto simp: kmp_back.simps [of t p c m])
  qed
qed

lemma suffix_take_snoc:
  assumes "k \<le> length p"
  shows "suffix (take k p) (u @ [c]) \<longleftrightarrow> k = 0 \<or> suffix (take (k - 1) p) u \<and> p ! (k - 1) = c"
proof (cases k)
  case (Suc j)
  then show ?thesis using assms by (auto simp: take_Suc_conv_app_nth)
qed simp

lemma kmp_step_correct:
  assumes "table_ok p t n" "m \<le> n" "longest_pre p (length p) u m"
  shows "\<exists>r. kmp_step t p c m = Some r \<and> longest_pre p (length p + 1) (u @ [c]) r"
proof -
  obtain m' where m': "m' \<le> m" "kmp_back t p c m = Some m'" "suffix (take m' p) u" "m' = 0 \<or> p ! m' = c"
    "\<forall>k<length p. suffix (take k p) u \<and> p ! k = c \<longrightarrow> k \<le> m'"
    using kmp_back_correct [OF assms(1,2), of u c] assms(3) by (auto simp: longest_pre_def)
  let ?r = "if c = p ! m' then m' + 1 else m'"
  have len: "m' < length p" using m'(1) assms(3) by (simp add: longest_pre_def)
  have "k \<le> ?r" if "k < length p + 1" "suffix (take k p) (u @ [c])" for k
  proof (cases "k = 0")
    case False
    then have "suffix (take (k - 1) p) u" "p ! (k - 1) = c" "k - 1 < length p"
      using that suffix_take_snoc [of k p u c] by auto
    then have "k - 1 \<le> m'" using m'(5) by blast
    then show ?thesis using \<open>p ! (k - 1) = c\<close> m'(4) False by (cases "k - 1 = m'") auto
  qed simp
  moreover have "suffix (take ?r p) (u @ [c])"
    using len m'(3,4) suffix_take_snoc [of ?r p u c] by auto
  ultimately show ?thesis using len m'(2) by (auto simp: kmp_step_def longest_pre_def)
qed

lemma longest_pre_shrink:
  assumes "longest_pre p (length p + 1) u r" "r \<noteq> length p"
  shows "longest_pre p (length p) u r"
  using assms by (auto simp: longest_pre_def)

lemma longest_pre_full:
  assumes "table_ok p t (length p)" "longest_pre p (length p + 1) u (length p)" "p \<noteq> []"
  shows "longest_pre p (length p) u (t ! (length p - 1))"
proof -
  let ?b = "t ! (length p - 1)"
  have b: "?b \<le> length p - 1" "suffix (take ?b p) p" "\<forall>k\<le>length p - 1. suffix (take k p) p \<longrightarrow> k \<le> ?b"
    using assms(1,3) by (auto simp: table_ok_def dest: spec [of _ "length p - 1"])
  have "suffix p u" using assms(2) by (simp add: longest_pre_def)
  then have "suffix (take k p) u \<longleftrightarrow> suffix (take k p) p" if "k < length p" for k
    using border_of_suffix [of "length p" p u k] that by simp
  moreover have "?b < length p" using b(1) assms(3) by (cases p) auto
  moreover have "k \<le> length p - 1 \<longleftrightarrow> k < length p" for k using assms(3) by (cases p) auto
  ultimately show ?thesis using b by (auto simp: longest_pre_def)
qed

lemma table_loop_correct:
  assumes "table_ok p t i" "0 < i" "i \<le> length p" "longest_pre p (length p) (drop 1 (take i p)) m"
  shows "\<exists>r. table_loop alive p i m t = Some r \<and>
    (r = Halted \<and> (\<exists>j<length p. \<not> poll alive j) \<or> (\<exists>t'. r = Table t' \<and> table_ok p t' (length p)))"
  using assms
proof (induction alive p i m t rule: table_loop.induct)
  case (1 alive p i m t)
  let ?u = "drop 1 (take i p)"
  show ?case
  proof (cases "i < length p \<and> poll alive i")
    case True
    have "length (take m p) \<le> length ?u" using 1(5) by (auto simp: longest_pre_def dest: suffix_length_le)
    then have "m \<le> i" using 1(5) True by (simp add: longest_pre_def min_def split: if_splits)
    have u: "?u @ [p ! i] = drop 1 (take (i + 1) p)" using True 1(3) by (simp add: take_Suc_conv_app_nth)
    obtain r where r: "kmp_step t p (p ! i) m = Some r" "longest_pre p (length p + 1) (drop 1 (take (i + 1) p)) r"
      using kmp_step_correct [OF 1(2) \<open>m \<le> i\<close> 1(5), of "p ! i"] unfolding u by blast
    have "length (take r p) \<le> length (drop 1 (take (i + 1) p))"
      using r(2) by (auto simp: longest_pre_def dest: suffix_length_le)
    then have "r \<le> i" using r(2) True by (simp add: longest_pre_def min_def split: if_splits)
    have "suffix (take k p) (take (Suc i) p) \<longleftrightarrow> suffix (take k p) (drop 1 (take (Suc i) p))" if "k \<le> i" for k
      using that True suffix_drop [of 1 "take (Suc i) p"]
      by (auto intro: suffix_length_suffix suffix_order.trans)
    then have "table_ok p (t[i := r]) (i + 1)"
      using 1(2) r(2) True \<open>r \<le> i\<close> by (auto simp: table_ok_def longest_pre_def less_Suc_eq nth_list_update)
    moreover have "longest_pre p (length p) (drop 1 (take (i + 1) p)) r"
      using r(2) \<open>r \<le> i\<close> True by (intro longest_pre_shrink) auto
    ultimately show ?thesis
      using 1(1) [OF _ _ r(1)] True r(1) by (simp add: table_loop.simps [of alive p i m t])
  next
    case False
    then show ?thesis using 1(2,4) by (auto simp: table_loop.simps [of alive p i m t])
  qed
qed

lemma kmp_table_correct:
  assumes "p \<noteq> []"
  shows "\<exists>r. kmp_table True alive p = Some r \<and>
    (r = Halted \<and> (\<exists>j<length p. \<not> poll alive j) \<or> (\<exists>t. r = Table t \<and> table_ok p t (length p)))"
proof -
  have "table_ok p (replicate (length p) 0) 1" using assms by (auto simp: table_ok_def)
  moreover have "longest_pre p (length p) (drop 1 (take 1 p)) 0" using assms by (auto simp: longest_pre_def)
  ultimately show ?thesis
    using table_loop_correct [of p "replicate (length p) 0" 1 0 alive] assms
    by (simp add: kmp_table_def Suc_le_eq)
qed

section \<open>The scans\<close>

lemma longest_pre_suffix:
  "longest_pre p (length p + 1) u r \<Longrightarrow> r = length p \<longleftrightarrow> suffix p u"
  unfolding longest_pre_def by (metis add.commute le_antisym less_Suc_eq_le order_refl plus_1_eq_Suc take_all)

lemma contains_loop_correct:
  assumes "table_ok p t (length p)" "p \<noteq> []" "longest_pre p (length p) u m" "occurrences p u = []"
  shows "\<exists>r. contains_loop alive t p i m hs = Some r \<and>
    (r = Cancelled \<and> (\<exists>j. \<not> poll alive j) \<or> r = Done (sublist p (u @ hs)))"
  using assms(3,4)
proof (induction hs arbitrary: i m u)
  case Nil
  then show ?case using occurrences_sublist [OF assms(2), of u] by simp
next
  case (Cons c hs)
  have "m \<le> length p" using Cons.prems(1) by (simp add: longest_pre_def)
  then obtain r where r: "kmp_step t p c m = Some r" "longest_pre p (length p + 1) (u @ [c]) r"
    using kmp_step_correct [OF assms(1) _ Cons.prems(1)] by blast
  show ?case
  proof (cases "r = length p")
    case True
    then have "sublist p (u @ [c])" using longest_pre_suffix [OF r(2)] by (simp add: suffix_imp_sublist)
    then have "sublist p (u @ c # hs)" by (metis append.assoc append_Cons append_Nil sublist_appendI sublist_order.order.trans)
    then show ?thesis using True r(1) by auto
  next
    case False
    then have "occurrences p (u @ [c]) = []"
      using longest_pre_suffix [OF r(2)] Cons.prems(2) by (simp only: occurrences_snoc [OF assms(2)] if_False append_Nil)
    from Cons.IH [OF longest_pre_shrink [OF r(2) False] this, of "i + 1"] show ?thesis using False r(1) by auto
  qed
qed

abbreviation last_or_0 :: "nat list \<Rightarrow> nat" where
  "last_or_0 xs \<equiv> (if xs = [] then 0 else last xs)"

lemma matches_loop_correct:
  assumes "table_ok p t (length p)" "p \<noteq> []" "longest_pre p (length p) u m"
  shows "\<exists>r. matches_loop alive t p (length u) m (length (occurrences p u)) (last_or_0 (occurrences p u)) hs = Some r \<and>
    (r = Cancelled \<and> (\<exists>j. \<not> poll alive j) \<or>
     r = Done (length (occurrences p (u @ hs)), last_or_0 (occurrences p (u @ hs))))"
  using assms(3)
proof (induction hs arbitrary: m u)
  case (Cons c hs)
  have "m \<le> length p" using Cons.prems by (simp add: longest_pre_def)
  then obtain r where r: "kmp_step t p c m = Some r" "longest_pre p (length p + 1) (u @ [c]) r"
    using kmp_step_correct [OF assms(1) _ Cons.prems] by blast
  note ends = longest_pre_suffix [OF r(2)] and occ = occurrences_snoc [OF assms(2), of u c]
  let ?m = "if r = length p then t ! (r - 1) else r"
  have "longest_pre p (length p) (u @ [c]) ?m"
    using longest_pre_full [OF assms(1) _ assms(2)] longest_pre_shrink [OF r(2)] r(2) by auto
  from Cons.IH [OF this] show ?case using r(1) ends occ by (auto split: if_splits)
qed simp

text \<open>
  C7: the matcher is exact.  For a non-empty needle and a caller that stays alive the table is built in every
  case, the search for a line answers whether the needle occurs in it, and the count is the number of
  positions at which the needle occurs, overlaps included, with the last of them.
\<close>

theorem kmp_exact:
  assumes "p \<noteq> []" "\<forall>i. alive i"
  shows "\<exists>t. kmp_table True alive p = Some (Table t) \<and>
    kmp_contains alive t p h = Some (Done (sublist p h)) \<and>
    kmp_matches alive t p h =
      Some (Done (length (occurrences p h), if occurrences p h = [] then 0 else last (occurrences p h)))"
proof -
  have live: "poll alive j" for j using assms(2) by (simp add: poll_def)
  obtain t where t: "kmp_table True alive p = Some (Table t)" "table_ok p t (length p)"
    using kmp_table_correct [OF assms(1), of alive] live by blast
  have "longest_pre p (length p) [] 0" "occurrences p [] = []" using assms(1) by (auto simp: longest_pre_def occurrences_def)
  then show ?thesis
    using contains_loop_correct [OF t(2) assms(1), of "[]" 0 alive 0 h] matches_loop_correct [OF t(2) assms(1), of "[]" 0 alive h]
      t live by (auto simp: kmp_contains_def kmp_matches_def)
qed

theorem kmp_exact_witness:
  "\<exists>t. kmp_table True (\<lambda>_. True) ''aba'' = Some (Table t) \<and>
    kmp_contains (\<lambda>_. True) t ''aba'' ''xababa'' = Some (Done True) \<and>
    kmp_matches (\<lambda>_. True) t ''aba'' ''xababa'' = Some (Done (2, 3))"
proof -
  have "sublist ''aba'' ''xababa''" "occurrences ''aba'' ''xababa'' = [1, 3]" by code_simp+
  then show ?thesis using kmp_exact [of "''aba''" "\<lambda>_. True" "''xababa''"] by (simp add: numeral_2_eq_2)
qed

end
