(* ===== verification/Agent_Edit.thy ===== *)
theory Agent_Edit
  imports Agent_Match Agent_Selections Agent_Sha256
begin

text \<open>
  The file tools of the agent on the bytes of one file, \<^verbatim>\<open>experiments/ds4-agent/q27_agent_tools.c\<close>: the
  check of a request, read and search with the selections they report, the place an edit applies to and
  the bytes it writes.  What \<^verbatim>\<open>open_regular\<close> and \<^verbatim>\<open>read_all\<close> deliver are arguments, as are the answers
  of the liveness callback, the sink and the allocations.  An outer \<open>None\<close> is a loop that never ends; the
  lemmas show that there is none.  How the result of an edit is published is the subject of
  \<open>Agent_Publish\<close>.
\<close>

section \<open>Requests and results\<close>

definition OUTPUT_MAX_BYTES :: nat where "OUTPUT_MAX_BYTES = 256 * 1024"

definition LF :: char where "LF = CHR 0x0A"
definition CR :: char where "CR = CHR 0x0D"

definition file_digest :: "string \<Rightarrow> string" where
  "file_digest data = map (\<lambda>w. char_of (unat w)) (sha256 (map (\<lambda>c. word_of_nat (of_char c)) data))"

definition in_text :: "tool_request \<Rightarrow> string" where
  "in_text rq = (case rq_input rq of None \<Rightarrow> [] | Some s \<Rightarrow> s)"

definition repl_text :: "tool_request \<Rightarrow> string" where
  "repl_text rq = (case rq_replacement rq of None \<Rightarrow> [] | Some s \<Rightarrow> s)"

text \<open>The error text, or \<open>None\<close> when the request is valid.\<close>

definition request_valid :: "tool_request \<Rightarrow> string option" where
  "request_valid rq =
     (if rq_kind rq = NO_TOOL \<or> rq_max_output rq = 0 \<or> rq_max_output rq > OUTPUT_MAX_BYTES \<or>
         length (in_text rq) > FILE_MAX_BYTES \<or> length (repl_text rq) > FILE_MAX_BYTES
      then Some ''invalid tool request/output bound''
      else if rq_selection rq \<noteq> None \<and> rq_kind rq \<noteq> EDIT \<and> rq_kind rq \<noteq> EDIT_PREFLIGHT
      then Some ''selection authority is valid only for edit''
      else if rq_kind rq = SHELL then
        (if in_text rq = [] \<or> rq_timeout_ms rq = 0 \<or> rq_timeout_ms rq > 60000 \<or> CHR 0x00 \<in> set (in_text rq)
         then Some ''invalid shell command or timeout'' else None)
      else if rq_path rq = [] \<or> rq_path rq ! 0 = CHR ''/'' then Some ''tool path must be non-empty and relative''
      else if rq_kind rq = SEARCH \<and> in_text rq = [] then Some ''search needle must not be empty''
      else if (rq_kind rq = WRITE \<or> rq_kind rq = OVERWRITE) \<and> repl_text rq \<noteq> [] then Some ''invalid write content''
      else if (rq_kind rq = WRITE_PREFLIGHT \<or> rq_kind rq = OVERWRITE_PREFLIGHT) \<and>
              (rq_input rq \<noteq> None \<or> rq_replacement rq \<noteq> None)
      then Some ''write preflight accepts only a path''
      else if (rq_kind rq = EDIT \<or> rq_kind rq = EDIT_PREFLIGHT) \<and>
              (in_text rq = [] \<or> (case rq_selection rq of None \<Rightarrow> False | Some (off, len, sha) \<Rightarrow> len \<noteq> length (in_text rq)))
      then Some (if rq_selection rq \<noteq> None then ''invalid edit selection authority'' else ''edit old bytes must not be empty'')
      else if rq_kind rq = EDIT_PREFLIGHT \<and> rq_replacement rq \<noteq> None then Some ''edit preflight accepts no replacement''
      else None)"

definition edit_normalize :: "tool_request \<Rightarrow> tool_request" where
  "edit_normalize rq =
     (if rq_kind rq \<noteq> EDIT \<or> repl_text rq = [] \<or> in_text rq = [] \<or> last (in_text rq) = LF \<or> last (repl_text rq) \<noteq> LF
      then rq
      else let n = length (repl_text rq);
               strip = (if n \<ge> 2 \<and> repl_text rq ! (n - 2) = CR then 2 else 1)
           in rq\<lparr>rq_replacement := Some (take (n - strip) (repl_text rq))\<rparr>)"

definition result_init :: tool_result where
  "result_init = \<lparr>exit_code = -1, tr_flags = 0, output_bytes = 0, file_sha256 = None, file_size = 0, selections = [],
     tr_message = []\<rparr>"

definition result_error :: "string \<Rightarrow> tool_result \<Rightarrow> tool_result" where
  "result_error msg res = res\<lparr>exit_code := -1, tr_message := take 255 msg\<rparr>"

datatype tool_status = TOOL_OK | TOOL_CANCELLED

section \<open>Read\<close>

definition n_lines :: "string \<Rightarrow> nat" where
  "n_lines data = length (filter (\<lambda>c. c = LF) data) + (if last data \<noteq> LF then 1 else 0)"

text \<open>The bytes up to and including the \<open>want\<close>-th line feed: how many they are and how many were seen.\<close>

fun scan_lines :: "nat \<Rightarrow> nat \<Rightarrow> nat \<Rightarrow> string \<Rightarrow> nat \<times> nat" where
  "scan_lines want seen n [] = (n, seen)"
| "scan_lines want seen n (c # cs) =
     (if seen < want then scan_lines want (if c = LF then seen + 1 else seen) (n + 1) cs else (n, seen))"

text \<open>The end of the selected bytes: the terminator of the last line stays outside.\<close>

definition selected_end :: "string \<Rightarrow> nat \<Rightarrow> nat \<Rightarrow> nat" where
  "selected_end data start e =
     (let stripped_lf = (e > start \<and> data ! (e - 1) = LF);
          e1 = (if stripped_lf then e - 1 else e)
      in if stripped_lf \<and> e1 > start \<and> data ! (e1 - 1) = CR then e1 - 1 else e1)"

partial_function (option) describe_loop ::
    "string \<Rightarrow> nat \<Rightarrow> nat \<Rightarrow> nat \<Rightarrow> nat \<Rightarrow> nat \<Rightarrow> tool_selection list \<Rightarrow> tool_selection list option" where
  "describe_loop data lines groups per start first sels =
     (if start < length data \<and> first \<le> lines \<and> length sels < groups then
        let take_lines = (if lines - first + 1 > per then per else lines - first + 1);
            lst = first + take_lines - 1;
            ns = scan_lines take_lines 0 0 (drop start data);
            e = (if snd ns < take_lines then length data else start + fst ns);
            se = selected_end data start e
        in describe_loop data lines groups per e (lst + 1)
             (if se > start
              then sels @ [\<lparr>file_offset = start, slen = se - start, output_offset = start, output_length = se - start,
                     first_line = first, last_line = lst\<rparr>]
              else sels)
      else Some sels)"

declare describe_loop.simps [code]

definition describe_read_selections :: "string \<Rightarrow> tool_selection list option" where
  "describe_read_selections data =
     (if data = [] then Some []
      else let lines = n_lines data
           in if lines = 0 then Some []
              else let groups = (if lines < MAX_SELECTIONS then lines else MAX_SELECTIONS)
                   in describe_loop data lines groups ((lines + groups - 1) div groups) 0 1 [])"

text \<open>
  \<open>opn\<close> is what \<^verbatim>\<open>open_regular\<close> gives, an error text or the file; \<open>rderr\<close> is the error text of
  \<^verbatim>\<open>read_all\<close>.  The third component is what the sink received.
\<close>

definition run_read ::
    "string + string \<Rightarrow> string option \<Rightarrow> bool \<Rightarrow> bool \<Rightarrow> tool_request \<Rightarrow> (tool_status \<times> tool_result \<times> string) option" where
  "run_read opn rderr alive sink rq =
     (case opn of
        Inl msg \<Rightarrow> Some (TOOL_OK, result_error msg result_init, [])
      | Inr data \<Rightarrow>
          if length data > rq_max_output rq
          then Some (TOOL_OK, result_error ''read output exceeds configured bound'' result_init, [])
          else case rderr of
                 Some msg \<Rightarrow> Some (TOOL_OK, result_error msg result_init, [])
               | None \<Rightarrow>
                   if \<not> alive then Some (TOOL_CANCELLED, result_init, [])
                   else case describe_read_selections data of
                          None \<Rightarrow> None
                        | Some sels \<Rightarrow>
                            let res = result_init\<lparr>file_sha256 := Some (file_digest data), file_size := length data, selections := sels\<rparr>
                            in if data \<noteq> [] \<and> \<not> sink then Some (TOOL_CANCELLED, res, [])
                               else Some (TOOL_OK, res\<lparr>output_bytes := length data, exit_code := 0\<rparr>, data))"

section \<open>Search\<close>

datatype search_end = Search_Stop "tool_selection list" | Search_Bound "tool_selection list" | Search_Out string "tool_selection list"

text \<open>
  \<open>alive n\<close> is the answer before line \<open>n\<close> and \<open>kalive n\<close> those while the line is searched.
\<close>

function search_loop ::
    "(nat \<Rightarrow> bool) \<Rightarrow> (nat \<Rightarrow> nat \<Rightarrow> bool) \<Rightarrow> nat list \<Rightarrow> string \<Rightarrow> nat \<Rightarrow> string \<Rightarrow> nat \<Rightarrow> nat \<Rightarrow> string \<Rightarrow> tool_selection list \<Rightarrow>
     search_end option" where
  "search_loop alive kalive table needle cap data start number outp sels =
     (if start < length data then
        if \<not> alive number then Some (Search_Stop sels)
        else
          let rest = drop start data; line = takeWhile (\<lambda>c. c \<noteq> LF) rest; line_end = start + length line
          in case kmp_contains (kalive number) table needle line of
               None \<Rightarrow> None
             | Some Cancelled \<Rightarrow> Some (Search_Stop sels)
             | Some (Done hit) \<Rightarrow>
                 let pre = to_string number @ '':'';
                     newline = (if line_end < length data then 1 else 0);
                     sl = (if newline \<noteq> 0 \<and> line \<noteq> [] \<and> last line = CR then length line - 1 else length line);
                     outp' = outp @ pre @ take (length line + newline) rest;
                     sels' = (if sl \<noteq> 0 \<and> length sels < MAX_SELECTIONS
                              then sels @ [\<lparr>file_offset = start, slen = sl, output_offset = length outp + length pre,
                                     output_length = sl, first_line = number, last_line = number\<rparr>]
                              else sels)
                 in if hit \<and> (length pre > cap - length outp \<or> length line > cap - length outp - length pre \<or>
                              newline > cap - length outp - length pre - length line)
                    then Some (Search_Bound sels)
                    else if line_end = length data
                    then Some (if hit then Search_Out outp' sels' else Search_Out outp sels)
                    else search_loop alive kalive table needle cap data (line_end + 1) (number + 1)
                           (if hit then outp' else outp) (if hit then sels' else sels)
      else Some (Search_Out outp sels))"
  by pat_completeness auto
termination search_loop
  by (relation "measure (\<lambda>(alive, kalive, table, needle, cap, data, start, number, outp, sels). length data - start)") auto

declare search_loop.simps [simp del]

record search_world =
  w_alive :: bool
  w_table_alloc :: bool
  w_table_alive :: "nat \<Rightarrow> bool"
  w_out_alloc :: bool
  w_line_alive :: "nat \<Rightarrow> bool"
  w_scan_alive :: "nat \<Rightarrow> nat \<Rightarrow> bool"
  w_sink :: bool

definition run_search ::
    "string + string \<Rightarrow> string option \<Rightarrow> search_world \<Rightarrow> tool_request \<Rightarrow> (tool_status \<times> tool_result \<times> string) option" where
  "run_search opn rderr w rq =
     (case opn of
        Inl msg \<Rightarrow> Some (TOOL_OK, result_error msg result_init, [])
      | Inr data \<Rightarrow>
          case rderr of
            Some msg \<Rightarrow> Some (TOOL_OK, result_error msg result_init, [])
          | None \<Rightarrow>
              if \<not> w_alive w then Some (TOOL_CANCELLED, result_init, [])
              else
                let res = result_init\<lparr>file_sha256 := Some (file_digest data), file_size := length data\<rparr>
                in case kmp_table (w_table_alloc w) (w_table_alive w) (in_text rq) of
                     None \<Rightarrow> None
                   | Some Halted \<Rightarrow> Some (TOOL_CANCELLED, res, [])
                   | Some No_Memory \<Rightarrow> Some (TOOL_OK, result_error ''out of memory building search matcher'' res, [])
                   | Some (Table table) \<Rightarrow>
                       if \<not> w_out_alloc w then Some (TOOL_OK, result_error ''out of memory'' res, [])
                       else case search_loop (w_line_alive w) (w_scan_alive w) table (in_text rq) (rq_max_output rq) data 0 1 [] [] of
                              None \<Rightarrow> None
                            | Some (Search_Stop sels) \<Rightarrow> Some (TOOL_CANCELLED, res\<lparr>selections := sels\<rparr>, [])
                            | Some (Search_Bound sels) \<Rightarrow>
                                Some (TOOL_OK, result_error ''search output exceeds configured bound'' (res\<lparr>selections := sels\<rparr>), [])
                            | Some (Search_Out outp sels) \<Rightarrow>
                                if outp \<noteq> [] \<and> \<not> w_sink w then Some (TOOL_CANCELLED, res\<lparr>selections := sels\<rparr>, [])
                                else Some (TOOL_OK, res\<lparr>selections := sels, output_bytes := length outp, exit_code := 0\<rparr>, outp))"

section \<open>Edit\<close>

datatype located = Stopped | Refused string | At nat

record match_world =
  m_alive :: bool
  m_table_alloc :: bool
  m_table_alive :: "nat \<Rightarrow> bool"
  m_scan_alive :: "nat \<Rightarrow> bool"

definition locate_edit_target :: "match_world \<Rightarrow> string \<Rightarrow> tool_request \<Rightarrow> located option" where
  "locate_edit_target w data rq =
     (if \<not> m_alive w then Some Stopped
      else case rq_selection rq of
             Some (off, len, sha) \<Rightarrow>
               if file_digest data \<noteq> sha \<or> off > length data \<or> len > length data - off \<or> len \<noteq> length (in_text rq) \<or>
                  take (length (in_text rq)) (drop off data) \<noteq> in_text rq
               then Some (Refused ''edit selection is stale; read or search the file again'')
               else Some (At off)
           | None \<Rightarrow>
               case kmp_table (m_table_alloc w) (m_table_alive w) (in_text rq) of
                 None \<Rightarrow> None
               | Some Halted \<Rightarrow> Some Stopped
               | Some No_Memory \<Rightarrow> Some (Refused ''out of memory building edit matcher'')
               | Some (Table table) \<Rightarrow>
                   (case kmp_matches (m_scan_alive w) table (in_text rq) data of
                      None \<Rightarrow> None
                    | Some Cancelled \<Rightarrow> Some Stopped
                    | Some (Done (n, lst)) \<Rightarrow>
                        if n \<noteq> 1 then Some (Refused (if n \<noteq> 0 then ''edit old bytes are not unique''
                                                 else ''edit old bytes were not found''))
                        else Some (At lst)))"

text \<open>The new contents, or the error text.\<close>

definition edited :: "bool \<Rightarrow> string \<Rightarrow> tool_request \<Rightarrow> nat \<Rightarrow> string + string" where
  "edited alloc data rq match_at =
     (if length data - length (in_text rq) + length (repl_text rq) > FILE_MAX_BYTES then Inl ''edited file exceeds bound''
      else if \<not> alloc then Inl ''out of memory''
      else Inr (take match_at data @ repl_text rq @ drop (match_at + length (in_text rq)) data))"

definition run_edit_preflight :: "string + string \<Rightarrow> string option \<Rightarrow> match_world \<Rightarrow> tool_request \<Rightarrow> (tool_status \<times> tool_result) option" where
  "run_edit_preflight opn rderr w rq =
     (case opn of
        Inl msg \<Rightarrow> Some (TOOL_OK, result_error msg result_init)
      | Inr data \<Rightarrow>
          case rderr of
            Some msg \<Rightarrow> Some (TOOL_OK, result_error msg result_init)
          | None \<Rightarrow>
              (case locate_edit_target w data rq of
                 None \<Rightarrow> None
               | Some Stopped \<Rightarrow> Some (TOOL_CANCELLED, result_init)
               | Some (Refused msg) \<Rightarrow> Some (TOOL_OK, result_error msg result_init)
               | Some (At j) \<Rightarrow>
                   Some (TOOL_OK, result_init\<lparr>exit_code := 0, tr_message := ''edit target is ready for a raw replacement''\<rparr>)))"

section \<open>The selections are slices of the file\<close>

definition sel_good :: "string \<Rightarrow> string \<Rightarrow> tool_selection \<Rightarrow> bool" where
  "sel_good data raw s \<longleftrightarrow>
     0 < slen s \<and> 0 < first_line s \<and> first_line s \<le> last_line s \<and> file_offset s + slen s \<le> length data \<and>
     output_length s = slen s \<and> output_offset s + slen s \<le> length raw \<and>
     substr raw (output_offset s) (slen s) = substr data (file_offset s) (slen s)"

lemma scan_lines_bounds:
  "scan_lines want seen n cs = (n', seen') \<Longrightarrow>
     n \<le> n' \<and> n' \<le> n + length cs \<and> (seen < want \<and> cs \<noteq> [] \<longrightarrow> n < n')"
proof (induction want seen n cs rule: scan_lines.induct)
  case (2 want seen n c cs)
  then show ?case by (auto split: if_splits)
qed auto

lemma selected_end_le: "selected_end data start e \<le> e"
  by (simp add: selected_end_def Let_def)

lemma describe_loop_good:
  assumes "0 < per" "0 < first" "start \<le> length data" "length sels \<le> groups" "\<forall>s\<in>set sels. sel_good data data s"
  shows "\<exists>ss. describe_loop data lines groups per start first sels = Some ss \<and> length ss \<le> groups \<and>
    (\<forall>s\<in>set ss. sel_good data data s)"
  using assms(2-)
proof (induction "lines + 1 - first" arbitrary: first start sels rule: less_induct)
  case less
  show ?case
  proof (cases "start < length data \<and> first \<le> lines \<and> length sels < groups")
    case True
    define tk where "tk = (if lines - first + 1 > per then per else lines - first + 1)"
    obtain n seen where ns: "scan_lines tk 0 0 (drop start data) = (n, seen)" by fastforce
    define e where "e = (if seen < tk then length data else start + n)"
    have tk: "0 < tk" using assms(1) by (simp add: tk_def)
    have e: "e \<le> length data" using scan_lines_bounds [OF ns] True by (auto simp: e_def)
    let ?se = "selected_end data start e"
    let ?new = "if ?se > start then sels @ [\<lparr>file_offset = start, slen = ?se - start, output_offset = start,
      output_length = ?se - start, first_line = first, last_line = first + tk - 1\<rparr>] else sels"
    have good: "\<forall>s\<in>set ?new. sel_good data data s" "length ?new \<le> groups"
      using less.prems(4) True tk e less.prems(1) selected_end_le [of data start e] by (auto simp: sel_good_def)
    have next_line: "lines + 1 - (first + tk - 1 + 1) < lines + 1 - first" "0 < first + tk - 1 + 1"
      using tk True by linarith+
    have "\<exists>ss. describe_loop data lines groups per e (first + tk - 1 + 1) ?new = Some ss \<and> length ss \<le> groups \<and>
        (\<forall>s\<in>set ss. sel_good data data s)"
      by (rule less.hyps [OF next_line e good(2,1)])
    moreover have "describe_loop data lines groups per start first sels =
        describe_loop data lines groups per e (first + tk - 1 + 1) ?new"
      using True by (subst describe_loop.simps) (simp only: Let_def tk_def [symmetric] ns fst_conv snd_conv e_def [symmetric] simp_thms if_True)
    ultimately show ?thesis by simp
  next
    case False
    then have "describe_loop data lines groups per start first sels = Some sels"
      by (subst describe_loop.simps) (simp only: if_False)
    then show ?thesis using less.prems by simp
  qed
qed

lemma describe_good:
  "\<exists>ss. describe_read_selections data = Some ss \<and> length ss \<le> MAX_SELECTIONS \<and> (\<forall>s\<in>set ss. sel_good data data s)"
proof (cases "data = [] \<or> n_lines data = 0")
  case False
  let ?n = "n_lines data"
  let ?g = "if ?n < MAX_SELECTIONS then ?n else MAX_SELECTIONS"
  have "0 < ?g" using False by (simp add: MAX_SELECTIONS_def)
  then have "0 < (?n + ?g - 1) div ?g" using False by (auto simp: div_greater_zero_iff)
  from describe_loop_good [OF this, of 1 0 data "[]" ?g ?n] show ?thesis
    using False by (auto simp: describe_read_selections_def Let_def)
qed (auto simp: describe_read_selections_def Let_def)

lemma sel_good_more: "sel_good data raw s \<Longrightarrow> sel_good data (raw @ more') s"
  by (auto simp: sel_good_def substr_def)

lemma sel_good_hit:
  assumes "start < length data" "0 < sl" "sl \<le> m" "m \<le> length data - start" "0 < number"
  shows "sel_good data (outp @ pre @ take m (drop start data))
    \<lparr>file_offset = start, slen = sl, output_offset = length outp + length pre, output_length = sl,
     first_line = number, last_line = number\<rparr>"
  using assms by (auto simp: sel_good_def substr_def min_def)

lemma search_loop_good:
  assumes "table_ok needle table (length needle)" "needle \<noteq> []"
    "search_loop alive kalive table needle cap data start number outp sels = Some (Search_Out raw ss)"
    "0 < number" "length sels \<le> MAX_SELECTIONS" "\<forall>s\<in>set sels. sel_good data outp s"
  shows "length ss \<le> MAX_SELECTIONS \<and> (\<forall>s\<in>set ss. sel_good data raw s)"
  using assms(3-)
proof (induction "length data - start" arbitrary: start number outp sels rule: less_induct)
  case less
  show ?case
  proof (cases "start < length data")
    case True
    define line where "line = takeWhile (\<lambda>c. c \<noteq> LF) (drop start data)"
    define newline where "newline = (if start + length line < length data then 1 else 0 :: nat)"
    define sl where "sl = (if newline \<noteq> 0 \<and> line \<noteq> [] \<and> last line = CR then length line - 1 else length line)"
    define outp' where "outp' = outp @ (to_string number @ '':'') @ take (length line + newline) (drop start data)"
    define sels' where "sels' = (if sl \<noteq> 0 \<and> length sels < MAX_SELECTIONS
      then sels @ [\<lparr>file_offset = start, slen = sl, output_offset = length outp + length (to_string number @ '':''),
        output_length = sl, first_line = number, last_line = number\<rparr>] else sels)"
    note defs = line_def newline_def sl_def outp'_def sels'_def
    have len: "length line \<le> length data - start"
      unfolding line_def by (metis length_drop length_takeWhile_le)
    have sl: "sl \<le> length line + newline" "length line + newline \<le> length data - start"
      using len True by (auto simp: sl_def newline_def)
    have good': "length sels' \<le> MAX_SELECTIONS" "\<forall>s\<in>set sels'. sel_good data outp' s"
      using less.prems(2-) sel_good_more sel_good_hit [OF True _ sl, of number outp "to_string number @ '':''"] by (auto simp: sels'_def outp'_def)
    obtain hit where hit: "kmp_contains (kalive number) table needle line = Some (Done hit)"
      and r: "(if start + length line = length data then Some (if hit then Search_Out outp' sels' else Search_Out outp sels)
         else search_loop alive kalive table needle cap data (start + length line + 1) (number + 1)
                (if hit then outp' else outp) (if hit then sels' else sels)) = Some (Search_Out raw ss)"
      using less.prems(1) True unfolding search_loop.simps [of alive kalive table needle cap data start] Let_def
        defs [symmetric] by (auto split: if_splits option.splits polled.splits)
    have "length (if hit then sels' else sels) \<le> MAX_SELECTIONS"
      "\<forall>s\<in>set (if hit then sels' else sels). sel_good data (if hit then outp' else outp) s"
      using good' less.prems(3,4) by auto
    then show ?thesis
      using r good' less.prems(3,4) less.hyps [of "start + length line + 1" "number + 1" "if hit then outp' else outp"] True
      by (auto split: if_splits)
  next
    case False
    then show ?thesis using less.prems by (simp add: search_loop.simps [of alive kalive table needle cap data start])
  qed
qed

text \<open>A run that succeeds, of either tool, reports the file and good slices of it.\<close>

definition ran :: "string \<Rightarrow> string option \<Rightarrow> bool \<Rightarrow> bool \<Rightarrow> search_world \<Rightarrow> tool_request \<Rightarrow> tool_result \<Rightarrow> string \<Rightarrow> bool" where
  "ran data rderr alive sink w rd res raw \<longleftrightarrow>
     rq_kind rd = READ \<and> run_read (Inr data) rderr alive sink rd = Some (TOOL_OK, res, raw) \<or>
     rq_kind rd = SEARCH \<and> run_search (Inr data) rderr w rd = Some (TOOL_OK, res, raw)"

lemma ran_good:
  assumes "ran data rderr alive sink w rd res raw" "request_valid rd = None" "exit_code res = 0"
  shows "file_sha256 res = Some (file_digest data) \<and> file_size res = length data \<and>
    length (selections res) \<le> MAX_SELECTIONS \<and> (\<forall>s\<in>set (selections res). sel_good data raw s)"
proof (cases "rq_kind rd = READ")
  case True
  obtain ss where ss: "describe_read_selections data = Some ss" "length ss \<le> MAX_SELECTIONS" "\<forall>s\<in>set ss. sel_good data data s"
    using describe_good by blast
  have "run_read (Inr data) rderr alive sink rd = Some (TOOL_OK, res, raw)" using assms(1) True by (simp add: ran_def)
  then show ?thesis using ss assms(3)
    by (auto simp: run_read_def result_error_def result_init_def Let_def split: if_splits option.splits)
next
  case False
  then have k: "rq_kind rd = SEARCH" and run: "run_search (Inr data) rderr w rd = Some (TOOL_OK, res, raw)"
    using assms(1) by (auto simp: ran_def)
  have ne: "in_text rd \<noteq> []" using assms(2) k by (auto simp: request_valid_def split: if_splits)
  obtain table ss where tb: "kmp_table (w_table_alloc w) (w_table_alive w) (in_text rd) = Some (Table table)"
    and s: "search_loop (w_line_alive w) (w_scan_alive w) table (in_text rd) (rq_max_output rd) data 0 1 [] [] =
      Some (Search_Out raw ss)"
    and res: "selections res = ss" "file_sha256 res = Some (file_digest data)" "file_size res = length data"
    using run assms(3) by (auto simp: run_search_def result_error_def result_init_def Let_def
        split: if_splits option.splits kmp_tab.splits search_end.splits)
  have "w_table_alloc w" using tb by (auto simp: kmp_table_def split: if_splits)
  then have "table_ok (in_text rd) table (length (in_text rd))"
    using kmp_table_correct [OF ne, of "w_table_alive w"] tb by auto
  from search_loop_good [OF this ne s] show ?thesis using res by simp
qed

text \<open>Locating a target without a handle, whatever the callbacks answer.\<close>

lemma locate_cases:
  assumes "rq_selection rq = None" "in_text rq \<noteq> []"
  shows "\<exists>r. locate_edit_target w data rq = Some r \<and>
    (\<forall>j. r = At j \<longrightarrow> occurrences (in_text rq) data = [j]) \<and>
    (m_alive w \<and> m_table_alloc w \<and> (\<forall>i. m_table_alive w i \<and> m_scan_alive w i) \<longrightarrow>
       r = (case occurrences (in_text rq) data of
              [] \<Rightarrow> Refused ''edit old bytes were not found''
            | [j] \<Rightarrow> At j
            | _ \<Rightarrow> Refused ''edit old bytes are not unique''))"
proof (cases "m_alive w \<and> m_table_alloc w")
  case True
  let ?p = "in_text rq" and ?occ = "occurrences (in_text rq) data"
  obtain r where r: "kmp_table True (m_table_alive w) ?p = Some r"
    "r = Halted \<and> (\<exists>j<length ?p. \<not> poll (m_table_alive w) j) \<or> (\<exists>t. r = Table t \<and> table_ok ?p t (length ?p))"
    using kmp_table_correct [OF assms(2)] by blast
  show ?thesis
  proof (cases r)
    case (Table t)
    have "longest_pre ?p (length ?p) [] 0" "occurrences ?p [] = []"
      using assms(2) by (auto simp: longest_pre_def occurrences_def)
    then obtain q where q: "kmp_matches (m_scan_alive w) t ?p data = Some q"
      "q = Cancelled \<and> (\<exists>j. \<not> poll (m_scan_alive w) j) \<or> q = Done (length ?occ, last_or_0 ?occ)"
      using matches_loop_correct [of ?p t "[]" 0 "m_scan_alive w" data] r(2) Table assms(2) by (auto simp: kmp_matches_def)
    then show ?thesis using True r(1) Table assms(1)
      by (auto simp: locate_edit_target_def poll_def length_Suc_conv split: list.splits)
  qed (use True r assms(1) in \<open>auto simp: locate_edit_target_def poll_def\<close>)
qed (use assms(1) in \<open>auto simp: locate_edit_target_def kmp_table_def\<close>)

lemma locate_total:
  assumes "in_text rq \<noteq> []"
  shows "\<exists>r. locate_edit_target w data rq = Some r"
proof (cases "rq_selection rq")
  case None
  from locate_cases [OF this assms] show ?thesis by blast
qed (auto simp: locate_edit_target_def)


definition calm_match :: match_world where
  "calm_match = \<lparr>m_alive = True, m_table_alloc = True, m_table_alive = (\<lambda>_. True), m_scan_alive = (\<lambda>_. True)\<rparr>"


text \<open>
  C5: a handle edits what was read.  A read or a search succeeds and is annotated; then each handle it lists gives,
  for the same path, a request that is located at the selection on the same contents, whose edit replaces
  exactly the selected bytes, and that is refused as stale on any contents with another digest.
\<close>

theorem selection_edit_exact:
  assumes "ledger_reach l" "request_valid rd = None" "ran data rderr alive sink w rd res raw"
    "annotate ok grow l rd res raw cap = (True, Some a, l')" "empty_edit rq" "i < length (selections res)" "m_alive v"
  shows "\<exists>rq'. resolve True l' (handle (nonce l) (next_id l + i + 1)) (rq_path rd) rq = Inr rq' \<and>
    (let s = selections res ! i
     in locate_edit_target v data rq' = Some (At (file_offset s)) \<and>
        edited True data rq' (file_offset s) =
          (if length data - slen s + length (repl_text rq) > FILE_MAX_BYTES then Inl ''edited file exceeds bound''
           else Inr (take (file_offset s) data @ repl_text rq @ drop (file_offset s + slen s) data))) \<and>
    (\<forall>data'. file_digest data' \<noteq> file_digest data \<longrightarrow>
       locate_edit_target v data' rq' = Some (Refused ''edit selection is stale; read or search the file again''))"
proof -
  let ?s = "selections res ! i" and ?h = "handle (nonce l) (next_id l + i + 1)"
  have "exit_code res = 0" using assms(4) by (auto simp: annotate_def split: option.splits if_splits)
  note good = ran_good [OF assms(3,2) this]
  let ?rq = "filled rq (rq_path rd, file_digest data, file_offset ?s, substr raw (output_offset ?s) (output_length ?s))"
  have res: "resolve True l' ?h (rq_path rd) rq = Inr ?rq"
    using annotate_resolves [OF assms(1,4,5)] good assms(6) by (simp add: Let_def)
  have s: "sel_good data raw ?s" using good assms(6) by simp
  then have bs: "substr raw (output_offset ?s) (output_length ?s) = take (slen ?s) (drop (file_offset ?s) data)"
    "length (take (slen ?s) (drop (file_offset ?s) data)) = slen ?s"
    by (auto simp: sel_good_def substr_def)
  have f: "in_text ?rq = take (slen ?s) (drop (file_offset ?s) data)" "repl_text ?rq = repl_text rq"
    "rq_selection ?rq = Some (file_offset ?s, slen ?s, file_digest data)"
    using bs by (simp_all add: filled_def in_text_def repl_text_def)
  have "file_offset ?s \<le> length data" "slen ?s \<le> length data - file_offset ?s" using s unfolding sel_good_def by linarith+
  then have "locate_edit_target v data ?rq = Some (At (file_offset ?s))"
    unfolding locate_edit_target_def f bs(2) using assms(7) by simp
  moreover have "edited True data ?rq (file_offset ?s) =
      (if length data - slen ?s + length (repl_text rq) > FILE_MAX_BYTES then Inl ''edited file exceeds bound''
       else Inr (take (file_offset ?s) data @ repl_text rq @ drop (file_offset ?s + slen ?s) data))"
    unfolding edited_def f bs(2) by simp
  moreover have "locate_edit_target v data' ?rq = Some (Refused ''edit selection is stale; read or search the file again'')"
    if "file_digest data' \<noteq> file_digest data" for data'
    unfolding locate_edit_target_def f using that assms(7) by simp
  ultimately show ?thesis using res by (auto simp: Let_def)
qed

definition hello_out :: tool_result where
  "hello_out = \<lparr>exit_code = 0, tr_flags = 0, output_bytes = 6, file_sha256 = Some (file_digest ''hello;''), file_size = 6,
     selections = [\<lparr>file_offset = 0, slen = 6, output_offset = 0, output_length = 6, first_line = 1, last_line = 1\<rparr>],
     tr_message = []\<rparr>"

definition calm :: search_world where
  "calm = \<lparr>w_alive = True, w_table_alloc = True, w_table_alive = (\<lambda>_. True), w_out_alloc = True,
     w_line_alive = (\<lambda>_. True), w_scan_alive = (\<lambda>_ _. True), w_sink = True\<rparr>"

lemma hello_ran: "ran ''hello;'' None True True calm hello_read hello_out ''hello;''"
proof -
  have "describe_read_selections ''hello;'' = Some [\<lparr>file_offset = 0, slen = 6, output_offset = 0, output_length = 6,
      first_line = 1, last_line = 1\<rparr>]" by code_simp
  then show ?thesis by (simp add: ran_def run_read_def hello_read_def hello_out_def result_init_def)
qed

lemma hello_annotated:
  "\<exists>a l'. annotate (\<lambda>_. True) (\<lambda>_. True) (ledger_create 7) hello_read hello_out ''hello;'' 1000 = (True, Some a, l')"
  using hello_handle
  by (simp add: annotate_def hello_read_def hello_out_def ledger_create_def add_selection_def range_ok_def substr_def Let_def
      MAX_SELECTIONS_def FILE_MAX_BYTES_def UINT64_MAX_def OPEN_TAG_def CLOSE_TAG_def sel_line_def to_string.simps)

theorem selection_edit_exact_witness:
  "\<exists>l' rq'. resolve True l' (handle 7 1) ''a.c'' hello_edit = Inr rq' \<and>
     locate_edit_target calm_match
       ''hello;'' rq' = Some (At 0) \<and>
     edited True ''hello;'' rq' 0 = Inr ''bye;''"
proof -
  obtain a l' where a: "annotate (\<lambda>_. True) (\<lambda>_. True) (ledger_create 7) hello_read hello_out ''hello;'' 1000 = (True, Some a, l')"
    using hello_annotated by blast
  have "request_valid hello_read = None"
    by (simp add: request_valid_def hello_read_def OUTPUT_MAX_BYTES_def in_text_def repl_text_def)
  from selection_edit_exact [OF ledger_reach.create this hello_ran a hello_empty, of 0
      "calm_match"]
  obtain rq' where "resolve True l' (handle 7 1) ''a.c'' hello_edit = Inr rq'"
    "locate_edit_target calm_match
       ''hello;'' rq' = Some (At 0)"
    "edited True ''hello;'' rq' 0 = Inr ''bye;''"
    by (auto simp: hello_out_def hello_read_def hello_edit_def ledger_create_def repl_text_def FILE_MAX_BYTES_def calm_match_def)
  then show ?thesis by blast
qed

end
