(* ===== verification/Agent_Publish.thy ===== *)
theory Agent_Publish
  imports Agent_Edit
begin

text \<open>
  How an edit reaches the disk, \<^verbatim>\<open>run_edit\<close> of \<^verbatim>\<open>experiments/ds4-agent/q27_agent_tools.c\<close>: the locked
  file is read, the target located, the new contents are staged under a temporary name, exchanged
  atomically with the destination, and the displaced file is compared with what was read; a mismatch is
  exchanged back.  The state is the parent directory, which maps names to files, and the bytes of the
  files; a file is its inode number.  Whether a system call succeeds is an argument for each call, and
  what other processes do to the directory between the staging and the exchange is the argument
  \<open>p_env\<close>.  The lock, which is acquired in a loop with a deadline, is its outcome.
\<close>

section \<open>Directory operations\<close>

record fs =
  dir :: "string \<Rightarrow> nat option"
  content :: "nat \<Rightarrow> string"

definition swap_at :: "bool \<Rightarrow> string \<Rightarrow> string \<Rightarrow> fs \<Rightarrow> fs option" where
  "swap_at ok a b f =
     (if ok \<and> dir f a \<noteq> None \<and> dir f b \<noteq> None then Some (f\<lparr>dir := (dir f)(a := dir f b, b := dir f a)\<rparr>) else None)"

definition unlink_at :: "bool \<Rightarrow> string \<Rightarrow> fs \<Rightarrow> fs" where
  "unlink_at ok a f = (if ok then f\<lparr>dir := (dir f)(a := None)\<rparr> else f)"

section \<open>Publishing\<close>

record pub_world =
  p_pid :: nat
  p_open_err :: "nat \<Rightarrow> bool"
  p_ino :: nat
  p_write :: bool
  p_partial :: string
  p_sync :: bool
  p_alive :: bool
  p_env :: "fs \<Rightarrow> fs"
  p_swap :: bool
  p_stat_temp :: bool
  p_stat_leaf :: bool
  p_read_old :: bool
  p_read_new :: bool
  p_unlink_old :: bool
  p_fsync_dir :: bool
  p_swap_back :: bool
  p_unlink_back :: bool
  p_unlink_temp :: bool

definition temp_name :: "nat \<Rightarrow> nat \<Rightarrow> string" where
  "temp_name pid attempt = ''.q27-edit-'' @ to_string pid @ ''-'' @ to_string attempt @ ''.tmp''"

text \<open>The name that is created: a name that exists is skipped, any other error ends the search.\<close>

function find_temp :: "pub_world \<Rightarrow> fs \<Rightarrow> nat \<Rightarrow> string option" where
  "find_temp w f attempt =
     (if attempt < 100 then
        if p_open_err w attempt then None
        else if dir f (temp_name (p_pid w) attempt) \<noteq> None then find_temp w f (attempt + 1)
        else Some (temp_name (p_pid w) attempt)
      else None)"
  by pat_completeness auto
termination find_temp
  by (relation "measure (\<lambda>(w, f, attempt). 100 - attempt)") auto

declare find_temp.simps [simp del]

definition stage :: "pub_world \<Rightarrow> string \<Rightarrow> string \<Rightarrow> fs \<Rightarrow> fs" where
  "stage w temp updated f =
     f\<lparr>dir := (dir f)(temp \<mapsto> p_ino w), content := (content f)(p_ino w := if p_write w then updated else p_partial w)\<rparr>"

text \<open>\<open>Published\<close> says whether the directory could not be synced afterwards.\<close>

datatype pub = Published bool | Not_Published | Pub_Cancelled

text \<open>The way back: a failed exchange keeps the displaced file under the temporary name.\<close>

definition roll_back :: "pub_world \<Rightarrow> string \<Rightarrow> string \<Rightarrow> fs \<Rightarrow> pub \<times> fs" where
  "roll_back w temp leaf f =
     (case swap_at (p_swap_back w) temp leaf f of
        None \<Rightarrow> (Not_Published, f)
      | Some f' \<Rightarrow> (Not_Published, unlink_at (p_unlink_temp w) temp (unlink_at (p_unlink_back w) temp f')))"

definition content_ok :: "pub_world \<Rightarrow> nat \<Rightarrow> string \<Rightarrow> string \<Rightarrow> string \<Rightarrow> string \<Rightarrow> fs \<Rightarrow> bool" where
  "content_ok w fd data updated temp leaf f \<longleftrightarrow>
     (let identity_ok = (p_stat_temp w \<and> dir f temp = Some fd \<and> length (content f fd) = length data \<and>
            p_stat_leaf w \<and> dir f leaf = Some (p_ino w) \<and> length (content f (p_ino w)) = length updated)
      in identity_ok \<and> p_read_old w \<and> p_read_new w \<and> content f fd = data \<and> content f (p_ino w) = updated)"

definition exchange :: "pub_world \<Rightarrow> nat \<Rightarrow> string \<Rightarrow> string \<Rightarrow> string \<Rightarrow> string \<Rightarrow> fs \<Rightarrow> pub \<times> fs" where
  "exchange w fd data updated temp leaf f =
     (case swap_at (p_swap w) temp leaf f of
        None \<Rightarrow> (Not_Published, unlink_at (p_unlink_temp w) temp f)
      | Some f' \<Rightarrow>
          if content_ok w fd data updated temp leaf f' then
            (if p_unlink_old w then (Published (\<not> p_fsync_dir w), unlink_at True temp f')
             else roll_back w temp leaf f')
          else roll_back w temp leaf f')"

definition publish_edit :: "pub_world \<Rightarrow> nat \<Rightarrow> string \<Rightarrow> string \<Rightarrow> string \<Rightarrow> fs \<Rightarrow> pub \<times> fs" where
  "publish_edit w fd data updated leaf f =
     (case find_temp w f 0 of
        None \<Rightarrow> (Not_Published, f)
      | Some temp \<Rightarrow>
          let f1 = stage w temp updated f
          in if \<not> (p_write w \<and> p_sync w) then (Not_Published, unlink_at (p_unlink_temp w) temp f1)
             else if \<not> p_alive w then (Pub_Cancelled, unlink_at (p_unlink_temp w) temp f1)
             else exchange w fd data updated temp leaf (p_env w f1))"

section \<open>The edit\<close>

datatype lock = Locked | Lock_Cancelled | Lock_Failed string

record edit_world =
  e_opened :: "string + nat"
  e_lock :: lock
  e_alive :: bool
  e_restat :: "string option"
  e_regular :: bool
  e_read :: "string option"
  e_match :: match_world
  e_alloc :: bool
  e_alive2 :: bool
  e_pub :: pub_world
  e_errno :: string

definition DURABILITY_UNCERTAIN :: "32 word" where "DURABILITY_UNCERTAIN = push_bit 3 1"

text \<open>\<open>leaf\<close> is the final component of the path.\<close>

definition run_edit :: "edit_world \<Rightarrow> tool_request \<Rightarrow> string \<Rightarrow> fs \<Rightarrow> (tool_status \<times> tool_result \<times> fs) option" where
  "run_edit w rq leaf f =
     (let fail = (\<lambda>msg. Some (TOOL_OK, result_error msg result_init, f));
          stop = Some (TOOL_CANCELLED, result_init, f)
      in case e_opened w of
           Inl msg \<Rightarrow> fail msg
         | Inr fd \<Rightarrow>
             (case e_lock w of
                Lock_Failed msg \<Rightarrow> fail msg
              | Lock_Cancelled \<Rightarrow> stop
              | Locked \<Rightarrow>
                  if \<not> e_alive w then stop
                  else if e_restat w \<noteq> None then fail (''cannot restat locked edit target: '' @ the (e_restat w))
                  else if \<not> e_regular w \<or> length (content f fd) > FILE_MAX_BYTES
                  then fail (''edit target changed while locking: '' @ e_errno w)
                  else if e_read w \<noteq> None then fail (the (e_read w))
                  else
                    let data = content f fd
                    in case locate_edit_target (e_match w) data rq of
                         None \<Rightarrow> None
                       | Some Stopped \<Rightarrow> stop
                       | Some (Refused msg) \<Rightarrow> fail msg
                       | Some (At match_at) \<Rightarrow>
                           (case edited (e_alloc w) data rq match_at of
                              Inl msg \<Rightarrow> fail msg
                            | Inr updated \<Rightarrow>
                                if \<not> e_alive2 w then stop
                                else case publish_edit (e_pub w) fd data updated leaf f of
                                       (Published unsure, f') \<Rightarrow>
                                         Some (TOOL_OK, result_init\<lparr>exit_code := 0,
                                           tr_flags := if unsure then DURABILITY_UNCERTAIN else 0,
                                           tr_message := if unsure then take 255 (''edit committed; directory fsync failed: '' @ e_errno w) else []\<rparr>, f')
                                     | (Not_Published, f') \<Rightarrow>
                                         Some (TOOL_OK, result_error (''cannot publish atomic edit: '' @ e_errno w) result_init, f')
                                     | (Pub_Cancelled, f') \<Rightarrow> Some (TOOL_CANCELLED, result_init, f'))))"

section \<open>Nothing is lost\<close>

text \<open>
  What the other processes may do to the staged file: nothing.  It has a fresh inode, and its name and
  bytes are left alone.
\<close>

definition staging_private :: "pub_world \<Rightarrow> string \<Rightarrow> fs \<Rightarrow> bool" where
  "staging_private w leaf f \<longleftrightarrow> (\<forall>n. dir f n \<noteq> Some (p_ino w)) \<and> (\<forall>k. leaf \<noteq> temp_name (p_pid w) k) \<and>
     (\<forall>temp g. dir g temp = Some (p_ino w) \<longrightarrow> dir (p_env w g) temp = Some (p_ino w)) \<and>
     (\<forall>g. content (p_env w g) (p_ino w) = content g (p_ino w))"

lemma find_temp_name: "find_temp w f k = Some temp \<Longrightarrow> dir f temp = None \<and> (\<exists>j. temp = temp_name (p_pid w) j)"
proof (induction w f k rule: find_temp.induct)
  case (1 w f k)
  then show ?case by (auto simp: find_temp.simps [of w f k] split: if_splits)
qed

text \<open>The staged state, as the exchange sees it.\<close>

abbreviation seen :: "pub_world \<Rightarrow> string \<Rightarrow> string \<Rightarrow> fs \<Rightarrow> fs" where
  "seen w temp updated f \<equiv> p_env w (stage w temp updated f)"

lemma roll_back_keeps:
  assumes "roll_back w temp leaf f' = (r, g)" "temp \<noteq> leaf"
    "dir f' = (dir f)(temp := dir f leaf, leaf := dir f temp)" "content f' = content f"
  shows "r = Not_Published \<and> content g = content f \<and> (\<forall>n. n \<noteq> leaf \<and> n \<noteq> temp \<longrightarrow> dir g n = dir f n) \<and>
    (dir g leaf = dir f leaf \<or> dir g temp = dir f leaf)"
  using assms by (auto simp: roll_back_def swap_at_def unlink_at_def split: if_splits)

lemma exchange_keeps:
  assumes "exchange w fd data updated temp leaf f = (r, g)" "temp \<noteq> leaf" "dir f temp = Some (p_ino w)"
  shows "content g = content f \<and> (\<forall>n. n \<noteq> leaf \<and> n \<noteq> temp \<longrightarrow> dir g n = dir f n) \<and>
    (case r of
       Published d \<Rightarrow> dir f leaf = Some fd \<and> content f fd = data \<and> dir g leaf = Some (p_ino w) \<and> dir g temp = None \<and>
         content f (p_ino w) = updated
     | _ \<Rightarrow> dir g leaf = dir f leaf \<or> dir g temp = dir f leaf)"
proof (cases "swap_at (p_swap w) temp leaf f")
  case None
  then show ?thesis using assms by (auto simp: exchange_def unlink_at_def split: if_splits)
next
  case (Some f')
  then have f': "dir f' = (dir f)(temp := dir f leaf, leaf := dir f temp)" "content f' = content f"
    by (auto simp: swap_at_def split: if_splits)
  show ?thesis
  proof (cases "content_ok w fd data updated temp leaf f' \<and> p_unlink_old w")
    case True
    then show ?thesis using assms Some f' by (auto simp: exchange_def content_ok_def unlink_at_def Let_def)
  next
    case False
    then have "roll_back w temp leaf f' = (r, g)" using assms(1) Some by (auto simp: exchange_def split: if_splits)
    from roll_back_keeps [OF this assms(2) f'] show ?thesis by auto
  qed
qed

text \<open>
  What an edit may leave behind once it has staged its file under the free name \<open>temp\<close>: \<open>now\<close> is the state
  the exchange saw.  After a success the destination named the file \<open>fd\<close> with the bytes \<open>data\<close> and now names
  the staged file with the edited bytes; after a failure the destination is as it was, or as other
  processes left it, or what it named is there under \<open>temp\<close>.  Other names, and the bytes of files that had
  a name, are untouched.
\<close>

definition edit_kept :: "bool \<Rightarrow> pub_world \<Rightarrow> nat \<Rightarrow> string \<Rightarrow> string \<Rightarrow> string \<Rightarrow> string \<Rightarrow> fs \<Rightarrow> fs \<Rightarrow> bool" where
  "edit_kept success w fd data updated temp leaf f g \<longleftrightarrow>
     (let now = seen w temp updated f
      in dir f temp = None \<and>
         (if success
          then dir now leaf = Some fd \<and> content now fd = data \<and>
               dir g leaf = Some (p_ino w) \<and> content g (p_ino w) = updated \<and> dir g temp = None
          else dir g leaf = dir f leaf \<or> dir g leaf = dir now leaf \<or> dir g temp = dir now leaf) \<and>
         (\<forall>n. n \<noteq> leaf \<and> n \<noteq> temp \<longrightarrow> dir g n = dir f n \<or> dir g n = dir now n) \<and>
         (\<forall>n i. dir f n = Some i \<longrightarrow> content g i = content f i \<or> content g i = content now i))"

lemma publish_keeps:
  assumes "publish_edit w fd data updated leaf f = (r, g)" "staging_private w leaf f"
  shows "g = f \<and> r = Not_Published \<or>
    (\<exists>temp. edit_kept (r = Published True \<or> r = Published False) w fd data updated temp leaf f g)"
proof (cases "find_temp w f 0")
  case None
  then show ?thesis using assms(1) by (simp add: publish_edit_def)
next
  case (Some temp)
  have t: "dir f temp = None" "temp \<noteq> leaf" using find_temp_name [OF Some] assms(2) by (auto simp: staging_private_def)
  have st: "dir (stage w temp updated f) temp = Some (p_ino w)" by (simp add: stage_def)
  show ?thesis
  proof (cases "p_write w \<and> p_sync w \<and> p_alive w")
    case True
    then have x: "exchange w fd data updated temp leaf (seen w temp updated f) = (r, g)"
      using assms(1) Some by (simp add: publish_edit_def Let_def)
    have "dir (seen w temp updated f) temp = Some (p_ino w)" "content (seen w temp updated f) (p_ino w) = updated"
      using assms(2) st True by (auto simp: staging_private_def stage_def)
    with exchange_keeps [OF x t(2)] t(1) have "edit_kept (r = Published True \<or> r = Published False) w fd data updated temp leaf f g"
      unfolding edit_kept_def Let_def by (cases r) auto
    then show ?thesis by blast
  next
    case False
    then have "r = Not_Published \<or> r = Pub_Cancelled" "g = unlink_at (p_unlink_temp w) temp (stage w temp updated f)"
      using assms(1) Some by (auto simp: publish_edit_def Let_def split: if_splits)
    then have "edit_kept (r = Published True \<or> r = Published False) w fd data updated temp leaf f g"
      using t assms(2) by (auto simp: edit_kept_def unlink_at_def stage_def staging_private_def)
    then show ?thesis by blast
  qed
qed

text \<open>Before it publishes, an edit leaves the disk alone.\<close>

lemma run_edit_cases:
  assumes "in_text rq \<noteq> []"
  shows "(\<exists>status res. run_edit w rq leaf f = Some (status, res, f) \<and> exit_code res = -1) \<or>
    (\<exists>fd j updated r g status res. e_opened w = Inr fd \<and> locate_edit_target (e_match w) (content f fd) rq = Some (At j) \<and>
       updated = take j (content f fd) @ repl_text rq @ drop (j + length (in_text rq)) (content f fd) \<and>
       publish_edit (e_pub w) fd (content f fd) updated leaf f = (r, g) \<and> run_edit w rq leaf f = Some (status, res, g) \<and>
       exit_code res = (if r = Published True \<or> r = Published False then 0 else -1))"
proof (cases "e_opened w")
  case (Inr fd)
  obtain r where r: "locate_edit_target (e_match w) (content f fd) rq = Some r" using locate_total [OF assms] by blast
  show ?thesis
  proof (cases "e_lock w = Locked \<and> e_alive w \<and> e_restat w = None \<and> e_regular w \<and> length (content f fd) \<le> FILE_MAX_BYTES \<and>
      e_read w = None \<and> (\<exists>j updated. r = At j \<and> edited (e_alloc w) (content f fd) rq j = Inr updated) \<and> e_alive2 w")
    case True
    then obtain j updated where j: "r = At j" "edited (e_alloc w) (content f fd) rq j = Inr updated" by blast
    obtain x g where pb: "publish_edit (e_pub w) fd (content f fd) updated leaf f = (x, g)" by fastforce
    have "updated = take j (content f fd) @ repl_text rq @ drop (j + length (in_text rq)) (content f fd)"
      using j(2) by (auto simp: edited_def split: if_splits)
    moreover have "\<exists>status res. run_edit w rq leaf f = Some (status, res, g) \<and>
        exit_code res = (if x = Published True \<or> x = Published False then 0 else -1)"
      using True Inr r j pb
      by (cases x) (auto simp: run_edit_def Let_def not_less result_error_def result_init_def)
    ultimately show ?thesis using Inr r j(1) pb by blast
  next
    case False
    then show ?thesis using Inr r
      by (auto simp: run_edit_def Let_def result_error_def result_init_def split: lock.splits located.splits sum.splits)
  qed
qed (simp add: run_edit_def Let_def result_error_def)

text \<open>
  C4: an edit never loses a file.  It always ends.  When it reports success, the old bytes were located in the file that was
  opened, the destination still named that file with exactly those bytes when it was exchanged, and now
  names a file with the edited bytes.  Otherwise the destination is as it was, or as other processes left
  it, or what it named is still there under a temporary name that was free.  Every other name, and the
  bytes of every file that had a name, are as they were or as other processes left them.
\<close>

theorem edit_never_loses:
  assumes "in_text rq \<noteq> []" "staging_private (e_pub w) leaf f"
  shows "\<exists>status res g. run_edit w rq leaf f = Some (status, res, g) \<and>
    (g = f \<and> exit_code res = -1 \<or>
     (\<exists>fd j temp. e_opened w = Inr fd \<and> locate_edit_target (e_match w) (content f fd) rq = Some (At j) \<and>
        edit_kept (exit_code res = 0) (e_pub w) fd (content f fd)
          (take j (content f fd) @ repl_text rq @ drop (j + length (in_text rq)) (content f fd)) temp leaf f g))"
  using run_edit_cases [OF assms(1), of w leaf f]
proof (elim disjE exE conjE)
  fix fd j updated r g status res
  assume run: "e_opened w = Inr fd" "locate_edit_target (e_match w) (content f fd) rq = Some (At j)"
    "updated = take j (content f fd) @ repl_text rq @ drop (j + length (in_text rq)) (content f fd)"
    "publish_edit (e_pub w) fd (content f fd) updated leaf f = (r, g)" "run_edit w rq leaf f = Some (status, res, g)"
    "exit_code res = (if r = Published True \<or> r = Published False then 0 else -1)"
  from publish_keeps [OF run(4) assms(2)] show ?thesis
  proof (elim disjE exE conjE)
    assume "g = f" "r = Not_Published"
    then show ?thesis using run by simp
  next
    fix temp
    assume "edit_kept (r = Published True \<or> r = Published False) (e_pub w) fd (content f fd) updated temp leaf f g"
    moreover have "(r = Published True \<or> r = Published False) = (exit_code res = 0)" using run(6) by simp
    ultimately show ?thesis using run(1,2,3,5) by (intro exI [of _ status] exI [of _ res] exI [of _ g]) auto
  qed
qed auto

text \<open>An undisturbed edit commits.\<close>

definition smooth :: "pub_world \<Rightarrow> bool" where
  "smooth w \<longleftrightarrow> (\<forall>k. \<not> p_open_err w k) \<and> p_write w \<and> p_sync w \<and> p_alive w \<and> p_env w = id \<and> p_swap w \<and> p_stat_temp w \<and>
     p_stat_leaf w \<and> p_read_old w \<and> p_read_new w \<and> p_unlink_old w"

lemma publish_commits:
  assumes "smooth w" "dir f (temp_name (p_pid w) 0) = None" "dir f leaf = Some fd" "fd \<noteq> p_ino w" "content f fd = data"
  shows "fst (publish_edit w fd data updated leaf f) = Published (\<not> p_fsync_dir w)"
proof -
  have "find_temp w f 0 = Some (temp_name (p_pid w) 0)" using assms(1,2) by (simp add: find_temp.simps [of w f 0] smooth_def)
  moreover have "leaf \<noteq> temp_name (p_pid w) 0" using assms(2,3) by auto
  ultimately show ?thesis using assms
    by (simp add: publish_edit_def exchange_def content_ok_def swap_at_def stage_def smooth_def Let_def)
qed

definition calm_pub :: pub_world where
  "calm_pub = \<lparr>p_pid = 42, p_open_err = (\<lambda>_. False), p_ino = 2, p_write = True, p_partial = [], p_sync = True, p_alive = True,
     p_env = id, p_swap = True, p_stat_temp = True, p_stat_leaf = True, p_read_old = True, p_read_new = True,
     p_unlink_old = True, p_fsync_dir = True, p_swap_back = True, p_unlink_back = True, p_unlink_temp = True\<rparr>"

definition calm_edit :: edit_world where
  "calm_edit = \<lparr>e_opened = Inr 1, e_lock = Locked, e_alive = True, e_restat = None, e_regular = True, e_read = None,
     e_match = calm_match, e_alloc = True, e_alive2 = True, e_pub = calm_pub, e_errno = []\<rparr>"

definition one_file :: fs where
  "one_file = \<lparr>dir = [''a.c'' \<mapsto> 1], content = (\<lambda>i. if i = 1 then ''xababx'' else [])\<rparr>"

theorem edit_never_loses_witness:
  "\<exists>status res g. run_edit calm_edit (hello_edit\<lparr>rq_input := Some ''bab''\<rparr>) ''a.c'' one_file = Some (status, res, g) \<and>
    (g = one_file \<and> exit_code res = -1 \<or>
     (\<exists>fd j temp. e_opened calm_edit = Inr fd \<and>
        locate_edit_target (e_match calm_edit) (content one_file fd) (hello_edit\<lparr>rq_input := Some ''bab''\<rparr>) = Some (At j) \<and>
        edit_kept (exit_code res = 0) (e_pub calm_edit) fd (content one_file fd)
          (take j (content one_file fd) @ ''bye;'' @ drop (j + 3) (content one_file fd)) temp ''a.c'' one_file g))"
proof -
  have "staging_private (e_pub calm_edit) ''a.c'' one_file"
    by (simp add: staging_private_def calm_edit_def calm_pub_def one_file_def temp_name_def)
  moreover have "in_text (hello_edit\<lparr>rq_input := Some ''bab''\<rparr>) = ''bab''" "repl_text (hello_edit\<lparr>rq_input := Some ''bab''\<rparr>) = ''bye;''"
    by (simp_all add: in_text_def repl_text_def hello_edit_def)
  ultimately show ?thesis
    using edit_never_loses [of "hello_edit\<lparr>rq_input := Some ''bab''\<rparr>" calm_edit "''a.c''" one_file] by (simp add: numeral_3_eq_3)
qed

end
