(* ===== verification/Conductor.thy ===== *)
theory Conductor
  imports Q27_Prelude "HOL-Library.Multiset" "HOL-Library.Sublist"
begin

text \<open>
  The host half of the conductor, \<^verbatim>\<open>src/src/conductor.h\<close>: the trimming of verify widths, the token
  queue between the conductor and a request thread, and the scheduling core with its round.  The
  hooks of the core are a record of functions on an environment that holds their own state and the
  staged joins.  The debug line is left out.
\<close>

section \<open>Trimming widths\<close>

text \<open>The scan for the victim: \<^verbatim>\<open>pick\<close> is \<open>None\<close> for -1.\<close>

definition pick_step :: "int list \<Rightarrow> bool list \<Rightarrow> nat option \<Rightarrow> nat \<Rightarrow> nat option" where
  "pick_step want sfx pick i =
     (if want ! i \<le> 2 then pick
      else case pick of
             None \<Rightarrow> Some i
           | Some p \<Rightarrow>
               if want ! i > want ! p \<or> (want ! i = want ! p \<and> (sfx ! i \<or> \<not> sfx ! p)) then Some i else Some p)"

definition pick_victim :: "int list \<Rightarrow> bool list \<Rightarrow> nat option" where
  "pick_victim want sfx = foldl (pick_step want sfx) None [0..<length want]"

text \<open>The policy: the wider lane first, a suffix lane before a gated one, then the higher slot.\<close>

definition before :: "int list \<Rightarrow> bool list \<Rightarrow> nat \<Rightarrow> nat \<Rightarrow> bool" where
  "before want sfx p i \<longleftrightarrow>
     want ! i < want ! p \<or> want ! i = want ! p \<and> (sfx ! p \<and> \<not> sfx ! i \<or> sfx ! p = sfx ! i \<and> i < p)"

lemma before_trans: "before want sfx a b \<Longrightarrow> before want sfx b c \<Longrightarrow> before want sfx a c"
  by (auto simp: before_def)

lemma pick_step_None [simp]: "pick_step want sfx None i = (if want ! i \<le> 2 then None else Some i)"
  by (simp add: pick_step_def)

lemma pick_step_Some:
  "p < i \<Longrightarrow> pick_step want sfx (Some p) i =
    (if want ! i \<le> 2 then Some p else if before want sfx i p then Some i else Some p)"
  by (auto simp: pick_step_def before_def)

lemma not_before: "p \<noteq> i \<Longrightarrow> \<not> before want sfx i p \<Longrightarrow> before want sfx p i"
  by (auto simp: before_def)

definition victim_upto :: "int list \<Rightarrow> bool list \<Rightarrow> nat \<Rightarrow> nat option \<Rightarrow> bool" where
  "victim_upto want sfx n v \<longleftrightarrow>
     (case v of
        None \<Rightarrow> \<forall>i<n. want ! i \<le> 2
      | Some p \<Rightarrow> p < n \<and> 2 < want ! p \<and> (\<forall>i<n. i \<noteq> p \<longrightarrow> before want sfx p i))"

lemma pick_fold: "victim_upto want sfx n (foldl (pick_step want sfx) None [0..<n])"
proof (induction n)
  case (Suc n)
  let ?v = "foldl (pick_step want sfx) None [0..<n]"
  show ?case
  proof (cases ?v)
    case None
    then show ?thesis using Suc.IH by (auto simp: victim_upto_def less_Suc_eq before_def)
  next
    case (Some p)
    then have p: "p < n" "2 < want ! p" "\<forall>i<n. i \<noteq> p \<longrightarrow> before want sfx p i" using Suc.IH by (simp_all add: victim_upto_def)
    consider "want ! n \<le> 2" | "2 < want ! n" "before want sfx n p" | "2 < want ! n" "\<not> before want sfx n p" by linarith
    then show ?thesis
    proof cases
      case 1
      then have "before want sfx p n" using p(2) by (simp add: before_def)
      then show ?thesis using 1 p Some by (auto simp: victim_upto_def pick_step_Some less_Suc_eq)
    next
      case 2
      then have "before want sfx n i" if "i < n" for i using that p(3) before_trans [of want sfx n p i] by (cases "i = p") auto
      then show ?thesis using 2 p(1) Some by (auto simp: victim_upto_def pick_step_Some less_Suc_eq)
    next
      case 3
      then have "before want sfx p n" using p(1) by (intro not_before) auto
      then show ?thesis using 3 p Some by (auto simp: victim_upto_def pick_step_Some less_Suc_eq)
    qed
  qed
qed (simp add: victim_upto_def)

lemma pick_victim_Some:
  assumes "pick_victim want sfx = Some p"
  shows "p < length want" "2 < want ! p" "\<And>i. i < length want \<Longrightarrow> i \<noteq> p \<Longrightarrow> before want sfx p i"
  using pick_fold [of want sfx "length want"] assms by (auto simp: pick_victim_def victim_upto_def)

lemma pick_victim_None: "pick_victim want sfx = None \<Longrightarrow> i < length want \<Longrightarrow> want ! i \<le> 2"
  using pick_fold [of want sfx "length want"] by (auto simp: pick_victim_def victim_upto_def)

text \<open>The loop; \<^verbatim>\<open>sum\<close> is kept by the source and is the sum of the widths.\<close>

definition slack :: "int list \<Rightarrow> nat" where
  "slack want = nat (sum_list (map (\<lambda>w. max 0 (w - 2)) want))"

lemma sum_list_update_int: "p < length xs \<Longrightarrow> sum_list (xs[p := v]) = sum_list xs + v - (xs ! p :: int)"
  by (induction xs arbitrary: p) (auto split: nat.split)

lemma slack_decreases: "pick_victim want sfx = Some p \<Longrightarrow> slack (want[p := want ! p - 1]) < slack want"
proof -
  assume "pick_victim want sfx = Some p"
  note p = pick_victim_Some [OF this]
  let ?f = "\<lambda>w :: int. max 0 (w - 2)"
  have "sum_list (map ?f (want[p := want ! p - 1])) = sum_list (map ?f want) - 1"
    using p(1,2) by (simp add: map_update sum_list_update_int)
  moreover have "0 < sum_list (map ?f want)"
  proof -
    have "?f (want ! p) \<le> sum_list (map ?f want)"
      using p(1) by (intro member_le_sum_list) auto
    then show ?thesis using p(2) by simp
  qed
  ultimately show ?thesis by (simp add: slack_def)
qed

function trim_loop :: "int list \<Rightarrow> bool list \<Rightarrow> int \<Rightarrow> int list" where
  "trim_loop want sfx cap =
     (if sum_list want \<le> cap then want
      else case pick_victim want sfx of
             None \<Rightarrow> want
           | Some p \<Rightarrow> trim_loop (want[p := want ! p - 1]) sfx cap)"
  by pat_completeness auto

termination
  by (relation "measure (\<lambda>(want, sfx, cap). slack want)") (auto dest: slack_decreases)

declare trim_loop.simps [simp del]

definition trim_widths :: "int list \<Rightarrow> bool list \<Rightarrow> int \<Rightarrow> int list" where
  "trim_widths want sfx cap = (if length want \<le> 1 then want else trim_loop want sfx cap)"

definition trim_inv :: "bool list \<Rightarrow> int list \<Rightarrow> int list \<Rightarrow> bool" where
  "trim_inv sfx w0 w \<longleftrightarrow>
     length w = length w0 \<and> (\<forall>i<length w0. min (w0 ! i) 2 \<le> w ! i \<and> w ! i \<le> w0 ! i) \<and>
     (\<forall>i<length w0. \<forall>j<length w0. w ! i < w0 ! i \<longrightarrow>
        w ! j \<le> w ! i + 1 \<and> (w ! j = w ! i + 1 \<longrightarrow> sfx ! i \<and> \<not> sfx ! j \<or> sfx ! i = sfx ! j \<and> j < i))"

lemma trim_inv_step:
  assumes v: "trim_inv sfx w0 w" and p: "pick_victim w sfx = Some p"
  shows "trim_inv sfx w0 (w[p := w ! p - 1])"
proof -
  note pv = pick_victim_Some [OF p]
  have len: "length w = length w0" and b: "\<And>i. i < length w0 \<Longrightarrow> min (w0 ! i) 2 \<le> w ! i \<and> w ! i \<le> w0 ! i"
    and lev: "\<And>i j. i < length w0 \<Longrightarrow> j < length w0 \<Longrightarrow> w ! i < w0 ! i \<Longrightarrow>
        w ! j \<le> w ! i + 1 \<and> (w ! j = w ! i + 1 \<longrightarrow> sfx ! i \<and> \<not> sfx ! j \<or> sfx ! i = sfx ! j \<and> j < i)"
    using v by (auto simp: trim_inv_def)
  have level: "(w[p := w ! p - 1]) ! j \<le> (w[p := w ! p - 1]) ! i + 1 \<and>
      ((w[p := w ! p - 1]) ! j = (w[p := w ! p - 1]) ! i + 1 \<longrightarrow> sfx ! i \<and> \<not> sfx ! j \<or> sfx ! i = sfx ! j \<and> j < i)"
    if i: "i < length w0" "j < length w0" "(w[p := w ! p - 1]) ! i < w0 ! i" for i j
  proof (cases "i = p")
    case True
    then show ?thesis using pv(1) pv(3) [of j] i len by (cases "j = p") (auto simp: before_def)
  next
    case False
    then have t: "w ! i < w0 ! i" using i by simp
    show ?thesis using lev [OF i(1,2) t] lev [OF i(1) _ t, of p] False pv(1) len i by (cases "j = p") auto
  qed
  have "min (w0 ! i) 2 \<le> (w[p := w ! p - 1]) ! i \<and> (w[p := w ! p - 1]) ! i \<le> w0 ! i" if "i < length w0" for i
    using b [OF that] pv(1,2) len that by (cases "i = p") auto
  then show ?thesis unfolding trim_inv_def using len level by simp
qed

lemma sum_list_mono_nth:
  fixes xs ys :: "int list"
  shows "length xs = length ys \<Longrightarrow> (\<And>i. i < length xs \<Longrightarrow> xs ! i \<le> ys ! i) \<Longrightarrow> sum_list xs \<le> sum_list ys"
proof (induction xs ys rule: list_induct2)
  case (Cons x xs y ys)
  have "x \<le> y" "\<And>i. i < length xs \<Longrightarrow> xs ! i \<le> ys ! i" using Cons.prems [of 0] Cons.prems [of "Suc i" for i] by auto
  then show ?case using Cons.IH by (simp add: add_mono)
qed simp

lemma trim_inv_refl: "trim_inv sfx w w"
  by (simp add: trim_inv_def)

lemma trim_loop_spec:
  assumes "trim_inv sfx w0 w" "cap \<le> sum_list w"
  shows "trim_inv sfx w0 (trim_loop w sfx cap) \<and>
    sum_list (trim_loop w sfx cap) = max cap (sum_list (map (min 2) w0))"
  using assms
proof (induction w sfx cap rule: trim_loop.induct)
  case (1 w sfx cap)
  have f: "sum_list (map (min 2) w0) \<le> sum_list w"
    using "1.prems"(1) by (intro sum_list_mono_nth) (auto simp: trim_inv_def min.commute)
  consider "sum_list w \<le> cap" | "cap < sum_list w" "pick_victim w sfx = None"
    | p where "cap < sum_list w" "pick_victim w sfx = Some p" by fastforce
  then show ?case
  proof cases
    case 1
    then show ?thesis using "1.prems" f by (subst (1 2) trim_loop.simps) auto
  next
    case 2
    then have "w ! i \<le> 2" if "i < length w" for i using that pick_victim_None by blast
    then have "sum_list w \<le> sum_list (map (min 2) w0)"
      using "1.prems"(1) by (intro sum_list_mono_nth) (auto simp: trim_inv_def)
    then show ?thesis using "1.prems" 2 f by (subst (1 2) trim_loop.simps) auto
  next
    case (3 p)
    then have "sum_list (w[p := w ! p - 1]) = sum_list w - 1"
      using pick_victim_Some(1) [OF 3(2)] by (simp add: sum_list_update_int)
    moreover have "trim_loop w sfx cap = trim_loop (w[p := w ! p - 1]) sfx cap"
      using 3 by (subst trim_loop.simps) simp
    ultimately show ?thesis
      using 3 "1.IH" [OF _ 3(2)] trim_inv_step [OF "1.prems"(1) 3(2)] by simp
  qed
qed

text \<open>
  C37: trimming is fair and exact.  For two or more lanes, no lane is widened and none goes below two
  unless it started there; the total comes down to the cap, or to the floor where the cap cannot be
  met, and no further; a lane that was trimmed is at most one narrower than any other, and where
  another stayed one wider, the trimmed lane came first in the order: suffix before gated, then the
  higher slot.
\<close>

theorem trim_widths_spec:
  assumes "2 \<le> length want"
  shows "let res = trim_widths want sfx cap in
    length res = length want \<and>
    sum_list res = (if sum_list want \<le> cap then sum_list want else max cap (sum_list (map (min 2) want))) \<and>
    (\<forall>i<length want. min (want ! i) 2 \<le> res ! i \<and> res ! i \<le> want ! i) \<and>
    (\<forall>i<length want. \<forall>j<length want. res ! i < want ! i \<longrightarrow>
       res ! j \<le> res ! i + 1 \<and> (res ! j = res ! i + 1 \<longrightarrow> sfx ! i \<and> \<not> sfx ! j \<or> sfx ! i = sfx ! j \<and> j < i))"
proof (cases "sum_list want \<le> cap")
  case True
  then have "trim_widths want sfx cap = want" by (simp add: trim_widths_def trim_loop.simps)
  with True show ?thesis by simp
next
  case False
  then show ?thesis
    using assms trim_loop_spec [OF trim_inv_refl, of cap want sfx]
    by (simp add: trim_widths_def trim_inv_def Let_def)
qed

theorem trim_widths_spec_witness:
  "trim_widths [8, 8, 3, 1] [False, True, False, True] 16 = [6, 6, 3, 1] \<and>
   sum_list (trim_widths [8, 8, 3, 1] [False, True, False, True] 16) = (16 :: int)"
proof -
  have "trim_widths [8, 8, 3, 1] [False, True, False, True] 16 = [6, 6, 3, 1]" by code_simp
  then show ?thesis
    using trim_widths_spec [of "[8, 8, 3, 1]" "[False, True, False, True]" 16] by (simp add: Let_def)
qed

section \<open>The token queue\<close>

record token_queue =
  buf :: "int list"
  closed :: bool
  reason :: string
  q_error :: "string option"

definition queue_init :: token_queue where
  "queue_init = \<lparr>buf = [], closed = False, reason = [], q_error = None\<rparr>"

definition q_push :: "int list \<Rightarrow> token_queue \<Rightarrow> token_queue" where
  "q_push ids q = (if ids = [] then q else q\<lparr>buf := buf q @ ids\<rparr>)"

definition q_close :: "string \<Rightarrow> token_queue \<Rightarrow> token_queue" where
  "q_close why q = q\<lparr>closed := True, reason := why\<rparr>"

definition q_fail :: "string \<Rightarrow> token_queue \<Rightarrow> token_queue" where
  "q_fail what q = q\<lparr>q_error := Some what, closed := True, reason := ''error''\<rparr>"

text \<open>\<^verbatim>\<open>pop\<close> waits: it has no result until a token arrived or the queue closed.\<close>

definition q_pop :: "token_queue \<Rightarrow> (int list \<times> bool \<times> token_queue) option" where
  "q_pop q =
     (if buf q = [] \<and> \<not> closed q then None
      else Some (buf q, buf q \<noteq> [] \<or> \<not> closed q, q\<lparr>buf := []\<rparr>))"

text \<open>
  The conductor pushes and finishes, the request thread pops until \<^verbatim>\<open>pop\<close> returns false.  A configuration is
  the queue, the tokens pushed so far, the tokens the consumer has, and whether its loop has ended; after the queue
  is closed the conductor no longer touches it.
\<close>

record stream_conf =
  que :: token_queue
  pushed :: "int list"
  got :: "int list"
  ended :: bool

inductive queue_step :: "stream_conf \<Rightarrow> stream_conf \<Rightarrow> bool" where
  push: "\<not> closed (que s) \<Longrightarrow> queue_step s (s\<lparr>que := q_push ids (que s), pushed := pushed s @ ids\<rparr>)"
| close: "\<not> closed (que s) \<Longrightarrow> queue_step s (s\<lparr>que := q_close why (que s)\<rparr>)"
| fail: "\<not> closed (que s) \<Longrightarrow> queue_step s (s\<lparr>que := q_fail what (que s)\<rparr>)"
| pop: "\<not> ended s \<Longrightarrow> q_pop (que s) = Some (ids, again, q') \<Longrightarrow>
    queue_step s (s\<lparr>que := q', got := got s @ ids, ended := \<not> again\<rparr>)"

inductive_cases queue_stepE: "queue_step s s'"

definition conf_init :: stream_conf where
  "conf_init = \<lparr>que = queue_init, pushed = [], got = [], ended = False\<rparr>"

definition queue_inv :: "stream_conf \<Rightarrow> bool" where
  "queue_inv s \<longleftrightarrow> got s @ buf (que s) = pushed s \<and> (ended s \<longrightarrow> closed (que s) \<and> buf (que s) = [])"

lemma queue_inv_step: "queue_step s s' \<Longrightarrow> queue_inv s \<Longrightarrow> queue_inv s'"
  by (erule queue_stepE) (auto simp: queue_inv_def q_push_def q_close_def q_fail_def q_pop_def split: if_splits)

text \<open>
  C38: the token queue delivers the stream.  In every interleaving the consumer holds, in order, a prefix of what
  was pushed, the rest being buffered; when its loop has ended it holds everything; and it never blocks
  forever: once the queue is closed the loop ends within two calls of \<^verbatim>\<open>pop\<close>.
\<close>

theorem queue_delivers:
  assumes "queue_step\<^sup>*\<^sup>* conf_init s"
  shows "got s @ buf (que s) = pushed s \<and> (ended s \<longrightarrow> got s = pushed s) \<and>
    (closed (que s) \<and> \<not> ended s \<longrightarrow>
      (\<exists>s'. (queue_step ^^ (if buf (que s) = [] then 1 else 2)) s s' \<and> ended s' \<and> got s' = pushed s'))"
proof (intro conjI impI)
  have i0: "queue_inv conf_init" by (simp add: queue_inv_def conf_init_def queue_init_def)
  have inv: "queue_inv s" using assms by (induction rule: rtranclp_induct) (simp_all add: i0 queue_inv_step)
  then show "got s @ buf (que s) = pushed s" "ended s \<Longrightarrow> got s = pushed s" by (auto simp: queue_inv_def)
  assume "closed (que s) \<and> \<not> ended s"
  then have c: "closed (que s)" "\<not> ended s" by simp_all
  let ?s1 = "s\<lparr>que := (que s)\<lparr>buf := []\<rparr>, got := got s @ buf (que s), ended := False\<rparr>"
  let ?s2 = "s\<lparr>que := (que s)\<lparr>buf := []\<rparr>, got := got s @ buf (que s), ended := True\<rparr>"
  have last: "queue_step t (t\<lparr>que := (que t)\<lparr>buf := []\<rparr>, got := got t, ended := True\<rparr>)"
    if "closed (que t)" "\<not> ended t" "buf (que t) = []" for t
    using queue_step.pop [OF that(2), of "[]" False "(que t)\<lparr>buf := []\<rparr>"] that by (simp add: q_pop_def)
  show "\<exists>s'. (queue_step ^^ (if buf (que s) = [] then 1 else 2)) s s' \<and> ended s' \<and> got s' = pushed s'"
  proof (cases "buf (que s) = []")
    case True
    then show ?thesis
      using last [OF c True] inv
      by (intro exI [of _ "s\<lparr>que := (que s)\<lparr>buf := []\<rparr>, ended := True\<rparr>"]) (simp add: queue_inv_def eq_OO)
  next
    case False
    then have "queue_step s ?s1"
      using queue_step.pop [OF c(2), of "buf (que s)" True "(que s)\<lparr>buf := []\<rparr>"] c by (simp add: q_pop_def)
    moreover have "queue_step ?s1 ?s2" using last [of ?s1] c(1) by simp
    ultimately show ?thesis
      using False inv by (intro exI [of _ ?s2]) (auto simp: queue_inv_def numeral_2_eq_2 eq_OO)
  qed
qed

theorem queue_delivers_witness:
  "queue_step\<^sup>*\<^sup>* conf_init \<lparr>que = queue_init\<lparr>buf := [1, 2]\<rparr>, pushed = [1, 2], got = [], ended = False\<rparr> \<and>
   got \<lparr>que = queue_init\<lparr>buf := [1, 2]\<rparr>, pushed = [1, 2], got = [], ended = False\<rparr> @ [1, 2] = [1, 2]"
proof -
  let ?s = "\<lparr>que = queue_init\<lparr>buf := [1, 2]\<rparr>, pushed = [1, 2], got = [], ended = False\<rparr>"
  have "queue_step conf_init (conf_init\<lparr>que := q_push [1, 2] (que conf_init), pushed := pushed conf_init @ [1, 2]\<rparr>)"
    by (rule queue_step.push) (simp add: conf_init_def queue_init_def)
  then have r: "queue_step\<^sup>*\<^sup>* conf_init ?s" by (simp add: conf_init_def queue_init_def q_push_def)
  show ?thesis using r queue_delivers [OF r] by (simp add: queue_init_def)
qed

section \<open>The scheduling core\<close>

text \<open>
  What the hooks work on: their own state and the staged joins (\<^verbatim>\<open>join\<close> may be called from a hook).
  A member is its number.
\<close>

record 'w env =
  world :: 'w
  joins :: "nat list"

record 'w hooks =
  pre_round :: "nat \<Rightarrow> 'w env \<Rightarrow> bool \<times> 'w env"
  want_width :: "nat \<Rightarrow> 'w env \<Rightarrow> int \<times> 'w env"
  round_is_suffix :: "nat \<Rightarrow> 'w env \<Rightarrow> bool \<times> 'w env"
  set_granted :: "nat \<Rightarrow> int \<Rightarrow> 'w env \<Rightarrow> 'w env"
  solo_round :: "nat \<Rightarrow> 'w env \<Rightarrow> bool \<times> 'w env"
  fused_round :: "nat list \<Rightarrow> int list \<Rightarrow> bool list \<Rightarrow> 'w env \<Rightarrow> bool list \<times> 'w env"
  on_leave :: "nat \<Rightarrow> 'w env \<Rightarrow> 'w env"
  draft_widths :: "(nat list \<Rightarrow> 'w env \<Rightarrow> (int list \<times> bool list) \<times> 'w env) option"

record 'w core =
  cap :: int
  members :: "nat list"
  env :: "'w env"

definition join :: "nat \<Rightarrow> 'w env \<Rightarrow> 'w env" where
  "join m e = e\<lparr>joins := joins e @ [m]\<rparr>"

text \<open>The pre-checks: a member that is done is erased and leaves at once.\<close>

fun pre_checks :: "'w hooks \<Rightarrow> nat list \<Rightarrow> 'w env \<Rightarrow> nat list \<times> 'w env" where
  "pre_checks h [] e = ([], e)"
| "pre_checks h (m # ms) e =
     (case pre_round h m e of
        (True, e1) \<Rightarrow> (case pre_checks h ms e1 of (ms', e2) \<Rightarrow> (m # ms', e2))
      | (False, e1) \<Rightarrow> pre_checks h ms (on_leave h m e1))"

text \<open>The serial draft phase, used when the batch hook is not set.\<close>

fun serial_widths :: "'w hooks \<Rightarrow> nat list \<Rightarrow> 'w env \<Rightarrow> (int list \<times> bool list) \<times> 'w env" where
  "serial_widths h [] e = (([], []), e)"
| "serial_widths h (m # ms) e =
     (case want_width h m e of
        (w, e1) \<Rightarrow>
          (case round_is_suffix h m e1 of
             (s, e2) \<Rightarrow> (case serial_widths h ms e2 of ((ws, ss), e3) \<Rightarrow> ((w # ws, s # ss), e3))))"

fun grant_all :: "'w hooks \<Rightarrow> nat list \<Rightarrow> int list \<Rightarrow> 'w env \<Rightarrow> 'w env" where
  "grant_all h (m # ms) (w # ws) e = grant_all h ms ws (set_granted h m w e)"
| "grant_all h _ _ e = e"

text \<open>The leave loop runs from the last member to the first.\<close>

fun leave_done :: "'w hooks \<Rightarrow> (nat \<times> bool) list \<Rightarrow> 'w env \<Rightarrow> nat list \<times> 'w env" where
  "leave_done h [] e = ([], e)"
| "leave_done h ((m, d) # ms) e =
     (case leave_done h ms e of (ms', e1) \<Rightarrow> if d then (ms', on_leave h m e1) else (m # ms', e1))"

definition MAX_K :: nat where "MAX_K = 16"

text \<open>One round; \<open>None\<close> is the abort on an illegal batch.\<close>

definition round :: "'w hooks \<Rightarrow> 'w core \<Rightarrow> (nat \<times> 'w core) option" where
  "round h c =
     (case pre_checks h (members c @ joins (env c)) ((env c)\<lparr>joins := []\<rparr>) of
        (ms, e) \<Rightarrow>
          if ms = [] then Some (0, c\<lparr>members := [], env := e\<rparr>)
          else if length ms = 1 then
            (case solo_round h (hd ms) e of
               (d, e1) \<Rightarrow>
                 if d then Some (0, c\<lparr>members := [], env := on_leave h (hd ms) e1\<rparr>)
                 else Some (1, c\<lparr>members := ms, env := e1\<rparr>))
          else if length ms > MAX_K div 2 then None
          else
            (case (case draft_widths h of Some dw \<Rightarrow> dw ms e | None \<Rightarrow> serial_widths h ms e) of
               ((want, sfx), e1) \<Rightarrow>
                 (let granted = trim_widths want sfx (cap c)
                  in case fused_round h ms granted sfx (grant_all h ms granted e1) of
                       (dn, e2) \<Rightarrow>
                         (case leave_done h (zip ms dn) e2 of
                            (ms', e3) \<Rightarrow> Some (length ms', c\<lparr>members := ms', env := e3\<rparr>)))))"

section \<open>What a round calls\<close>

text \<open>
  Hooks that record every call and answer as any function of the calls so far; \<open>js\<close> are the joins made
  during a call.  As the answers are arbitrary functions of the history, this covers every behaviour of
  the members.
\<close>

datatype event =
    Pre nat
  | Want nat
  | Suffix nat
  | Grant nat int
  | Solo nat
  | Fused "nat list" "int list" "bool list"
  | Leave nat

record answers =
  a_pre :: "event list \<Rightarrow> bool"
  a_want :: "event list \<Rightarrow> int"
  a_sfx :: "event list \<Rightarrow> bool"
  a_solo :: "event list \<Rightarrow> bool"
  a_done :: "event list \<Rightarrow> nat \<Rightarrow> bool"
  a_joins :: "event list \<Rightarrow> nat list"

definition note_ev :: "answers \<Rightarrow> event \<Rightarrow> event list env \<Rightarrow> event list env" where
  "note_ev a ev e = e\<lparr>world := world e @ [ev], joins := joins e @ a_joins a (world e @ [ev])\<rparr>"

definition recorder :: "answers \<Rightarrow> event list hooks" where
  "recorder a =
     \<lparr>pre_round = (\<lambda>m e. let e1 = note_ev a (Pre m) e in (a_pre a (world e1), e1)),
      want_width = (\<lambda>m e. let e1 = note_ev a (Want m) e in (a_want a (world e1), e1)),
      round_is_suffix = (\<lambda>m e. let e1 = note_ev a (Suffix m) e in (a_sfx a (world e1), e1)),
      set_granted = (\<lambda>m w e. note_ev a (Grant m w) e),
      solo_round = (\<lambda>m e. let e1 = note_ev a (Solo m) e in (a_solo a (world e1), e1)),
      fused_round = (\<lambda>ms ws ss e. let e1 = note_ev a (Fused ms ws ss) e in (map (a_done a (world e1)) [0..<length ms], e1)),
      on_leave = (\<lambda>m e. note_ev a (Leave m) e),
      draft_widths = None\<rparr>"

text \<open>
  The protocol: for the candidates \<open>ms0\<close> with pre-check answers \<open>bs\<close>, want widths, proposal classes
  and done flags, the calls a round makes and the members it keeps.
\<close>

definition kept :: "nat list \<Rightarrow> bool list \<Rightarrow> nat list" where
  "kept ms bs = map fst (filter snd (zip ms bs))"

definition gone :: "nat list \<Rightarrow> bool list \<Rightarrow> nat list" where
  "gone ms bs = map fst (filter (Not \<circ> snd) (zip ms bs))"

definition pre_trace :: "nat list \<Rightarrow> bool list \<Rightarrow> event list" where
  "pre_trace ms bs = concat (map (\<lambda>(m, b). if b then [Pre m] else [Pre m, Leave m]) (zip ms bs))"

definition work_trace :: "nat list \<Rightarrow> int \<Rightarrow> int list \<Rightarrow> bool list \<Rightarrow> bool list \<Rightarrow> event list" where
  "work_trace ms c want sfx ds =
     (if ms = [] then []
      else if length ms = 1 then Solo (hd ms) # map Leave (kept ms ds)
      else concat (map (\<lambda>m. [Want m, Suffix m]) ms) @ map2 Grant ms (trim_widths want sfx c) @
        [Fused ms (trim_widths want sfx c) sfx] @ map Leave (rev (kept ms ds)))"

lemma kept_Cons: "kept (m # ms) (b # bs) = (if b then m # kept ms bs else kept ms bs)"
  by (simp add: kept_def)

lemma gone_Cons: "gone (m # ms) (b # bs) = (if b then gone ms bs else m # gone ms bs)"
  by (simp add: gone_def)

lemma kept_Nil [simp]: "kept [] bs = []" "gone [] bs = []" "pre_trace [] bs = []"
  by (simp_all add: kept_def gone_def pre_trace_def)

lemma pre_trace_Cons: "pre_trace (m # ms) (b # bs) = (if b then [Pre m] else [Pre m, Leave m]) @ pre_trace ms bs"
  by (simp add: pre_trace_def)

lemma mset_kept_gone: "length bs = length ms \<Longrightarrow> mset (kept ms bs) + mset (gone ms bs) = mset ms"
  by (induction bs ms rule: list_induct2) (auto simp: kept_Cons gone_Cons)

lemma subseq_gone: "length bs = length ms \<Longrightarrow> subseq (gone ms bs) ms"
  by (induction bs ms rule: list_induct2) (auto simp: gone_Cons)

lemma subseq_kept: "length bs = length ms \<Longrightarrow> subseq (kept ms bs) ms"
  by (induction bs ms rule: list_induct2) (auto simp: kept_Cons)

lemma world_note [simp]: "world (note_ev a ev e) = world e @ [ev]"
  by (simp add: note_ev_def)

lemma pre_checks_trace:
  "\<exists>bs. length bs = length ms \<and> fst (pre_checks (recorder a) ms e) = kept ms bs \<and>
     world (snd (pre_checks (recorder a) ms e)) = world e @ pre_trace ms bs"
proof (induction ms arbitrary: e)
  case (Cons m ms)
  let ?b = "a_pre a (world e @ [Pre m])"
  let ?e = "if ?b then note_ev a (Pre m) e else note_ev a (Leave m) (note_ev a (Pre m) e)"
  obtain bs where "length bs = length ms" "fst (pre_checks (recorder a) ms ?e) = kept ms bs"
      "world (snd (pre_checks (recorder a) ms ?e)) = world ?e @ pre_trace ms bs"
    using Cons.IH by blast
  then show ?case
    by (intro exI [of _ "?b # bs"]) (auto simp: recorder_def Let_def kept_Cons pre_trace_Cons split_beta)
qed simp

lemma serial_trace:
  "length (fst (fst (serial_widths (recorder a) ms e))) = length ms \<and>
   length (snd (fst (serial_widths (recorder a) ms e))) = length ms \<and>
   world (snd (serial_widths (recorder a) ms e)) = world e @ concat (map (\<lambda>m. [Want m, Suffix m]) ms)"
  by (induction ms arbitrary: e) (auto simp: recorder_def Let_def split_beta)

lemma grant_trace:
  "length ws = length ms \<Longrightarrow> world (grant_all (recorder a) ms ws e) = world e @ map2 Grant ms ws"
  by (induction ms ws arbitrary: e rule: list_induct2') (auto simp: recorder_def)

lemma leave_trace:
  "fst (leave_done (recorder a) (zip ms ds) e) = gone ms ds \<and>
   world (snd (leave_done (recorder a) (zip ms ds) e)) = world e @ map Leave (rev (kept ms ds))"
proof (induction ms arbitrary: ds)
  case (Cons m ms)
  then show ?case by (cases ds) (auto simp: recorder_def kept_Cons gone_Cons split_beta kept_def gone_def)
qed simp

lemma length_trim: "length (trim_widths w s c) = length w"
proof -
  have "length (trim_loop w s c) = length w"
  proof (induction w s c rule: trim_loop.induct)
    case (1 w s c)
    then show ?case by (subst trim_loop.simps) (auto split: option.split)
  qed
  then show ?thesis by (simp add: trim_widths_def)
qed


end
