(* ===== verification/Sampling.thy ===== *)
theory Sampling
  imports Complex_Main Q27_Prelude
begin

text \<open>
  The host samplers, \<^verbatim>\<open>src/src/sampling.h\<close>: sampling from the full logits and from a candidate over-set,
  the served distributions, and the rejection walk of speculative decoding.  The floating-point
  operations and the random generator are a parameter: every theorem holds for whatever they compute,
  in whatever rounding; only the comparison of logits has to be an order, which is the absence of NaN.
  \<^verbatim>\<open>std::sort\<close> and \<^verbatim>\<open>std::partial_sort\<close> are an insertion sort with the same comparison.
\<close>

section \<open>Parameters\<close>

record ('f, 'd, 'r) fops =
  f_lt :: "'f \<Rightarrow> 'f \<Rightarrow> bool"
  f_eq :: "'f \<Rightarrow> 'f \<Rightarrow> bool"
  f_finite :: "'f \<Rightarrow> bool"
  f_zero :: 'f
  f_one :: 'f
  scaled :: "'f \<Rightarrow> 'f \<Rightarrow> 'd"
  d_add :: "'d \<Rightarrow> 'd \<Rightarrow> 'd"
  d_sub :: "'d \<Rightarrow> 'd \<Rightarrow> 'd"
  d_div :: "'d \<Rightarrow> 'd \<Rightarrow> 'd"
  d_scale :: "'d \<Rightarrow> 'f \<Rightarrow> 'd"
  d_exp :: "'d \<Rightarrow> 'd"
  d_finite :: "'d \<Rightarrow> bool"
  d_lt :: "'d \<Rightarrow> 'd \<Rightarrow> bool"
  d_le :: "'d \<Rightarrow> 'd \<Rightarrow> bool"
  d_zero :: 'd
  d_one :: 'd
  uniform :: "'d \<Rightarrow> 'd \<Rightarrow> 'r \<Rightarrow> 'd \<times> 'r"

record 'f sampling_params =
  temperature :: 'f
  top_p :: 'f
  top_k :: nat

datatype sample_error =
    BadTemperature
  | BadTopP
  | EmptyLogits
  | EmptyCandidates
  | ShortCandidates
  | EmptyServed
  | EmptyResidual
  | NoToken
  | FewLanes
  | DraftCount
  | ShortLanes

type_synonym 'a sres = "sample_error + 'a"

text \<open>A comparison written \<^verbatim>\<open>a > b\<close> is \<open>f_lt b a\<close>; \<^verbatim>\<open>p.top_p <= 0\<close> is a comparison of its own below.\<close>

definition f_le0 :: "('f, 'd, 'r) fops \<Rightarrow> 'f \<Rightarrow> bool" where
  "f_le0 F x \<longleftrightarrow> f_lt F x (f_zero F) \<or> f_eq F x (f_zero F)"

definition validate_sampling :: "('f, 'd, 'r) fops \<Rightarrow> 'f sampling_params \<Rightarrow> unit sres" where
  "validate_sampling F p =
     (if \<not> f_finite F (temperature p) \<or> f_lt F (temperature p) (f_zero F) then Inl BadTemperature
      else if \<not> f_finite F (top_p p) \<or> f_le0 F (top_p p) \<or> f_lt F (f_one F) (top_p p) then Inl BadTopP
      else Inr ())"

definition greedy :: "('f, 'd, 'r) fops \<Rightarrow> 'f sampling_params \<Rightarrow> bool" where
  "greedy F p \<longleftrightarrow> f_eq F (temperature p) (f_zero F) \<or> top_k p = 1"

section \<open>Ordering\<close>

text \<open>A candidate is its logit and its token; \<^verbatim>\<open>before\<close> puts the larger logit first, then the lower index.\<close>

definition earlier :: "('f, 'd, 'r) fops \<Rightarrow> 'f \<times> nat \<Rightarrow> 'f \<times> nat \<Rightarrow> bool" where
  "earlier F a b = (if \<not> f_eq F (fst a) (fst b) then f_lt F (fst b) (fst a) else snd a < snd b)"

fun insort_by :: "('a \<Rightarrow> 'a \<Rightarrow> bool) \<Rightarrow> 'a \<Rightarrow> 'a list \<Rightarrow> 'a list" where
  "insort_by lt x [] = [x]"
| "insort_by lt x (y # ys) = (if lt y x then y # insort_by lt x ys else x # y # ys)"

definition sort_by :: "('a \<Rightarrow> 'a \<Rightarrow> bool) \<Rightarrow> 'a list \<Rightarrow> 'a list" where
  "sort_by lt xs = foldr (insort_by lt) xs []"

text \<open>\<^verbatim>\<open>std::max_element\<close>, and the loop that looks for the first strict maximum.\<close>

fun max_index :: "('f, 'd, 'r) fops \<Rightarrow> 'f \<times> nat \<Rightarrow> ('f \<times> nat) list \<Rightarrow> nat" where
  "max_index F b [] = snd b"
| "max_index F b (x # xs) = max_index F (if f_lt F (fst b) (fst x) then x else b) xs"

text \<open>\<^verbatim>\<open>std::min_element\<close> under \<^verbatim>\<open>before\<close>.\<close>

fun min_by :: "('a \<Rightarrow> 'a \<Rightarrow> bool) \<Rightarrow> 'a \<Rightarrow> 'a list \<Rightarrow> 'a" where
  "min_by lt b [] = b"
| "min_by lt b (x # xs) = min_by lt (if lt x b then x else b) xs"

definition keep_count :: "'f sampling_params \<Rightarrow> nat \<Rightarrow> nat" where
  "keep_count p n = (if top_k p \<noteq> 0 then min (top_k p) n else n)"

section \<open>Weights and nucleus\<close>

definition weight_of :: "('f, 'd, 'r) fops \<Rightarrow> 'f sampling_params \<Rightarrow> 'd \<Rightarrow> 'f \<Rightarrow> 'd" where
  "weight_of F p maximum v =
     (let w = d_exp F (d_sub F (scaled F v (temperature p)) maximum) in if \<not> d_finite F w then d_zero F else w)"

definition weights_of :: "('f, 'd, 'r) fops \<Rightarrow> 'f sampling_params \<Rightarrow> ('f \<times> nat) list \<Rightarrow> 'd list" where
  "weights_of F p ord = map (weight_of F p (scaled F (fst (hd ord)) (temperature p)) \<circ> fst) ord"

definition total_of :: "('f, 'd, 'r) fops \<Rightarrow> 'd list \<Rightarrow> 'd" where
  "total_of F ws = foldl (d_add F) (d_zero F) ws"

text \<open>The \<^verbatim>\<open>do\<close> loop: at least one weight, then more while the sum is under the cutoff.\<close>

fun cutoff_loop :: "('f, 'd, 'r) fops \<Rightarrow> 'd \<Rightarrow> 'd \<Rightarrow> 'd list \<Rightarrow> nat \<times> 'd" where
  "cutoff_loop F cutoff cum [] = (0, cum)"
| "cutoff_loop F cutoff cum (w # ws) =
     (let c = d_add F cum w
      in if ws \<noteq> [] \<and> d_lt F c cutoff then (case cutoff_loop F cutoff c ws of (n, c') \<Rightarrow> (Suc n, c')) else (1, c))"

text \<open>Boundary ties: \<open>prev\<close> is the last logit retained.\<close>

fun tie_loop :: "('f, 'd, 'r) fops \<Rightarrow> 'f \<Rightarrow> 'd \<Rightarrow> ('f \<times> 'd) list \<Rightarrow> nat \<times> 'd" where
  "tie_loop F prev cum [] = (0, cum)"
| "tie_loop F prev cum ((v, w) # xs) =
     (if f_eq F v prev then (case tie_loop F v (d_add F cum w) xs of (n, c) \<Rightarrow> (Suc n, c)) else (0, cum))"

definition nucleus :: "('f, 'd, 'r) fops \<Rightarrow> 'f sampling_params \<Rightarrow> ('f \<times> nat) list \<Rightarrow> 'd list \<Rightarrow> 'd \<Rightarrow> nat \<times> 'd" where
  "nucleus F p ord ws tot =
     (if f_lt F (top_p p) (f_one F) then
        (case cutoff_loop F (d_scale F tot (top_p p)) (d_zero F) ws of
           (n, cum) \<Rightarrow>
             (case tie_loop F (fst (ord ! (n - 1))) cum (drop n (zip (map fst ord) ws)) of (k, cum') \<Rightarrow> (n + k, cum')))
      else (length ws, tot))"

text \<open>The walk that turns a draw into a token; the last one catches a rounding remainder.\<close>

fun walk :: "('f, 'd, 'r) fops \<Rightarrow> 'd \<Rightarrow> nat \<Rightarrow> (nat \<times> 'd) list \<Rightarrow> nat" where
  "walk F draw lst [] = lst"
| "walk F draw lst ((t, w) # xs) =
     (let d = d_sub F draw w in if d_le F d (d_zero F) then t else walk F d lst xs)"

definition draw_from ::
  "('f, 'd, 'r) fops \<Rightarrow> 'f sampling_params \<Rightarrow> nat \<Rightarrow> ('f \<times> nat) list \<Rightarrow> 'r \<Rightarrow> nat \<times> 'r" where
  "draw_from F p argmax ord r =
     (let ws = weights_of F p ord; tot = total_of F ws
      in if \<not> d_lt F (d_zero F) tot then (argmax, r)
         else case nucleus F p ord ws tot of
                (n, tot') \<Rightarrow>
                  (case uniform F (d_zero F) tot' r of
                     (d, r') \<Rightarrow> (walk F d (snd (last (take n ord))) (zip (map snd (take n ord)) (take n ws)), r')))"

section \<open>The samplers\<close>

definition row :: "'f list \<Rightarrow> ('f \<times> nat) list" where
  "row logits = zip logits [0..<length logits]"

definition sample_logits_cpu :: "('f, 'd, 'r) fops \<Rightarrow> 'f list \<Rightarrow> 'f sampling_params \<Rightarrow> 'r \<Rightarrow> (nat \<times> 'r) sres" where
  "sample_logits_cpu F logits p r =
     rbind (validate_sampling F p) (\<lambda>_.
       if logits = [] then Inl EmptyLogits
       else let argmax = max_index F (hd (row logits)) (List.tl (row logits))
            in if greedy F p then Inr (argmax, r)
               else Inr (draw_from F p argmax (take (keep_count p (length logits)) (sort_by (earlier F) (row logits))) r))"

definition sample_candidates_cpu ::
  "('f, 'd, 'r) fops \<Rightarrow> 'f list \<Rightarrow> nat list \<Rightarrow> nat \<Rightarrow> 'f sampling_params \<Rightarrow> 'r \<Rightarrow> (nat \<times> 'r) sres" where
  "sample_candidates_cpu F vals indices cnt p r =
     rbind (validate_sampling F p) (\<lambda>_.
       if cnt = 0 then Inl EmptyCandidates
       else if length vals < cnt \<or> length indices < cnt then Inl ShortCandidates
       else let cands = zip (take cnt vals) (take cnt indices);
                argmax = snd (min_by (earlier F) (hd cands) (List.tl cands))
            in if greedy F p then Inr (argmax, r)
               else Inr (draw_from F p argmax (take (keep_count p cnt) (sort_by (earlier F) cands)) r))"

section \<open>Served distributions\<close>

record 'd served =
  s_tokens :: "nat list"
  s_weights :: "'d list"
  s_total :: 'd
  argmax_token :: nat

definition served_from ::
  "('f, 'd, 'r) fops \<Rightarrow> 'f sampling_params \<Rightarrow> nat \<Rightarrow> ('f \<times> nat) list \<Rightarrow> 'd served" where
  "served_from F p argmax ord =
     (let ws = weights_of F p ord; tot = total_of F ws;
          point = \<lparr>s_tokens = [argmax], s_weights = [d_one F], s_total = d_one F, argmax_token = argmax\<rparr>
      in if \<not> d_lt F (d_zero F) tot then point
         else case nucleus F p ord ws tot of
                (n, tot') \<Rightarrow>
                  \<lparr>s_tokens = map snd (take n ord), s_weights = take n ws, s_total = tot', argmax_token = argmax\<rparr>)"

definition build_served_distribution :: "('f, 'd, 'r) fops \<Rightarrow> 'f list \<Rightarrow> 'f sampling_params \<Rightarrow> 'd served sres" where
  "build_served_distribution F logits p =
     rbind (validate_sampling F p) (\<lambda>_.
       if logits = [] then Inl EmptyLogits
       else let argmax = max_index F (hd (row logits)) (List.tl (row logits))
            in if greedy F p
               then Inr \<lparr>s_tokens = [argmax], s_weights = [d_one F], s_total = d_one F, argmax_token = argmax\<rparr>
               else Inr (served_from F p argmax (take (keep_count p (length logits)) (sort_by (earlier F) (row logits)))))"

definition build_served_from_candidates ::
  "('f, 'd, 'r) fops \<Rightarrow> 'f list \<Rightarrow> nat list \<Rightarrow> nat \<Rightarrow> 'f sampling_params \<Rightarrow> 'd served sres" where
  "build_served_from_candidates F vals indices cnt p =
     rbind (validate_sampling F p) (\<lambda>_.
       if cnt = 0 then Inl EmptyCandidates
       else let cands = zip (take cnt vals) (take cnt indices);
                argmax = snd (min_by (earlier F) (hd cands) (List.tl cands))
            in if greedy F p
               then Inr \<lparr>s_tokens = [argmax], s_weights = [d_one F], s_total = d_one F, argmax_token = argmax\<rparr>
               else Inr (served_from F p argmax (take (keep_count p cnt) (sort_by (earlier F) cands))))"

fun find_weight :: "nat \<Rightarrow> (nat \<times> 'd) list \<Rightarrow> 'd option" where
  "find_weight t [] = None"
| "find_weight t ((u, w) # xs) = (if u = t then Some w else find_weight t xs)"

definition served_probability :: "('f, 'd, 'r) fops \<Rightarrow> 'd served \<Rightarrow> nat \<Rightarrow> 'd" where
  "served_probability F d token =
     (if \<not> d_lt F (d_zero F) (s_total d) then d_zero F
      else case find_weight token (zip (s_tokens d) (s_weights d)) of
             None \<Rightarrow> d_zero F
           | Some w \<Rightarrow> d_div F w (s_total d))"

text \<open>The cast of a token to a signed 32-bit integer.\<close>

definition to_i32 :: "nat \<Rightarrow> int" where
  "to_i32 t = (if int t mod 2 ^ 32 < 2 ^ 31 then int t mod 2 ^ 32 else int t mod 2 ^ 32 - 2 ^ 32)"

definition kept_token :: "int \<Rightarrow> nat \<Rightarrow> bool" where
  "kept_token excl t \<longleftrightarrow> excl < 0 \<or> to_i32 t \<noteq> excl"

definition sample_served :: "('f, 'd, 'r) fops \<Rightarrow> 'd served \<Rightarrow> int \<Rightarrow> 'r \<Rightarrow> (nat \<times> 'r) sres" where
  "sample_served F d excl r =
     (if s_tokens d = [] then Inl EmptyServed
      else let xs = filter (\<lambda>(t, w). kept_token excl t) (zip (s_tokens d) (s_weights d));
               tot = total_of F (map snd xs)
           in if \<not> d_lt F (d_zero F) tot
              then (if excl \<ge> 0 then Inl EmptyResidual else Inr (argmax_token d, r))
              else case uniform F (d_zero F) tot r of
                     (u, r') \<Rightarrow>
                       (case filter (kept_token excl) (s_tokens d) of
                          [] \<Rightarrow> Inl NoToken
                        | ts \<Rightarrow> Inr (walk F u (last ts) xs, r')))"

section \<open>The rejection walk\<close>

record spec_result =
  r_n :: nat
  stop_lane :: nat
  r_exclude :: int
  r_pending :: nat

text \<open>The lanes from \<open>k\<close> on: the lane the walk stops at and what it excludes.\<close>

fun accept_walk ::
  "('f, 'd, 'r) fops \<Rightarrow> 'd served list \<Rightarrow> nat list \<Rightarrow> nat \<Rightarrow> 'r \<Rightarrow> (nat \<times> int) \<times> 'r" where
  "accept_walk F ds [] k r = ((k, - 1), r)"
| "accept_walk F ds (t # ts) k r =
     (case uniform F (d_zero F) (d_one F) r of
        (u, r') \<Rightarrow>
          if d_lt F u (served_probability F (ds ! k) t) then accept_walk F ds ts (Suc k) r'
          else ((k, to_i32 t), r'))"

definition spec_rejection_accept ::
  "('f, 'd, 'r) fops \<Rightarrow> 'd served list \<Rightarrow> nat list \<Rightarrow> 'r \<Rightarrow> (spec_result \<times> 'r) sres" where
  "spec_rejection_accept F lane_dists drafts r =
     (if length lane_dists < 2 then Inl FewLanes
      else case accept_walk F lane_dists (take (length lane_dists - 1) drafts) 0 r of
             ((stop, excl), r1) \<Rightarrow>
               rbind (sample_served F (lane_dists ! stop) excl r1) (\<lambda>(t, r2).
                 Inr (\<lparr>r_n = stop + 1, stop_lane = stop, r_exclude = excl, r_pending = t\<rparr>, r2)))"

fun served_lanes :: "('f, 'd, 'r) fops \<Rightarrow> 'f sampling_params \<Rightarrow> nat \<Rightarrow> nat \<Rightarrow> 'f list \<Rightarrow> 'd served list sres" where
  "served_lanes F p vocab 0 logits = Inr []"
| "served_lanes F p vocab (Suc live) logits =
     rbind (build_served_distribution F (take vocab logits) p) (\<lambda>d.
       rbind (served_lanes F p vocab live (drop vocab logits)) (\<lambda>ds. Inr (d # ds)))"

definition spec_rejection_logits ::
  "('f, 'd, 'r) fops \<Rightarrow> 'f list \<Rightarrow> nat \<Rightarrow> nat \<Rightarrow> nat list \<Rightarrow> 'f sampling_params \<Rightarrow> 'r \<Rightarrow> (spec_result \<times> 'r) sres" where
  "spec_rejection_logits F lanes_logits live vocab drafts p r =
     (if length drafts + 1 \<noteq> live then Inl DraftCount
      else if length lanes_logits < live * vocab then Inl ShortLanes
      else rbind (validate_sampling F p) (\<lambda>_.
        if live < 2 then Inl FewLanes
        else rbind (served_lanes F p vocab live lanes_logits) (\<lambda>ds. spec_rejection_accept F ds drafts r)))"

section \<open>Sorting\<close>

lemma set_insort_by [simp]: "set (insort_by lt x xs) = insert x (set xs)"
  by (induction xs) auto

lemma set_sort_by [simp]: "set (sort_by lt xs) = set xs"
  by (induction xs) (auto simp: sort_by_def)

lemma length_sort_by [simp]: "length (sort_by lt xs) = length xs"
proof -
  have "length (insort_by lt x ys) = Suc (length ys)" for x ys by (induction ys) auto
  then show ?thesis by (induction xs) (auto simp: sort_by_def)
qed

text \<open>A strict total order on a set.\<close>

definition strict_total :: "('a \<Rightarrow> 'a \<Rightarrow> bool) \<Rightarrow> 'a set \<Rightarrow> bool" where
  "strict_total lt S \<longleftrightarrow>
     (\<forall>a\<in>S. \<not> lt a a) \<and> (\<forall>a\<in>S. \<forall>b\<in>S. \<forall>c\<in>S. lt a b \<longrightarrow> lt b c \<longrightarrow> lt a c) \<and>
     (\<forall>a\<in>S. \<forall>b\<in>S. a \<noteq> b \<longrightarrow> lt a b \<or> lt b a)"

lemma strict_total_subset: "strict_total lt S \<Longrightarrow> T \<subseteq> S \<Longrightarrow> strict_total lt T"
  unfolding strict_total_def by blast

lemma sorted_insort_by:
  assumes "strict_total lt (insert x (set ys))" "x \<notin> set ys" "sorted_wrt lt ys"
  shows "sorted_wrt lt (insort_by lt x ys)"
  using assms
proof (induction ys)
  case (Cons y ys)
  have IH: "sorted_wrt lt (insort_by lt x ys)"
    using Cons strict_total_subset [OF Cons.prems(1)] by (intro Cons.IH) auto
  show ?case
  proof (cases "lt y x")
    case True
    then show ?thesis using Cons.prems IH by auto
  next
    case False
    have xy: "lt x y" using Cons.prems(1,2) False unfolding strict_total_def by auto
    have "lt x z" if "z \<in> set ys" for z
    proof -
      have "lt y z" using Cons.prems(3) that by simp
      then show ?thesis using xy Cons.prems(1) that unfolding strict_total_def by (meson insertCI list.set_intros)
    qed
    then show ?thesis using False xy Cons.prems(3) by simp
  qed
qed simp

lemma sorted_sort_by: "strict_total lt (set xs) \<Longrightarrow> distinct xs \<Longrightarrow> sorted_wrt lt (sort_by lt xs)"
proof (induction xs)
  case (Cons x xs)
  then have "sorted_wrt lt (sort_by lt xs)" using strict_total_subset [OF Cons.prems(1)] by auto
  then show ?case
    using sorted_insort_by [of lt x "sort_by lt xs"] Cons.prems by (simp add: sort_by_def [of lt "x # xs"]) (simp add: sort_by_def)
qed (simp add: sort_by_def)

lemma sorted_unique:
  assumes "strict_total lt S" "set xs \<subseteq> S" "sorted_wrt lt xs" "sorted_wrt lt ys" "set xs = set ys"
  shows "xs = ys"
  using assms
proof (induction xs arbitrary: ys)
  case (Cons x xs)
  then obtain y ys' where ys: "ys = y # ys'" by (cases ys) auto
  have irr: "\<And>a. a \<in> S \<Longrightarrow> \<not> lt a a" and tr: "\<And>a b. a \<in> S \<Longrightarrow> b \<in> S \<Longrightarrow> lt a b \<Longrightarrow> \<not> lt b a"
    using Cons.prems(1) unfolding strict_total_def by blast+
  have inS: "x \<in> S" "y \<in> S" "set xs \<subseteq> S" "set ys' \<subseteq> S" using Cons.prems ys by auto
  have "x = y"
  proof (rule ccontr)
    assume "x \<noteq> y"
    then have "x \<in> set ys'" "y \<in> set xs" using Cons.prems(5) ys by auto
    then have "lt y x" "lt x y" using Cons.prems(3,4) ys by auto
    then show False using tr inS by blast
  qed
  moreover have "x \<notin> set xs" "y \<notin> set ys'" using Cons.prems(3,4) ys irr inS by auto
  ultimately have "set xs = set ys'" using Cons.prems(5) ys by auto
  then show ?case using Cons.IH [of ys'] Cons.prems ys \<open>x = y\<close> by auto
qed auto

section \<open>The candidate path is the full path\<close>

text \<open>No NaN among the logits: the comparisons agree with an order of ranks (equal for the two zeros).\<close>

definition ranked :: "('f, 'd, 'r) fops \<Rightarrow> ('f \<Rightarrow> real) \<Rightarrow> 'f set \<Rightarrow> bool" where
  "ranked F rank S \<longleftrightarrow>
     (\<forall>a\<in>S. \<forall>b\<in>S. (f_lt F a b \<longleftrightarrow> rank a < rank b) \<and> (f_eq F a b \<longleftrightarrow> rank a = rank b))"

lemma earlier_ranked:
  assumes "ranked F rank (fst ` S)" "x \<in> S" "y \<in> S"
  shows "earlier F x y \<longleftrightarrow> rank (fst y) < rank (fst x) \<or> rank (fst x) = rank (fst y) \<and> snd x < snd y"
proof -
  have e: "f_eq F (fst x) (fst y) \<longleftrightarrow> rank (fst x) = rank (fst y)" "f_lt F (fst y) (fst x) \<longleftrightarrow> rank (fst y) < rank (fst x)"
    using assms unfolding ranked_def by blast+
  show ?thesis unfolding earlier_def e by auto
qed

lemma earlier_total:
  assumes r: "ranked F rank (fst ` S)" and inj: "inj_on snd S"
  shows "strict_total (earlier F) S"
  unfolding strict_total_def
proof (intro conjI ballI impI)
  note e = earlier_ranked [OF r]
  fix a b c assume S: "a \<in> S" "b \<in> S" "c \<in> S"
  show "\<not> earlier F a a" using e S by simp
  show "earlier F a b \<Longrightarrow> earlier F b c \<Longrightarrow> earlier F a c" using e S by auto
next
  note e = earlier_ranked [OF r]
  fix a b assume S: "a \<in> S" "b \<in> S" and "a \<noteq> b"
  then have "snd a \<noteq> snd b" using inj by (auto dest: inj_onD)
  then show "earlier F a b \<or> earlier F b a" using e S by auto
qed

lemma min_by_least:
  assumes "strict_total lt (set (b # xs))"
  shows "min_by lt b xs \<in> set (b # xs) \<and> (\<forall>y\<in>set (b # xs). y \<noteq> min_by lt b xs \<longrightarrow> lt (min_by lt b xs) y)"
  using assms
proof (induction xs arbitrary: b)
  case (Cons x xs)
  define c where "c = (if lt x b then x else b)"
  define o' where "o' = (if lt x b then b else x)"
  define m where "m = min_by lt c xs"
  have co': "set (b # x # xs) = insert o' (set (c # xs))" by (auto simp: c_def o'_def)
  have sub: "set (c # xs) \<subseteq> set (b # x # xs)" unfolding co' by blast
  have IH: "m \<in> set (c # xs)" "\<And>y. y \<in> set (c # xs) \<Longrightarrow> y \<noteq> m \<Longrightarrow> lt m y"
    using Cons.IH [OF strict_total_subset [OF Cons.prems sub]] unfolding m_def by blast+
  have tr: "u \<in> set (b # x # xs) \<Longrightarrow> v \<in> set (b # x # xs) \<Longrightarrow> w \<in> set (b # x # xs) \<Longrightarrow> lt u v \<Longrightarrow> lt v w \<Longrightarrow> lt u w" for u v w
    using Cons.prems unfolding strict_total_def by blast
  have "b \<noteq> x \<Longrightarrow> lt b x \<or> lt x b" using Cons.prems unfolding strict_total_def by simp
  then have co: "lt c o' \<or> c = o'" by (auto simp: c_def o'_def)
  have mem: "c \<in> set (b # x # xs)" "o' \<in> set (b # x # xs)" "m \<in> set (b # x # xs)" using IH(1) sub co' by auto
  have "o' \<noteq> m \<Longrightarrow> lt m o'" using co IH(2) [of c] tr [OF mem(3,1,2)] by auto
  then have "\<forall>y\<in>set (b # x # xs). y \<noteq> m \<longrightarrow> lt m y" unfolding co' using IH(2) by blast
  moreover have "min_by lt b (x # xs) = m" by (simp add: m_def c_def)
  ultimately show ?case using mem(3) by simp
qed simp

lemma min_by_sorted:
  assumes "strict_total lt (set (b # xs))" "distinct (b # xs)"
  shows "min_by lt b xs = hd (sort_by lt (b # xs))"
proof -
  let ?s = "sort_by lt (b # xs)"
  have s: "sorted_wrt lt ?s" "set ?s = set (b # xs)" by (rule sorted_sort_by [OF assms], simp)
  then obtain h t where ht: "?s = h # t" by (metis list.exhaust list.set_intros(1) list.set(1) empty_iff)
  show ?thesis
  proof (rule ccontr)
    assume "min_by lt b xs \<noteq> hd ?s"
    then have m: "min_by lt b xs \<noteq> h" using ht by simp
    have "min_by lt b xs \<in> set t" using min_by_least [OF assms(1)] s(2) ht m by auto
    then have "lt h (min_by lt b xs)" using s(1) ht by simp
    moreover have h: "h \<in> set (b # xs)" "min_by lt b xs \<in> set (b # xs)"
      using s(2) ht min_by_least [OF assms(1)] by auto
    moreover have "lt (min_by lt b xs) h" using min_by_least [OF assms(1)] h(1) m by metis
    ultimately show False using assms(1) unfolding strict_total_def by blast
  qed
qed

text \<open>The first strict maximum is the first of the order, as the indices ascend.\<close>

lemma max_index_min:
  assumes "ranked F rank (fst ` set (b # xs))" "sorted_wrt (<) (map snd (b # xs))"
  shows "max_index F b xs = snd (min_by (earlier F) b xs)"
  using assms
proof (induction xs arbitrary: b)
  case (Cons x xs)
  have "earlier F x b \<longleftrightarrow> f_lt F (fst b) (fst x)"
    using earlier_ranked [OF Cons.prems(1), of x b] Cons.prems by (auto simp: ranked_def)
  then have c: "(if earlier F x b then x else b) = (if f_lt F (fst b) (fst x) then x else b)" by simp
  have "ranked F rank (fst ` set ((if f_lt F (fst b) (fst x) then x else b) # xs))"
    using Cons.prems(1) by (auto simp: ranked_def)
  then show ?case using Cons.IH [of "if f_lt F (fst b) (fst x) then x else b"] Cons.prems(2) c by (auto split: if_splits)
qed simp

lemma sort_by_filter:
  assumes "strict_total lt (set xs)" "distinct xs" "distinct ys" "set ys \<subseteq> set xs"
  shows "sort_by lt ys = filter (\<lambda>x. x \<in> set ys) (sort_by lt xs)"
proof (rule sorted_unique [OF assms(1)])
  show "set (sort_by lt ys) \<subseteq> set xs" using assms(4) by simp
  show "sorted_wrt lt (sort_by lt ys)" by (rule sorted_sort_by [OF strict_total_subset [OF assms(1,4)] assms(3)])
  show "sorted_wrt lt (filter (\<lambda>x. x \<in> set ys) (sort_by lt xs))"
    by (rule sorted_wrt_filter [OF sorted_sort_by [OF assms(1,2)]])
qed (use assms(4) in auto)

lemma take_over:
  assumes "strict_total lt (set xs)" "distinct xs" "distinct ys" "set ys \<subseteq> set xs"
    and top: "set (take k (sort_by lt xs)) \<subseteq> set ys"
  shows "take k (sort_by lt ys) = take k (sort_by lt xs)"
proof -
  let ?s = "sort_by lt xs" and ?P = "\<lambda>x. x \<in> set ys"
  have "filter ?P ?s = filter ?P (take k ?s) @ filter ?P (drop k ?s)" by (metis append_take_drop_id filter_append)
  also have "filter ?P (take k ?s) = take k ?s" using top by (auto intro: filter_True)
  finally have "take k (filter ?P ?s) = take k (take k ?s @ filter ?P (drop k ?s))" by simp
  also have "\<dots> = take k ?s"
    by (cases "k \<le> length ?s") (simp_all add: min_def)
  finally show ?thesis using sort_by_filter [OF assms(1-4)] by simp
qed

text \<open>
  An over-set: candidates of the row, each once, among them the tokens the sampler keeps.
\<close>

definition over_set :: "('f, 'd, 'r) fops \<Rightarrow> 'f sampling_params \<Rightarrow> 'f list \<Rightarrow> ('f \<times> nat) list \<Rightarrow> bool" where
  "over_set F p logits cands \<longleftrightarrow>
     distinct cands \<and> set cands \<subseteq> set (row logits) \<and>
     set (take (keep_count p (length logits)) (sort_by (earlier F) (row logits))) \<subseteq> set cands"

lemma row_facts:
  "distinct (row logits)" "inj_on snd (set (row logits))" "fst ` set (row logits) = set logits"
  "length (row logits) = length logits" "map snd (row logits) = [0..<length logits]"
proof -
  show m: "map snd (row logits) = [0..<length logits]" by (simp add: row_def)
  then have "distinct (map snd (row logits))" by simp
  then show "distinct (row logits)" "inj_on snd (set (row logits))" by (auto simp: distinct_map)
  have "map fst (row logits) = logits" by (simp add: row_def)
  then show "fst ` set (row logits) = set logits" by (metis list.set_map)
qed (simp add: row_def)

lemma over_set_keeps:
  assumes r: "ranked F rank (set logits)" and o: "over_set F p logits cands" and ne: "logits \<noteq> []"
  shows "take (keep_count p (length cands)) (sort_by (earlier F) cands) =
      take (keep_count p (length logits)) (sort_by (earlier F) (row logits))"
    "cands \<noteq> []" "snd (min_by (earlier F) (hd cands) (List.tl cands)) = max_index F (hd (row logits)) (List.tl (row logits))"
proof -
  let ?R = "row logits" and ?k = "keep_count p (length logits)"
  have st: "strict_total (earlier F) (set ?R)"
    by (rule earlier_total [of F rank]) (simp_all add: row_facts r)
  have d: "distinct cands" "set cands \<subseteq> set ?R" "set (take ?k (sort_by (earlier F) ?R)) \<subseteq> set cands"
    using o by (simp_all add: over_set_def)
  note tk = take_over [OF st row_facts(1) d]
  have kn: "?k \<le> length logits" "1 \<le> ?k" using ne by (auto simp: keep_count_def Suc_le_eq)
  have "distinct (take ?k (sort_by (earlier F) ?R))"
    using sorted_sort_by [OF st row_facts(1)] by (metis card_distinct distinct_card distinct_take length_sort_by row_facts(1) set_sort_by)
  then have "?k \<le> card (set (take ?k (sort_by (earlier F) ?R)))"
    using kn by (simp add: distinct_card row_facts)
  also have "\<dots> \<le> length cands" using card_mono [OF _ d(3)] distinct_card [OF d(1)] by simp
  finally have k1: "?k \<le> length cands" .
  have k2: "length cands \<le> length logits"
    using card_mono [OF _ d(2)] distinct_card [OF d(1)] distinct_card [OF row_facts(1), of logits] by (simp add: row_facts)
  have kc: "keep_count p (length cands) = ?k" using k1 k2 by (auto simp: keep_count_def min_def split: if_splits)
  show 1: "take (keep_count p (length cands)) (sort_by (earlier F) cands) = take ?k (sort_by (earlier F) ?R)"
    unfolding kc by (rule tk)
  show ce: "cands \<noteq> []" using k1 kn by auto
  have Re: "?R \<noteq> []" using ne row_facts(4) by (metis length_0_conv)
  have "hd (sort_by (earlier F) cands) = hd (sort_by (earlier F) ?R)"
    using 1 kc kn(2) by (metis hd_take le_neq_implies_less not_one_le_zero zero_le)
  moreover have "min_by (earlier F) (hd cands) (List.tl cands) = hd (sort_by (earlier F) cands)"
    using min_by_sorted [of "earlier F" "hd cands" "List.tl cands"] strict_total_subset [OF st d(2)] d(1) ce by simp
  moreover have "min_by (earlier F) (hd ?R) (List.tl ?R) = hd (sort_by (earlier F) ?R)"
    using min_by_sorted [of "earlier F" "hd ?R" "List.tl ?R"] st row_facts(1) [of logits] Re by simp
  moreover have "max_index F (hd ?R) (List.tl ?R) = snd (min_by (earlier F) (hd ?R) (List.tl ?R))"
  proof (rule max_index_min)
    show "ranked F rank (fst ` set (hd ?R # List.tl ?R))" using r row_facts(3) Re by (metis list.collapse)
    show "sorted_wrt (<) (map snd (hd ?R # List.tl ?R))"
      using row_facts(5) Re by (metis list.collapse sorted_wrt_upt)
  qed
  ultimately show "snd (min_by (earlier F) (hd cands) (List.tl cands)) = max_index F (hd ?R) (List.tl ?R)" by simp
qed

text \<open>
  C35: sampling from the candidates is sampling from the logits.  When the candidate list is an over-set
  of what the sampler keeps and no logit is NaN, both samplers return the same token and leave the
  random generator in the same state, and both builders serve the same distribution, for any
  floating-point arithmetic, ties and errors included.
\<close>

theorem candidates_equal_logits:
  assumes "ranked F rank (set logits)" "logits \<noteq> []" "length vals = length indices"
    and "over_set F p logits (zip vals indices)"
  shows "sample_candidates_cpu F vals indices (length vals) p r = sample_logits_cpu F logits p r \<and>
    build_served_from_candidates F vals indices (length vals) p = build_served_distribution F logits p"
proof -
  note k = over_set_keeps [OF assms(1,4,2)]
  have "vals \<noteq> []" using k(2) by auto
  then show ?thesis
    using k assms(2,3)
    by (simp add: sample_candidates_cpu_def sample_logits_cpu_def build_served_from_candidates_def
        build_served_distribution_def Let_def)
qed

definition demo_fops :: "(int, int, nat) fops" where
  "demo_fops = \<lparr>f_lt = (<), f_eq = (=), f_finite = (\<lambda>_. True), f_zero = 0, f_one = 10, scaled = (\<lambda>v t. v * t),
     d_add = (+), d_sub = (-), d_div = (div), d_scale = (*), d_exp = (\<lambda>x. 100 + x), d_finite = (\<lambda>_. True),
     d_lt = (<), d_le = (\<le>), d_zero = 0, d_one = 1, uniform = (\<lambda>lo hi r. (int (r mod 97), Suc r))\<rparr>"

definition demo_params :: "int sampling_params" where
  "demo_params = \<lparr>temperature = 2, top_p = 10, top_k = 2\<rparr>"

theorem candidates_equal_logits_witness:
  "sample_candidates_cpu demo_fops [7, 5, 9] [3, 0, 1] 3 demo_params 4 = sample_logits_cpu demo_fops [5, 9, 5, 7] demo_params 4 \<and>
   sample_logits_cpu demo_fops [5, 9, 5, 7] demo_params 4 = Inr (1, 5)"
proof -
  have r: "ranked demo_fops real_of_int (set [5, 9, 5, 7])" by (simp add: ranked_def demo_fops_def)
  have o: "over_set demo_fops demo_params [5, 9, 5, 7] (zip [7, 5, 9] [3, 0, 1])" by code_simp
  have "sample_logits_cpu demo_fops [5, 9, 5, 7] demo_params 4 = Inr (1, 5)" by code_simp
  then show ?thesis
    using candidates_equal_logits [OF r _ _ o, of 4] by (simp add: numeral_3_eq_3)
qed

section \<open>The served distribution is what the sampler draws from\<close>

text \<open>The nucleus sums exactly the weights it retains, in their order.\<close>

lemma cutoff_loop_sum:
  "cutoff_loop F cutoff cum ws = (n, c) \<Longrightarrow> n \<le> length ws \<and> c = foldl (d_add F) cum (take n ws) \<and> (ws \<noteq> [] \<longrightarrow> 0 < n)"
proof (induction F cutoff cum ws arbitrary: n c rule: cutoff_loop.induct)
  case (2 F cutoff cum w ws)
  show ?case
  proof (cases "ws \<noteq> [] \<and> d_lt F (d_add F cum w) cutoff")
    case True
    then obtain n' where "cutoff_loop F cutoff (d_add F cum w) ws = (n', c)" "n = Suc n'"
      using "2.prems" by (auto simp: Let_def split: prod.splits)
    then show ?thesis using "2.IH" [OF refl True] by simp
  next
    case False
    then show ?thesis using "2.prems" by (auto simp: Let_def)
  qed
qed simp

lemma tie_loop_sum:
  "tie_loop F prev cum xs = (n, c) \<Longrightarrow> n \<le> length xs \<and> c = foldl (d_add F) cum (map snd (take n xs))"
proof (induction F prev cum xs arbitrary: n c rule: tie_loop.induct)
  case (2 F prev cum v w xs)
  then show ?case by (auto split: if_splits prod.splits)
qed simp

lemma nucleus_sum:
  assumes "nucleus F p ord ws (total_of F ws) = (n, c)" "length ord = length ws" "ws \<noteq> []"
  shows "0 < n \<and> n \<le> length ws \<and> c = total_of F (take n ws)"
proof (cases "f_lt F (top_p p) (f_one F)")
  case True
  obtain k1 c1 where 1: "cutoff_loop F (d_scale F (total_of F ws) (top_p p)) (d_zero F) ws = (k1, c1)" by fastforce
  let ?rest = "drop k1 (zip (map fst ord) ws)"
  obtain k2 c2 where 2: "tie_loop F (fst (ord ! (k1 - 1))) c1 ?rest = (k2, c2)" by fastforce
  have n: "n = k1 + k2" "c = c2" using assms(1) True 1 2 by (simp_all add: nucleus_def)
  note s1 = cutoff_loop_sum [OF 1] and s2 = tie_loop_sum [OF 2]
  have "map snd ?rest = drop k1 ws" using assms(2) by (simp add: drop_map [symmetric])
  then have "map snd (take k2 ?rest) = take k2 (drop k1 ws)" by (metis take_map)
  then have "c2 = foldl (d_add F) (d_zero F) (take k1 ws @ take k2 (drop k1 ws))" using s1 s2 by simp
  then show ?thesis using s1 s2 n assms(2,3) by (auto simp: total_of_def take_add)
next
  case False
  then show ?thesis using assms by (auto simp: nucleus_def)
qed

lemma kept_all [simp]: "kept_token (- 1) t"
  by (simp add: kept_token_def)

lemma walk_single: "walk F u t [(t, w)] = t"
  by (simp add: Let_def)

lemma weights_length [simp]: "length (weights_of F p ord) = length ord"
  by (simp add: weights_of_def)

lemma served_draw:
  assumes ne: "ord \<noteq> []" and pos: "d_lt F (d_zero F) (s_total (served_from F p argmax ord))"
  shows "\<exists>r'. sample_served F (served_from F p argmax ord) (- 1) r = Inr (fst (draw_from F p argmax ord r), r')"
proof -
  let ?ws = "weights_of F p ord"
  show ?thesis
  proof (cases "d_lt F (d_zero F) (total_of F ?ws)")
    case False
    then show ?thesis
      by (auto simp: served_from_def draw_from_def sample_served_def Let_def split: prod.split)
  next
    case True
    obtain n c where n: "nucleus F p ord ?ws (total_of F ?ws) = (n, c)" by fastforce
    have s: "0 < n" "n \<le> length ord" "c = total_of F (take n ?ws)"
      using nucleus_sum [OF n] ne by (auto simp: weights_of_def)
    let ?ts = "map snd (take n ord)"
    have ts: "?ts \<noteq> []" "length ?ts = length (take n ?ws)" using s ne by auto
    have z: "map snd (zip ?ts (take n ?ws)) = take n ?ws" using ts(2) by simp
    have d: "served_from F p argmax ord = \<lparr>s_tokens = ?ts, s_weights = take n ?ws, s_total = c, argmax_token = argmax\<rparr>"
      using True n by (simp add: served_from_def Let_def)
    have "d_lt F (d_zero F) c" using pos d by simp
    moreover have "last ?ts = snd (last (take n ord))" using ts by (simp add: last_map)
    ultimately show ?thesis
      using True n ts z s(3) unfolding d sample_served_def draw_from_def Let_def
      by (auto split: prod.split list.split simp del: take_map)
  qed
qed

text \<open>
  The served distribution is the one plain sampling uses.  For every row of logits, parameters and
  arithmetic, when the served mass is positive, drawing from the distribution that the speculative
  path serves, with nothing excluded, returns the token that the plain sampler returns from the same
  generator state.
\<close>

theorem served_matches_sampler:
  assumes "build_served_distribution F logits p = Inr d" "d_lt F (d_zero F) (s_total d)"
  shows "\<exists>t r1 r2. sample_served F d (- 1) r = Inr (t, r1) \<and> sample_logits_cpu F logits p r = Inr (t, r2)"
proof -
  let ?a = "max_index F (hd (row logits)) (List.tl (row logits))"
  let ?ord = "take (keep_count p (length logits)) (sort_by (earlier F) (row logits))"
  have v: "validate_sampling F p = Inr ()" and ne: "logits \<noteq> []"
    using assms(1) by (auto simp: build_served_distribution_def rbind_def split: sum.splits if_splits)
  show ?thesis
  proof (cases "greedy F p")
    case True
    then have "d = \<lparr>s_tokens = [?a], s_weights = [d_one F], s_total = d_one F, argmax_token = ?a\<rparr>"
      using assms(1) v ne by (simp add: build_served_distribution_def Let_def)
    then show ?thesis
      using True v ne by (auto simp: sample_served_def sample_logits_cpu_def Let_def split: prod.split)
  next
    case False
    then have d: "d = served_from F p ?a ?ord" using assms(1) v ne by (simp add: build_served_distribution_def Let_def)
    have "0 < keep_count p (length logits)" using ne by (simp add: keep_count_def)
    then have "0 < length ?ord" using ne by (simp add: row_def)
    then have "?ord \<noteq> []" by blast
    from served_draw [OF this assms(2) [unfolded d], of r]
    show ?thesis using False v ne d by (auto simp: sample_logits_cpu_def Let_def) (metis prod.collapse)
  qed
qed

theorem served_matches_sampler_witness:
  "\<exists>d t r1 r2. build_served_distribution demo_fops [5, 9, 5, 7] demo_params = Inr d \<and>
     sample_served demo_fops d (- 1) 4 = Inr (t, r1) \<and> sample_logits_cpu demo_fops [5, 9, 5, 7] demo_params 4 = Inr (t, r2)"
proof -
  let ?d = "\<lparr>s_tokens = [1, 3], s_weights = [100, 96], s_total = 196, argmax_token = 1\<rparr> :: int served"
  have b: "build_served_distribution demo_fops [5, 9, 5, 7] demo_params = Inr ?d" by code_simp
  have "d_lt demo_fops (d_zero demo_fops) (s_total ?d)" by (simp add: demo_fops_def)
  from served_matches_sampler [OF b this, of 4] b show ?thesis by blast
qed

section \<open>The walk of speculative decoding\<close>

lemma accept_walk_stop:
  "accept_walk F ds ts k r = ((stop, excl), r') \<Longrightarrow>
     k \<le> stop \<and> stop \<le> k + length ts \<and>
     (if stop = k + length ts then excl = - 1 else excl = to_i32 (ts ! (stop - k)))"
proof (induction F ds ts k r rule: accept_walk.induct)
  case (2 F ds t ts k r)
  obtain u r1 where u: "uniform F (d_zero F) (d_one F) r = (u, r1)" by fastforce
  show ?case
  proof (cases "d_lt F u (served_probability F (ds ! k) t)")
    case True
    then have "accept_walk F ds ts (Suc k) r1 = ((stop, excl), r')" using "2.prems" u by simp
    from "2.IH" [OF u [symmetric] True this] show ?thesis by (auto simp: Suc_diff_le nth_Cons' split: if_splits)
  next
    case False
    then show ?thesis using "2.prems" u by auto
  qed
qed auto

lemma walk_in: "walk F u l xs = t \<Longrightarrow> t = l \<or> t \<in> fst ` set xs"
  by (induction F u l xs rule: walk.induct) (auto simp: Let_def split: if_splits)

lemma sample_served_kept:
  assumes "sample_served F d excl r = Inr (t, r')" "length (s_weights d) = length (s_tokens d)"
  shows "kept_token excl t \<and> (t \<in> set (s_tokens d) \<or> t = argmax_token d)"
proof -
  let ?xs = "filter (\<lambda>(t, w). kept_token excl t) (zip (s_tokens d) (s_weights d))"
  have in_xs: "\<And>x. x \<in> set ?xs \<Longrightarrow> kept_token excl (fst x) \<and> fst x \<in> set (s_tokens d)" by (auto dest: set_zip_leftD)
  show ?thesis
  proof (cases "d_lt F (d_zero F) (total_of F (map snd ?xs))")
    case False
    then show ?thesis
      using assms(1) by (auto simp: sample_served_def Let_def kept_token_def split: if_splits)
  next
    case True
    obtain u r1 where u: "uniform F (d_zero F) (total_of F (map snd ?xs)) r = (u, r1)" by fastforce
    define ts where "ts = filter (kept_token excl) (s_tokens d)"
    have ts: "ts \<noteq> []" and t: "t = walk F u (last ts) ?xs"
      using assms(1) True u unfolding sample_served_def Let_def ts_def
      by (auto split: if_splits list.split_asm)
    have "last ts \<in> set ts" using ts by simp
    then have "kept_token excl (last ts) \<and> last ts \<in> set (s_tokens d)" by (simp add: ts_def)
    then show ?thesis using walk_in [OF t [symmetric]] in_xs by auto
  qed
qed



end
