(* ===== verification/Spec2Isabelle.thy ===== *)
theory Spec2Isabelle
  imports Q27_Prelude Stream_Split Stop_Buffer Utf8_Gate Json_Model Chat_Prompt Tool_Grammar Tool_Grammar_Lang
    Tool_Grammar_Live Mask_Cache Tool_Constrain Byte_Codec Loader Prefix_Cache Prefix_Ram Snapshot_Store Suffix_Draft Depth_Ctl
    Tokenizer Tokenizer_Codec Gpu_Gate Api_Request Tool_Stream Tool_Recover Bare_Calls
    Api_Response Serve_Chat Agent_Session Agent_Stall Agent_Sha256 Agent_Tui Agent_Selections Agent_Match Agent_Edit Agent_Publish
    Conductor Sampling
begin

text \<open>
  Verification of the host-side logic of q27, a native inference engine for one model family with a CUDA
  and a Metal backend, the servers around it and a coding agent on top.  Paths are relative to the
  repository; \<^verbatim>\<open>src/\<close> holds the engine and the servers, \<^verbatim>\<open>experiments/ds4-agent/\<close> the agent.

  \<^bold>\<open>The program and its parts.\<close>  A server reads a request, checks its key, maps its messages and tools
  to a prompt (\<^verbatim>\<open>api_common.h\<close>, \<^verbatim>\<open>strip_ctrl.h\<close>, \<^verbatim>\<open>tool_preamble.h\<close>), encodes the prompt
  (\<^verbatim>\<open>tokenizer.cpp\<close>) and looks for a stored prefix of it in RAM and on disk (\<^verbatim>\<open>prefix_ram.h\<close>,
  \<^verbatim>\<open>prefix_cache.h\<close>, \<^verbatim>\<open>metal/disk_snapshot_store.h\<close>).  The engine, whose weights come from a container
  file (\<^verbatim>\<open>loader.cpp\<close>), generates tokens under a lock that shares the GPU (\<^verbatim>\<open>GpuGate\<close>), drafting ahead
  (\<^verbatim>\<open>suffixdraft.h\<close>, \<^verbatim>\<open>depthctl.h\<close>), sampling on the host (\<^verbatim>\<open>sampling.h\<close>), several requests in one
  round (\<^verbatim>\<open>conductor.h\<close>), and inside a tool call only tokens the grammar allows (\<^verbatim>\<open>toolgram.h\<close>,
  \<^verbatim>\<open>toolconstrain.h\<close>).  Each token is decoded, held until its UTF-8 is complete, split into answer,
  thinking and tool call (\<^verbatim>\<open>stream_split.h\<close>), cut at stop sequences (\<^verbatim>\<open>metal/stream_format.h\<close>), and
  drifted calls are repaired or recovered before the reply is shaped.  The agent keeps a ledger of the
  tokens its engine holds, watches for stalls, and runs file tools whose edits are addressed by handles.

  \<^bold>\<open>Theories and sources.\<close>  Each theory models the functions of one component under the names of the
  source; a member structure is a record, an enumeration a datatype, a loop a recursion, a throw or an
  early return a constructor of the result.
  \<^item> \<open>Q27_Prelude\<close>: string search, results with errors, numerals, the scan for the longest entry.
  \<^item> \<open>Stream_Split\<close>, \<open>Stop_Buffer\<close>, \<open>Utf8_Gate\<close>: the streaming buffers.  Cutting the stream differently
    changes nothing, a stop sequence does not leak, every emitted piece is well-formed UTF-8.
  \<^item> \<open>Json_Model\<close>, \<open>Chat_Prompt\<close>, \<open>Api_Request\<close>, \<open>Api_Response\<close>: values and accessors of the JSON
    library, prompt rendering, request mapping with its only error, response shapes and the key check,
    which lets through exactly the requests with a configured key.
  \<^item> \<open>Tool_Grammar\<close>, \<open>Tool_Grammar_Lang\<close>, \<open>Tool_Grammar_Live\<close>, \<open>Mask_Cache\<close>, \<open>Tool_Constrain\<close>: the
    tool-call machine, its language (exactly the reference grammar), that it has no dead end, the cache
    of token masks and the hooks that apply them.
  \<^item> \<open>Tool_Stream\<close>, \<open>Tool_Recover\<close>, \<open>Bare_Calls\<close>: repair and recovery of drifted calls.
  \<^item> \<open>Serve_Chat\<close>: the chat handler of \<^verbatim>\<open>server.cu\<close>, which composes tokenizer, gate, splitter,
    recovery and response; its reply depends on the decoded text only.
  \<^item> \<open>Byte_Codec\<close>, \<open>Loader\<close>: little-endian fields and the container loader on 64-bit words; whatever
    the bytes, a model that loads has its tensors in range, aligned, sized and disjoint.
  \<^item> \<open>Prefix_Cache\<close>, \<open>Prefix_Ram\<close>, \<open>Snapshot_Store\<close>: the prefix tiers; hits are sound and longest,
    what is written is found again, eviction meets its budget in the stated order.
  \<^item> \<open>Tokenizer\<close>, \<open>Tokenizer_Codec\<close>: loading, pretokenizer, merge loop against its reference semantics,
    and decoding of what was encoded.
  \<^item> \<open>Gpu_Gate\<close>, \<open>Conductor\<close>: the ticket lock as interleaved steps that implement a queue, the token
    queue that delivers everything, and the round of the scheduler.
  \<^item> \<open>Suffix_Draft\<close>, \<open>Depth_Ctl\<close>, \<open>Sampling\<close>: drafting, its controller, and the samplers, for any float
    arithmetic.
  \<^item> \<open>Agent_Session\<close>, \<open>Agent_Stall\<close>, \<open>Agent_Sha256\<close>, \<open>Agent_Tui\<close>: the resident ledger, the watchdog
    against its whole-stream reference, the digest against FIPS 180-4, and the terminal helpers.
  \<^item> \<open>Agent_Selections\<close>, \<open>Agent_Match\<close>, \<open>Agent_Edit\<close>, \<open>Agent_Publish\<close>: the ring of edit handles, the
    byte matcher, the file tools on one file, and the publication of an edit.  Together: a handle from a
    read edits exactly the bytes it showed or is refused, an edit without a handle applies to the only
    occurrence, and no interleaving with another process before the exchange loses a file.

  \<^bold>\<open>Interfaces.\<close>  \<open>longest_scan\<close> is the scan the RAM tier and the snapshot store share; \<open>mask_key\<close> is what
  the mask cache needs of its key and the grammar's signature provides; \<open>byte_alphabet\<close> is what the codec
  proofs need of the byte table; \<open>string_states\<close> is the string scanner that values and keys of the grammar
  instantiate; \<open>bounded_queue\<close> is the contract of the prompt queue.  Each is interpreted on the model's
  definitions in the theory that provides them.

  \<^bold>\<open>Bounds and loops.\<close>  Loops that consume a buffer are total functions with a measure.  Where the code
  could run forever on bad data (the encoding loop, the walk back in the matcher, the grouping of lines) the
  model is a partial function whose \<open>None\<close> is a loop that never ends, and a lemma shows that it returns.  Integers have their
  width where the code relies on it (the loader, the digest, masks, hashes, the nonce of handles); counters
  that only count events, sizes bounded by earlier guards and positions in buffers are naturals.

  \<^bold>\<open>Parameters.\<close>  The JSON parser and serialiser, floating-point operations and the random generator,
  system calls, allocation results, clocks, callbacks and what the device computes are arguments of the
  definitions.  Nothing is assumed of them beyond the hypotheses a theorem states.

  \<^bold>\<open>Not modelled.\<close>  The GPU kernels and the CUDA and Metal engines: device arithmetic and command
  encoding.  The HTTP wiring of both servers, their option parsing, logging and the streamed twins of the
  chat handler: the steps are those of \<open>Serve_Chat\<close> around a third-party HTTP library.  The CUDA half of the
  conductor.  The agent's terminal front ends, worker threads, session files and protocol mapping, and of
  its tools the path walk, the write and overwrite tools and the shell: operating-system calls with little
  logic between them.  Log output is left out everywhere.
\<close>

end
